(* ===== verification/Prelude.thy ===== *)
theory Prelude
  imports Main "HOL-Library.Word"
begin

text \<open>
  Shared vocabulary of the development: the machine integer types of the crate, the outcome of a
  fallible Rust computation (a value, an error, or a panic), checked indexing and slicing, checked
  \<open>usize\<close> arithmetic, and the big-endian conversions of \<open>u16\<close> and \<open>u32\<close>, with the lemmas
  about them that the component theories use.

  \<open>usize\<close> is \<open>nat\<close>; an operation that Rust checks against \<open>usize::MAX\<close> is checked here against
  \<open>usize_max\<close>, the bound of a 64-bit target.
\<close>

unbundle bit_operations_syntax

section \<open>Types\<close>

type_synonym byte = "8 word"
type_synonym u16 = "16 word"
type_synonym u32 = "32 word"
type_synonym u64 = "64 word"
type_synonym usize = nat
type_synonym bytes = "byte list"

text \<open>
  A computation returns \<open>Ok\<close> with its value, returns \<open>Err\<close>, or panics (an assertion, a slice or an
  index out of range, an \<open>expect\<close> on nothing).
\<close>

datatype ('a, 'e) res = Ok 'a | Err 'e | Panic

named_theorems wire_simps \<open>unat readings of words, lengths and reads of encoded fields\<close>
named_theorems panic_free \<open>facts that an operation does not panic\<close>

section \<open>Outcomes\<close>

fun and_then :: "('a, 'e) res \<Rightarrow> ('a \<Rightarrow> ('b, 'e) res) \<Rightarrow> ('b, 'e) res" where
  "and_then (Ok x) f = f x"
| "and_then (Err e) f = Err e"
| "and_then Panic f = Panic"

text \<open>The error conversion that \<open>?\<close> applies.\<close>

fun map_err :: "('e \<Rightarrow> 'f) \<Rightarrow> ('a, 'e) res \<Rightarrow> ('a, 'f) res" where
  "map_err g (Ok x) = Ok x"
| "map_err g (Err e) = Err (g e)"
| "map_err g Panic = Panic"

definition ok_or :: "'e \<Rightarrow> 'a option \<Rightarrow> ('a, 'e) res" where
  "ok_or e v = (case v of None \<Rightarrow> Err e | Some x \<Rightarrow> Ok x)"

definition expect_some :: "'a option \<Rightarrow> ('a, 'e) res" where
  "expect_some v = (case v of None \<Rightarrow> Panic | Some x \<Rightarrow> Ok x)"

definition assert_that :: "bool \<Rightarrow> (unit, 'e) res" where
  "assert_that b = (if b then Ok () else Panic)"

section \<open>Slices\<close>

definition idx :: "'a list \<Rightarrow> usize \<Rightarrow> ('a, 'e) res" where
  "idx xs i = (if i < length xs then Ok (xs ! i) else Panic)"

text \<open>\<open>&xs[a..b]\<close>\<close>

definition slice :: "'a list \<Rightarrow> usize \<Rightarrow> usize \<Rightarrow> ('a list, 'e) res" where
  "slice xs a b = (if a \<le> b \<and> b \<le> length xs then Ok (take (b - a) (drop a xs)) else Panic)"

text \<open>\<open>dst[a..a + src.len()].copy_from_slice(src)\<close>\<close>

definition put_slice :: "'a list \<Rightarrow> usize \<Rightarrow> 'a list \<Rightarrow> ('a list, 'e) res" where
  "put_slice dst a src =
     (if a + length src \<le> length dst
      then Ok (take a dst @ src @ drop (a + length src) dst) else Panic)"

section \<open>Checked arithmetic\<close>

definition usize_max :: usize where
  "usize_max = 18446744073709551615"

definition checked_add :: "usize \<Rightarrow> usize \<Rightarrow> usize option" where
  "checked_add a b = (if a + b \<le> usize_max then Some (a + b) else None)"

definition checked_sub :: "usize \<Rightarrow> usize \<Rightarrow> usize option" where
  "checked_sub a b = (if b \<le> a then Some (a - b) else None)"

definition u16_max :: usize where
  "u16_max = 65535"

text \<open>\<open>a + b\<close> on 16-bit values, which panics on overflow.\<close>

definition add_u16_checked :: "u16 \<Rightarrow> u16 \<Rightarrow> (u16, 'e) res" where
  "add_u16_checked a b = (if unat a + unat b \<le> u16_max then Ok (a + b) else Panic)"

definition u16_try_from :: "usize \<Rightarrow> u16 option" where
  "u16_try_from n = (if n \<le> u16_max then Some (word_of_nat n) else None)"

section \<open>Big-endian fields\<close>

definition u16_from_be_bytes :: "byte \<Rightarrow> byte \<Rightarrow> u16" where
  "u16_from_be_bytes a b = 256 * ucast a + ucast b"

definition u16_to_be_bytes :: "u16 \<Rightarrow> bytes" where
  "u16_to_be_bytes w = [ucast (drop_bit 8 w), ucast w]"

definition u32_from_be_bytes :: "byte \<Rightarrow> byte \<Rightarrow> byte \<Rightarrow> byte \<Rightarrow> u32" where
  "u32_from_be_bytes a b c d =
     16777216 * ucast a + 65536 * ucast b + 256 * ucast c + ucast d"

definition u32_to_be_bytes :: "u32 \<Rightarrow> bytes" where
  "u32_to_be_bytes w =
     [ucast (drop_bit 24 w), ucast (drop_bit 16 w), ucast (drop_bit 8 w), ucast w]"

section \<open>Lemmas on outcomes\<close>

lemma and_then_eq_Ok: "and_then m f = Ok y \<longleftrightarrow> (\<exists>x. m = Ok x \<and> f x = Ok y)"
  by (cases m) auto

lemma and_then_eq_Panic: "and_then m f = Panic \<longleftrightarrow> m = Panic \<or> (\<exists>x. m = Ok x \<and> f x = Panic)"
  by (cases m) auto

lemma and_then_eq_Err:
  "and_then m f = Err e \<longleftrightarrow> m = Err e \<or> (\<exists>x. m = Ok x \<and> f x = Err e)"
  by (cases m) auto

lemma and_then_assoc: "and_then (and_then m f) g = and_then m (\<lambda>x. and_then (f x) g)"
  by (cases m) auto

lemma and_then_cong [fundef_cong]:
  "m = n \<Longrightarrow> (\<And>x. n = Ok x \<Longrightarrow> f x = g x) \<Longrightarrow> and_then m f = and_then n g"
  by (cases n) auto

lemma map_err_eq_Panic [simp]: "map_err g m = Panic \<longleftrightarrow> m = Panic"
  by (cases m) auto

lemma map_err_eq_Err: "map_err g m = Err e \<longleftrightarrow> (\<exists>e'. m = Err e' \<and> e = g e')"
  by (cases m) auto

lemma map_err_eq_Ok [simp]: "map_err g m = Ok x \<longleftrightarrow> m = Ok x"
  by (cases m) auto

lemma ok_or_not_Panic [simp, panic_free]: "ok_or e v \<noteq> Panic"
  by (simp add: ok_or_def split: option.split)

lemma ok_or_simps [simp]: "ok_or e None = Err e" "ok_or e (Some x) = Ok x"
  by (simp_all add: ok_or_def)

lemma ok_or_eq_Ok [simp]: "ok_or e v = Ok x \<longleftrightarrow> v = Some x"
  by (simp add: ok_or_def split: option.split)

lemma expect_some_simps [simp]: "expect_some None = Panic" "expect_some (Some x) = Ok x"
  by (simp_all add: expect_some_def)

lemma assert_that_simps [simp]: "assert_that True = Ok ()" "assert_that False = Panic"
  by (simp_all add: assert_that_def)

lemma idx_Ok [simp]: "i < length xs \<Longrightarrow> idx xs i = Ok (xs ! i)"
  by (simp add: idx_def)

lemma slice_Ok [simp]:
  "a \<le> b \<Longrightarrow> b \<le> length xs \<Longrightarrow> slice xs a b = Ok (take (b - a) (drop a xs))"
  by (simp add: slice_def)

lemma idx_eq_Panic: "idx xs i = Panic \<longleftrightarrow> length xs \<le> i"
  by (simp add: idx_def)

lemma idx_eq_Ok: "idx xs i = Ok x \<longleftrightarrow> i < length xs \<and> x = xs ! i"
  by (auto simp: idx_def)

lemma slice_eq_Panic: "slice xs a b = Panic \<longleftrightarrow> \<not> (a \<le> b \<and> b \<le> length xs)"
  by (simp add: slice_def)

lemma slice_eq_Ok:
  "slice xs a b = Ok ys \<longleftrightarrow> a \<le> b \<and> b \<le> length xs \<and> ys = take (b - a) (drop a xs)"
  by (auto simp: slice_def)

lemma slice_eq_OkD: "slice xs a b = Ok ys \<Longrightarrow> a \<le> b \<and> b \<le> length xs \<and> ys = take (b - a) (drop a xs)"
  by (simp add: slice_def split: if_splits)

lemma put_slice_Ok [simp]:
  "a + length src \<le> length dst \<Longrightarrow>
     put_slice dst a src = Ok (take a dst @ src @ drop (a + length src) dst)"
  by (simp add: put_slice_def)

lemma put_slice_eq_Panic: "put_slice dst a src = Panic \<longleftrightarrow> length dst < a + length src"
  by (auto simp: put_slice_def)

lemma put_slice_eq_Ok:
  "put_slice dst a src = Ok out \<longleftrightarrow>
     a + length src \<le> length dst \<and> out = take a dst @ src @ drop (a + length src) dst"
  by (auto simp: put_slice_def)

lemma idx_not_Err [simp]: "idx xs i \<noteq> Err e"
  by (simp add: idx_def)

lemma slice_not_Err [simp]: "slice xs a b \<noteq> Err e"
  by (simp add: slice_def)

lemma put_slice_not_Err [simp]: "put_slice dst a src \<noteq> Err e"
  by (simp add: put_slice_def)

lemmas panic_iffs = and_then_eq_Panic idx_eq_Panic slice_eq_Panic put_slice_eq_Panic

lemmas ok_iffs = and_then_eq_Ok idx_eq_Ok slice_eq_Ok put_slice_eq_Ok

lemma not_Err_Panic_iff: "m \<noteq> Panic \<Longrightarrow> (\<And>e. m \<noteq> Err e) \<Longrightarrow> \<exists>x. m = Ok x"
  by (cases m) auto

section \<open>Lemmas on checked arithmetic\<close>

lemma checked_sub_eq_Some [simp]: "checked_sub a b = Some c \<longleftrightarrow> b \<le> a \<and> c = a - b"
  by (auto simp: checked_sub_def)

lemma checked_sub_eq_None [simp]: "checked_sub a b = None \<longleftrightarrow> a < b"
  by (auto simp: checked_sub_def)

lemma checked_add_eq_Some [simp]:
  "checked_add a b = Some c \<longleftrightarrow> a + b \<le> usize_max \<and> c = a + b"
  by (auto simp: checked_add_def)

lemma checked_add_eq_None [simp]: "checked_add a b = None \<longleftrightarrow> usize_max < a + b"
  by (auto simp: checked_add_def)

lemma u16_max_less_usize_max: "u16_max < usize_max"
  by (simp add: u16_max_def usize_max_def)

lemma unat_byte_less [wire_simps, simp]: "unat (b :: byte) < 256"
  using unsigned_less [of b] by simp

lemma unat_u16_less [wire_simps, simp]: "unat (w :: u16) < 65536"
  using unsigned_less [of w] by simp

lemma unat_u16_le_max [wire_simps, simp]: "unat (w :: u16) \<le> u16_max"
  using unat_u16_less [of w] by (simp only: u16_max_def less_eq_Suc_le)

lemma unat_u32_less [wire_simps, simp]: "unat (w :: u32) < 4294967296"
  using unsigned_less [of w] by simp

lemma unat_of_nat_u16 [wire_simps]: "n \<le> u16_max \<Longrightarrow> unat (word_of_nat n :: u16) = n"
  by (simp add: unat_of_nat u16_max_def)

lemma unat_of_nat_byte [wire_simps]: "n < 256 \<Longrightarrow> unat (word_of_nat n :: byte) = n"
  by (simp add: unat_of_nat)

lemma u16_try_from_eq_Some:
  "u16_try_from n = Some w \<longleftrightarrow> n \<le> u16_max \<and> unat w = n"
  by (auto simp: u16_try_from_def unat_of_nat_u16)

lemma u16_try_from_eq_None: "u16_try_from n = None \<longleftrightarrow> u16_max < n"
  by (auto simp: u16_try_from_def)

lemma u16_try_from_unat [simp]: "u16_try_from (unat w) = Some w"
  by (simp add: u16_try_from_eq_Some)

section \<open>Lemmas on big-endian fields\<close>

lemma unat_u16_from_be_bytes [wire_simps]:
  "unat (u16_from_be_bytes a b) = 256 * unat a + unat b"
proof -
  have "unat (256 * ucast a + ucast b :: u16) = (256 * unat a + unat b) mod 65536"
    by (simp add: unat_word_ariths unsigned_ucast_eq take_bit_nat_eq_self_iff take_bit_eq_mod mod_simps)
  moreover have "256 * unat a + unat b < 65536"
    using unat_byte_less [of a] unat_byte_less [of b] by linarith
  ultimately show ?thesis by (simp add: u16_from_be_bytes_def)
qed

lemma unat_u32_from_be_bytes [wire_simps]:
  "unat (u32_from_be_bytes a b c d) =
     16777216 * unat a + 65536 * unat b + 256 * unat c + unat d"
proof -
  have "unat (u32_from_be_bytes a b c d) =
      (16777216 * unat a + 65536 * unat b + 256 * unat c + unat d) mod 4294967296"
    by (simp add: u32_from_be_bytes_def unat_word_ariths unsigned_ucast_eq take_bit_nat_eq_self_iff take_bit_eq_mod mod_simps)
  moreover have "16777216 * unat a + 65536 * unat b + 256 * unat c + unat d < 4294967296"
    using unat_byte_less [of a] unat_byte_less [of b] unat_byte_less [of c] unat_byte_less [of d]
    by linarith
  ultimately show ?thesis by simp
qed

lemma unat_drop_bit: "unat (drop_bit n w) = unat w div 2 ^ n"
  by (simp add: unsigned_drop_bit_eq take_bit_eq_mod flip: drop_bit_eq_div)

lemma unat_low_byte: "unat (ucast w :: byte) = unat w mod 256"
  by (simp add: unsigned_ucast_eq take_bit_eq_mod)

lemmas unat_be_simps = unat_drop_bit unat_low_byte unat_u16_from_be_bytes unat_u32_from_be_bytes

lemma u16_from_be_bytes_inverse [simp]:
  "u16_from_be_bytes (ucast (drop_bit 8 w)) (ucast w) = w"
proof -
  have "unat w div 256 < 256" using unat_u16_less [of w] by linarith
  then show ?thesis by (simp add: word_unat_eq_iff unat_be_simps)
qed

lemma u16_to_be_bytes_inverse [simp]: "u16_to_be_bytes (u16_from_be_bytes a b) = [a, b]"
  by (simp add: u16_to_be_bytes_def word_unat_eq_iff unat_be_simps)

lemma u32_from_be_bytes_inverse [simp]:
  "u32_from_be_bytes (ucast (drop_bit 24 w)) (ucast (drop_bit 16 w)) (ucast (drop_bit 8 w)) (ucast w) = w"
proof -
  define n where "n = unat w"
  define p q r where "p = n div 256" and "q = p div 256" and "r = q div 256"
  have "n = 256 * p + n mod 256" "p = 256 * q + p mod 256" "q = 256 * r + q mod 256"
    by (simp_all add: p_def q_def r_def)
  moreover have "n div 65536 = q" "n div 16777216 = r"
    by (simp_all add: p_def q_def r_def div_mult2_eq [symmetric])
  ultimately have "16777216 * (n div 16777216) + 65536 * (n div 65536 mod 256)
      + 256 * (n div 256 mod 256) + n mod 256 = n"
    by (simp flip: p_def)
  moreover have "n div 16777216 < 256"
    using unat_u32_less [of w] by (simp add: n_def less_mult_imp_div_less)
  ultimately show ?thesis by (simp add: word_unat_eq_iff unat_be_simps n_def)
qed

lemma u32_digits:
  fixes a b c d :: nat
  assumes "a < 256" "b < 256" "c < 256" "d < 256"
  shows "(16777216 * a + 65536 * b + 256 * c + d) div 16777216 mod 256 = a"
    and "(16777216 * a + 65536 * b + 256 * c + d) div 65536 mod 256 = b"
    and "(16777216 * a + 65536 * b + 256 * c + d) div 256 mod 256 = c"
    and "(16777216 * a + 65536 * b + 256 * c + d) mod 256 = d"
proof -
  let ?n = "16777216 * a + 65536 * b + 256 * c + d"
  have n: "?n = d + (c + (b + a * 256) * 256) * 256" by simp
  have p: "?n div 256 = c + (b + a * 256) * 256" unfolding n using assms by simp
  have q: "?n div 65536 = b + a * 256"
    using div_mult2_eq [of ?n 256 256] assms by (simp add: p)
  have r: "?n div 16777216 = a"
    using div_mult2_eq [of ?n 65536 256] assms by (simp add: q)
  show "?n div 16777216 mod 256 = a" using assms by (simp add: r)
  show "?n div 65536 mod 256 = b" using assms by (simp add: q)
  show "?n div 256 mod 256 = c" using assms by (simp only: p mod_mult_self1 mod_less)
  show "?n mod 256 = d" unfolding n using assms by (simp only: mod_mult_self1 mod_less)
qed

lemma u32_to_be_bytes_inverse [simp]: "u32_to_be_bytes (u32_from_be_bytes a b c d) = [a, b, c, d]"
  by (simp add: u32_to_be_bytes_def word_unat_eq_iff unat_be_simps u32_digits)

lemma length_u16_to_be_bytes [simp, wire_simps]: "length (u16_to_be_bytes w) = 2"
  by (simp add: u16_to_be_bytes_def)

lemma length_u32_to_be_bytes [simp, wire_simps]: "length (u32_to_be_bytes w) = 4"
  by (simp add: u32_to_be_bytes_def)

end
