(* ===== verification/Limits.thy ===== *)
theory Limits
  imports Prelude
begin

text \<open>
  The protocol constants of \<open>src/model.rs\<close>: option Kind values (\<open>kind_\<close>), fixed option lengths
  (\<open>length_\<close>) and the reassembly limits. A \<open>Duration\<close> and an \<open>Instant\<close> are numbers of nanoseconds.
\<close>

section \<open>Option Kind values\<close>

definition kind_EOL :: byte where "kind_EOL = 0"
definition kind_NOP :: byte where "kind_NOP = 1"
definition kind_APC :: byte where "kind_APC = 2"
definition kind_FRAG :: byte where "kind_FRAG = 3"
definition kind_MDS :: byte where "kind_MDS = 4"
definition kind_MRDS :: byte where "kind_MRDS = 5"
definition kind_REQ :: byte where "kind_REQ = 6"
definition kind_RES :: byte where "kind_RES = 7"
definition kind_TIME :: byte where "kind_TIME = 8"
definition kind_AUTH :: byte where "kind_AUTH = 9"
definition kind_EXP :: byte where "kind_EXP = 127"
definition kind_SAFE_RESERVED_MIN :: byte where "kind_SAFE_RESERVED_MIN = 128"
definition kind_SAFE_RESERVED_MAX :: byte where "kind_SAFE_RESERVED_MAX = 191"
definition kind_UNSAFE_MIN :: byte where "kind_UNSAFE_MIN = 192"
definition kind_EXTENDED_LENGTH_MARKER :: byte where "kind_EXTENDED_LENGTH_MARKER = 255"

section \<open>Fixed lengths\<close>

definition length_APC :: byte where "length_APC = 6"
definition length_FRAG_NON_TERMINAL :: byte where "length_FRAG_NON_TERMINAL = 10"
definition length_FRAG_TERMINAL :: byte where "length_FRAG_TERMINAL = 12"
definition length_MDS :: byte where "length_MDS = 4"
definition length_MRDS :: byte where "length_MRDS = 5"
definition length_REQ :: byte where "length_REQ = 6"
definition length_RES :: byte where "length_RES = 6"
definition length_TIME :: byte where "length_TIME = 10"
definition length_EXP_MIN :: byte where "length_EXP_MIN = 4"
definition length_OCS :: byte where "length_OCS = 2"
definition length_UDP_HEADER :: byte where "length_UDP_HEADER = 8"

section \<open>Reassembly defaults and limits\<close>

type_synonym duration = nat
type_synonym instant = nat

definition MRDS_DEFAULT_IPV4 :: u16 where "MRDS_DEFAULT_IPV4 = 2926"
definition MIN_REASSEMBLY_SEGMENTS :: byte where "MIN_REASSEMBLY_SEGMENTS = 2"
definition REASSEMBLY_TIMEOUT_MAX :: duration where "REASSEMBLY_TIMEOUT_MAX = 120000000000"
definition REASSEMBLY_MAX_PENDING_PARTIALS :: usize where "REASSEMBLY_MAX_PENDING_PARTIALS = 64"
definition NOP_RUN_DOS_THRESHOLD :: usize where "NOP_RUN_DOS_THRESHOLD = 7"

section \<open>Unfolding\<close>

lemmas kind_defs =
  kind_EOL_def kind_NOP_def kind_APC_def kind_FRAG_def kind_MDS_def kind_MRDS_def kind_REQ_def
  kind_RES_def kind_TIME_def kind_AUTH_def kind_EXP_def kind_SAFE_RESERVED_MIN_def
  kind_SAFE_RESERVED_MAX_def kind_UNSAFE_MIN_def kind_EXTENDED_LENGTH_MARKER_def

lemmas length_defs =
  length_APC_def length_FRAG_NON_TERMINAL_def length_FRAG_TERMINAL_def length_MDS_def
  length_MRDS_def length_REQ_def length_RES_def length_TIME_def length_EXP_MIN_def length_OCS_def
  length_UDP_HEADER_def

lemma unat_length_OCS [simp]: "unat length_OCS = 2"
  by (simp add: length_OCS_def)

lemma unat_length_UDP_HEADER [simp]: "unat length_UDP_HEADER = 8"
  by (simp add: length_UDP_HEADER_def)

end
