(* ===== verification/Option_Kind.thy ===== *)
theory Option_Kind
  imports Limits
begin

text \<open>
  The option Kind and its classification (\<open>src/options/kind.rs\<close>), and the owned option of
  \<open>src/options/mod.rs\<close>. \<open>from_byte\<close> and \<open>to_byte\<close> are inverse on the image of \<open>from_byte\<close>, and the
  classification predicates are ranges of the Kind byte.
\<close>

section \<open>Kinds\<close>

definition NO_FIXED_LENGTHS :: "byte list" where "NO_FIXED_LENGTHS = []"
definition APC_LENGTHS :: "byte list" where "APC_LENGTHS = [length_APC]"
definition FRAG_LENGTHS :: "byte list" where
  "FRAG_LENGTHS = [length_FRAG_NON_TERMINAL, length_FRAG_TERMINAL]"
definition MDS_LENGTHS :: "byte list" where "MDS_LENGTHS = [length_MDS]"
definition MRDS_LENGTHS :: "byte list" where "MRDS_LENGTHS = [length_MRDS]"
definition REQ_LENGTHS :: "byte list" where "REQ_LENGTHS = [length_REQ]"
definition RES_LENGTHS :: "byte list" where "RES_LENGTHS = [length_RES]"

datatype option_kind = Eol | Nop | Apc | Frag | Mds | Mrds | Req | Res | Other byte

datatype option_framing = SingleByte | LengthDelimited

definition from_byte :: "byte \<Rightarrow> option_kind" where
  "from_byte b =
     (if b = kind_EOL then Eol
      else if b = kind_NOP then Nop
      else if b = kind_APC then Apc
      else if b = kind_FRAG then Frag
      else if b = kind_MDS then Mds
      else if b = kind_MRDS then Mrds
      else if b = kind_REQ then Req
      else if b = kind_RES then Res
      else Other b)"

fun to_byte :: "option_kind \<Rightarrow> byte" where
  "to_byte Eol = kind_EOL"
| "to_byte Nop = kind_NOP"
| "to_byte Apc = kind_APC"
| "to_byte Frag = kind_FRAG"
| "to_byte Mds = kind_MDS"
| "to_byte Mrds = kind_MRDS"
| "to_byte Req = kind_REQ"
| "to_byte Res = kind_RES"
| "to_byte (Other b) = b"

definition is_safe :: "option_kind \<Rightarrow> bool" where
  "is_safe k \<longleftrightarrow> to_byte k < kind_UNSAFE_MIN"

definition is_unsafe :: "option_kind \<Rightarrow> bool" where
  "is_unsafe k \<longleftrightarrow> \<not> is_safe k"

definition is_must_support :: "option_kind \<Rightarrow> bool" where
  "is_must_support k \<longleftrightarrow> to_byte k \<le> kind_RES"

definition framing :: "option_kind \<Rightarrow> option_framing" where
  "framing k =
     (if to_byte k = kind_EOL \<or> to_byte k = kind_NOP then SingleByte else LengthDelimited)"

definition is_single_byte :: "option_kind \<Rightarrow> bool" where
  "is_single_byte k \<longleftrightarrow> framing k = SingleByte"

definition fixed_tlv_lengths :: "option_kind \<Rightarrow> byte list" where
  "fixed_tlv_lengths k =
     (let b = to_byte k in
      if b = kind_APC then APC_LENGTHS
      else if b = kind_FRAG then FRAG_LENGTHS
      else if b = kind_MDS then MDS_LENGTHS
      else if b = kind_MRDS then MRDS_LENGTHS
      else if b = kind_REQ then REQ_LENGTHS
      else if b = kind_RES then RES_LENGTHS
      else NO_FIXED_LENGTHS)"

section \<open>Owned options\<close>

record raw_option =
  opt_kind :: option_kind
  opt_value :: bytes

section \<open>Laws\<close>

lemmas fixed_length_tables =
  NO_FIXED_LENGTHS_def APC_LENGTHS_def FRAG_LENGTHS_def MDS_LENGTHS_def MRDS_LENGTHS_def
  REQ_LENGTHS_def RES_LENGTHS_def

lemma to_byte_from_byte [simp]: "to_byte (from_byte b) = b"
  by (simp add: from_byte_def)

text \<open>A Kind is canonical when no named Kind hides in \<open>Other\<close>; parsing yields only those.\<close>

definition canonical_kind :: "option_kind \<Rightarrow> bool" where
  "canonical_kind k \<longleftrightarrow> from_byte (to_byte k) = k"

lemma canonical_from_byte [simp]: "canonical_kind (from_byte b)"
  by (simp add: canonical_kind_def)

lemma canonical_named [simp]:
  "canonical_kind Eol" "canonical_kind Nop" "canonical_kind Apc" "canonical_kind Frag"
  "canonical_kind Mds" "canonical_kind Mrds" "canonical_kind Req" "canonical_kind Res"
  by (simp_all add: canonical_kind_def from_byte_def kind_defs)

lemma canonical_Other: "canonical_kind (Other b) \<longleftrightarrow> kind_RES < b"
  by (auto simp: canonical_kind_def from_byte_def kind_defs word_less_nat_alt word_unat_eq_iff)

lemma from_byte_eq_iff: "canonical_kind k \<Longrightarrow> from_byte b = k \<longleftrightarrow> b = to_byte k"
  by (auto simp: canonical_kind_def)

lemma from_byte_named:
  "from_byte b = Eol \<longleftrightarrow> b = kind_EOL" "from_byte b = Nop \<longleftrightarrow> b = kind_NOP"
  "from_byte b = Apc \<longleftrightarrow> b = kind_APC" "from_byte b = Frag \<longleftrightarrow> b = kind_FRAG"
  "from_byte b = Mds \<longleftrightarrow> b = kind_MDS" "from_byte b = Mrds \<longleftrightarrow> b = kind_MRDS"
  "from_byte b = Req \<longleftrightarrow> b = kind_REQ" "from_byte b = Res \<longleftrightarrow> b = kind_RES"
  by (simp_all add: from_byte_eq_iff)

lemma is_unsafe_iff: "is_unsafe k \<longleftrightarrow> 192 \<le> unat (to_byte k)"
  by (simp add: is_unsafe_def is_safe_def kind_defs word_less_nat_alt not_less)

lemma byte_le_7: "b = 0 \<or> b = 1 \<or> b = 2 \<or> b = 3 \<or> b = 4 \<or> b = 5 \<or> b = 6 \<or> b = 7 \<longleftrightarrow> unat b \<le> 7" for b :: byte
  by (auto simp: word_unat_eq_iff)

lemma fixed_tlv_lengths_bounds: "n \<in> set (fixed_tlv_lengths k) \<Longrightarrow> 4 \<le> unat n \<and> unat n \<le> 12"
  by (auto simp: fixed_tlv_lengths_def fixed_length_tables length_defs Let_def split: if_splits)

lemma fixed_tlv_lengths_must_support:
  "fixed_tlv_lengths k \<noteq> [] \<longleftrightarrow> is_must_support k \<and> \<not> is_single_byte k"
  using byte_le_7 [of "to_byte k"]
  by (auto simp: fixed_tlv_lengths_def fixed_length_tables is_must_support_def is_single_byte_def
      framing_def kind_defs Let_def word_le_nat_alt)

lemma from_byte_table:
  "from_byte b = (if unat b < 8 then [Eol, Nop, Apc, Frag, Mds, Mrds, Req, Res] ! unat b else Other b)"
proof (cases "unat b < 8")
  case True
  then have "unat b \<le> 7" by simp
  then show ?thesis unfolding byte_le_7 [symmetric] by (elim disjE) (simp_all add: from_byte_def kind_defs)
next
  case False
  then have "b \<noteq> 0" "b \<noteq> 1" "b \<noteq> 2" "b \<noteq> 3" "b \<noteq> 4" "b \<noteq> 5" "b \<noteq> 6" "b \<noteq> 7" by auto
  then show ?thesis using False by (simp add: from_byte_def kind_defs)
qed

lemma fixed_lengths_table:
  "map unat (fixed_tlv_lengths (from_byte b)) =
     (if unat b < 8 then [[], [], [6], [10, 12], [4], [5], [6], [6]] ! unat b else [])"
proof (cases "unat b < 8")
  case True
  then have "unat b \<le> 7" by simp
  then show ?thesis
    unfolding byte_le_7 [symmetric] by (elim disjE)
      (simp_all add: fixed_tlv_lengths_def fixed_length_tables length_defs kind_defs Let_def)
next
  case False
  then have "b \<noteq> 2" "b \<noteq> 3" "b \<noteq> 4" "b \<noteq> 5" "b \<noteq> 6" "b \<noteq> 7" by auto
  then show ?thesis using False by (simp add: fixed_tlv_lengths_def fixed_length_tables kind_defs Let_def)
qed

lemma canonical_kind_iff: "canonical_kind k \<longleftrightarrow> (case k of Other c \<Rightarrow> 8 \<le> unat c | _ \<Rightarrow> True)"
  by (cases k) (auto simp: canonical_Other kind_RES_def word_less_nat_alt)

section \<open>Properties\<close>

text \<open>
  C40: Kind bytes and Kinds correspond: the bytes 0 to 7 are the eight named Kinds in the order of the standard and
  every other byte is itself, each byte is read back from its Kind, and the Kinds that survive the way
  to a byte and back are those that hide no named one. Must-support Kinds are the bytes below 8, EOL
  and NOP are the only single-byte ones, UNSAFE starts at 192, and the fixed lengths are those of the standard.
\<close>

theorem option_kind_bytes:
  "to_byte (from_byte b) = b
   \<and> from_byte b = (if unat b < 8 then [Eol, Nop, Apc, Frag, Mds, Mrds, Req, Res] ! unat b else Other b)
   \<and> (from_byte (to_byte k) = k \<longleftrightarrow> (case k of Other c \<Rightarrow> 8 \<le> unat c | _ \<Rightarrow> True))
   \<and> (is_must_support (from_byte b) \<longleftrightarrow> unat b < 8) \<and> (is_single_byte (from_byte b) \<longleftrightarrow> unat b < 2)
   \<and> (is_unsafe (from_byte b) \<longleftrightarrow> 192 \<le> unat b)
   \<and> map unat (fixed_tlv_lengths (from_byte b)) =
       (if unat b < 8 then [[], [], [6], [10, 12], [4], [5], [6], [6]] ! unat b else [])"
proof (intro conjI)
  show "from_byte b = (if unat b < 8 then [Eol, Nop, Apc, Frag, Mds, Mrds, Req, Res] ! unat b else Other b)"
    by (rule from_byte_table)
  show "from_byte (to_byte k) = k \<longleftrightarrow> (case k of Other c \<Rightarrow> 8 \<le> unat c | _ \<Rightarrow> True)"
    using canonical_kind_iff [of k] by (simp only: canonical_kind_def)
  show "is_must_support (from_byte b) \<longleftrightarrow> unat b < 8"
    by (auto simp: is_must_support_def kind_defs word_le_nat_alt)
  show "is_single_byte (from_byte b) \<longleftrightarrow> unat b < 2"
    by (simp add: is_single_byte_def framing_def kind_defs word_unat_eq_iff less_2_cases_iff)
  show "map unat (fixed_tlv_lengths (from_byte b)) =
       (if unat b < 8 then [[], [], [6], [10, 12], [4], [5], [6], [6]] ! unat b else [])"
    by (rule fixed_lengths_table)
qed (simp_all add: is_unsafe_iff)

end
