(* ===== verification/Errors.thy ===== *)
theory Errors
  imports Prelude
begin

text \<open>
  The error types of \<open>src/error.rs\<close>. Two Rust enums share the variant names \<open>DuplicateFrag\<close>,
  \<open>Serialize\<close>, \<open>Socket\<close> and \<open>Io\<close>; here the name carries its enum. \<open>std::io::Error\<close> is represented by
  the only thing the crate reads from it, the optional raw OS error number and its kind.
\<close>

datatype parse_error =
    InvalidLength byte usize
  | Overrun usize
  | ParseDuplicateFrag
  | NonZeroPad
  | OcsMismatch

datatype serialize_error =
    ReservedKind byte
  | UnsafeKind byte
  | UnsupportedAssignedKind byte
  | SerializeDuplicateFrag
  | ValueTooLong byte usize usize
  | InvalidFixedValueLength byte usize
  | BodyTooLong usize usize
  | FragmentStartTooLarge usize usize

datatype split_error =
    ReassembledDatagramTooLarge usize usize
  | SegmentLimitExceeded usize byte
  | FragmentCapacityTooSmall usize usize
  | FragmentSurplusTooLarge usize usize
  | RdosTooLarge usize usize
  | FragmentOffsetTooLarge usize usize
  | OptionsBodyTooShort usize
  | IdentificationExhausted
  | SplitSerialize serialize_error

datatype io_error_kind = WouldBlock | TimedOut | Unsupported | OtherIo

record io_error =
  raw_os_error :: "int option"
  io_kind :: io_error_kind

datatype socket_error =
    SocketIo io_error
  | PermissionDenied

datatype send_error =
    SendSerialize serialize_error
  | SendSplit split_error
  | SendSocket socket_error
  | FragmentIdentificationRequired
  | DatagramTooLarge usize usize
  | InvalidConfig string

datatype receive_policy_error =
    UnsupportedRequiredOption byte

datatype header_error =
    IpTruncated usize usize
  | UnsupportedVersion byte
  | BadIhl byte
  | BadIpLength u16
  | IpChecksumMismatch
  | UnexpectedProtocol byte
  | UdpTruncated usize
  | UdpLengthInvalid u16

datatype recv_error =
    RecvHeader header_error
  | RecvParse parse_error
  | UdpLengthExceedsIpPayload u16 usize
  | UdpChecksumMismatch u16 u16
  | RecvSocket socket_error

end
