(* ===== verification/Option_Parse.thy ===== *)
theory Option_Parse
  imports Option_Kind Errors
begin

text \<open>
  The zero-copy TLV parser (\<open>src/options/parse.rs\<close>). \<open>OptionsIter\<close> is a record, \<open>next\<close> one step of
  it, and \<open>options_items\<close> drains the iterator the way a \<open>for\<close> loop does. A borrowed value carries its
  offset in the iterated bytes, which \<open>option_end_offset\<close> of the receive pipeline reads from the
  borrow; the static empty value of EOL and NOP has none. The parser is proved equal to a reference
  that recurses on the suffix of the bytes.
\<close>

section \<open>The iterator\<close>

record option_ref =
  ref_kind :: option_kind
  ref_value :: bytes
  ref_at :: "usize option"

type_synonym item = "parse_error + option_ref"

record options_iter =
  it_bytes :: bytes
  it_pos :: usize
  it_done :: bool
  it_current_nop_run :: usize
  it_max_nop_run :: usize

definition options_iter_new :: "bytes \<Rightarrow> options_iter" where
  "options_iter_new bs =
     \<lparr>it_bytes = bs, it_pos = 0, it_done = False, it_current_nop_run = 0, it_max_nop_run = 0\<rparr>"

definition max_nop_run :: "options_iter \<Rightarrow> usize" where
  "max_nop_run it = it_max_nop_run it"

definition iter_fail :: "options_iter \<Rightarrow> parse_error \<Rightarrow> (item option \<times> options_iter, 'e) res" where
  "iter_fail it e = Ok (Some (Inl e), it\<lparr>it_done := True\<rparr>)"

definition value_slice ::
  "options_iter \<Rightarrow> usize \<Rightarrow> usize \<Rightarrow> usize \<Rightarrow> (bytes \<times> options_iter, 'e) res" where
  "value_slice it start hlen tlen =
     and_then (slice (it_bytes it) (start + hlen) (start + tlen)) (\<lambda>v.
     Ok (v, it\<lparr>it_pos := start + tlen, it_current_nop_run := 0\<rparr>))"

definition options_next :: "options_iter \<Rightarrow> (item option \<times> options_iter, 'e) res" where
  "options_next it =
     (if it_done it \<or> it_pos it \<ge> length (it_bytes it) then Ok (None, it) else
      let start = it_pos it in
      and_then (idx (it_bytes it) start) (\<lambda>raw.
      let k = from_byte raw in
      if raw = kind_EOL then
        Ok (Some (Inr \<lparr>ref_kind = k, ref_value = [], ref_at = None\<rparr>),
            it\<lparr>it_pos := it_pos it + 1, it_current_nop_run := 0, it_done := True\<rparr>)
      else if raw = kind_NOP then
        let run = it_current_nop_run it + 1 in
        Ok (Some (Inr \<lparr>ref_kind = k, ref_value = [], ref_at = None\<rparr>),
            it\<lparr>it_pos := it_pos it + 1, it_current_nop_run := run,
               it_max_nop_run := max (it_max_nop_run it) run\<rparr>)
      else if \<not> start + 1 < length (it_bytes it) then iter_fail it (Overrun start)
      else and_then (idx (it_bytes it) (start + 1)) (\<lambda>len_byte.
      if len_byte = kind_EXTENDED_LENGTH_MARKER then
        if start + 4 > length (it_bytes it) then iter_fail it (Overrun start) else
        and_then (idx (it_bytes it) (start + 2)) (\<lambda>b2.
        and_then (idx (it_bytes it) (start + 3)) (\<lambda>b3.
        let tlen = unat (u16_from_be_bytes b2 b3) in
        if tlen < unat kind_EXTENDED_LENGTH_MARKER then iter_fail it (InvalidLength raw tlen)
        else if start + tlen > length (it_bytes it) then iter_fail it (Overrun start)
        else and_then (value_slice it start 4 tlen) (\<lambda>(v, it').
          Ok (Some (Inr \<lparr>ref_kind = k, ref_value = v, ref_at = Some (start + 4)\<rparr>), it'))))
      else
        let tlen = unat len_byte in
        if tlen < 2 then iter_fail it (InvalidLength raw tlen)
        else if start + tlen > length (it_bytes it) then iter_fail it (Overrun start)
        else and_then (value_slice it start 2 tlen) (\<lambda>(v, it').
          Ok (Some (Inr \<lparr>ref_kind = k, ref_value = v, ref_at = Some (start + 2)\<rparr>), it')))))"

definition raw_from_ref :: "option_ref \<Rightarrow> raw_option" where
  "raw_from_ref r = \<lparr>opt_kind = ref_kind r, opt_value = ref_value r\<rparr>"

section \<open>One step\<close>

text \<open>The bytes still to be read; an iterator that is done has none.\<close>

definition iter_rest :: "options_iter \<Rightarrow> bytes" where
  "iter_rest it = (if it_done it then [] else drop (it_pos it) (it_bytes it))"

text \<open>
  A reference reading of the first option of a suffix that starts at offset \<open>off\<close>: the item, how many
  bytes it takes, and whether reading goes on.
\<close>

fun first_option :: "usize \<Rightarrow> bytes \<Rightarrow> item \<times> usize \<times> bool" where
  "first_option off [] = (Inl (Overrun off), 0, False)"
| "first_option off (k # bs) =
     (if k = kind_EOL then (Inr \<lparr>ref_kind = Eol, ref_value = [], ref_at = None\<rparr>, 1, False)
      else if k = kind_NOP then (Inr \<lparr>ref_kind = Nop, ref_value = [], ref_at = None\<rparr>, 1, True)
      else case bs of
        [] \<Rightarrow> (Inl (Overrun off), 0, False)
      | l # bs' \<Rightarrow>
          if l = kind_EXTENDED_LENGTH_MARKER then
            (case bs' of
               b2 # b3 # bs'' \<Rightarrow>
                 let tlen = unat (u16_from_be_bytes b2 b3) in
                 if tlen < 255 then (Inl (InvalidLength k tlen), 0, False)
                 else if length bs'' < tlen - 4 then (Inl (Overrun off), 0, False)
                 else (Inr \<lparr>ref_kind = from_byte k, ref_value = take (tlen - 4) bs'',
                            ref_at = Some (off + 4)\<rparr>, tlen, True)
             | _ \<Rightarrow> (Inl (Overrun off), 0, False))
          else if unat l < 2 then (Inl (InvalidLength k (unat l)), 0, False)
          else if length bs' < unat l - 2 then (Inl (Overrun off), 0, False)
          else (Inr \<lparr>ref_kind = from_byte k, ref_value = take (unat l - 2) bs',
                     ref_at = Some (off + 2)\<rparr>, unat l, True))"

definition is_nop_item :: "item \<Rightarrow> bool" where
  "is_nop_item x = (case x of Inl _ \<Rightarrow> False | Inr r \<Rightarrow> ref_kind r = Nop)"

text \<open>The iterator after an item that takes \<open>n\<close> bytes.\<close>

definition iter_after :: "options_iter \<Rightarrow> item \<Rightarrow> usize \<Rightarrow> bool \<Rightarrow> options_iter" where
  "iter_after it x n cont =
     (case x of
        Inl _ \<Rightarrow> it\<lparr>it_done := True\<rparr>
      | Inr r \<Rightarrow>
          it\<lparr>it_pos := it_pos it + n, it_done := (it_done it \<or> \<not> cont),
             it_current_nop_run := (if ref_kind r = Nop then it_current_nop_run it + 1 else 0),
             it_max_nop_run := (if ref_kind r = Nop
               then max (it_max_nop_run it) (it_current_nop_run it + 1) else it_max_nop_run it)\<rparr>)"

lemma options_next_end: "iter_rest it = [] \<Longrightarrow> options_next it = Ok (None, it)"
  by (auto simp: iter_rest_def options_next_def split: if_splits)

lemma from_byte_single [simp]: "from_byte kind_EOL = Eol" "from_byte kind_NOP = Nop"
  by (simp_all add: from_byte_named)

lemma kind_NOP_neq_EOL [simp]: "kind_NOP \<noteq> kind_EOL"
  by (simp add: kind_defs)

text \<open>Reads at an offset are reads of the suffix that starts there.\<close>

lemma suffix_reads:
  assumes "drop i xs = ys"
  shows "j < length ys \<Longrightarrow> xs ! (i + j) = ys ! j"
    and "drop (i + j) xs = drop j ys"
    and "ys \<noteq> [] \<Longrightarrow> length xs = i + length ys"
proof -
  show "xs ! (i + j) = ys ! j" if "j < length ys"
    using assms that by (auto simp: nth_drop)
  show "drop (i + j) xs = drop j ys" using assms by (auto simp: add.commute)
  show "length xs = i + length ys" if "ys \<noteq> []" using assms that by (auto simp: not_le)
qed

lemma options_next_step:
  assumes "iter_rest it \<noteq> []"
  shows "options_next it =
    (case first_option (it_pos it) (iter_rest it) of (x, n, cont) \<Rightarrow> Ok (Some x, iter_after it x n cont))"
proof -
  obtain k bs where active: "it_done it = False" and kbs: "drop (it_pos it) (it_bytes it) = k # bs"
    using assms by (auto simp: iter_rest_def neq_Nil_conv split: if_splits)
  have rest: "iter_rest it = k # bs" using active kbs by (simp add: iter_rest_def)
  have len: "length (it_bytes it) = it_pos it + Suc (length bs)"
    using suffix_reads(3) [OF kbs] by simp
  have nth: "it_bytes it ! it_pos it = k" "0 < length bs \<Longrightarrow> it_bytes it ! Suc (it_pos it) = bs ! 0"
    "1 < length bs \<Longrightarrow> it_bytes it ! Suc (Suc (it_pos it)) = bs ! 1"
    "j < Suc (length bs) \<Longrightarrow> it_bytes it ! (it_pos it + j) = (k # bs) ! j" for j
    using suffix_reads(1) [OF kbs, of 0] suffix_reads(1) [OF kbs, of 1]
      suffix_reads(1) [OF kbs, of 2] suffix_reads(1) [OF kbs, of j] by simp_all
  have drp: "drop (it_pos it + j) (it_bytes it) = drop j (k # bs)"
    "drop (Suc (Suc (it_pos it))) (it_bytes it) = drop 1 bs" for j
    using suffix_reads(2) [OF kbs, of j] suffix_reads(2) [OF kbs, of 2] by simp_all
  have same: "it\<lparr>it_done := False\<rparr> = it" using active by (cases it) simp
  note eval = options_next_def Let_def iter_after_def iter_fail_def value_slice_def active rest len nth drp same
    kind_EXTENDED_LENGTH_MARKER_def
  consider "k = kind_EOL" | "k = kind_NOP" | "k \<noteq> kind_EOL" "k \<noteq> kind_NOP" "bs = []"
    | l bs' where "k \<noteq> kind_EOL" "k \<noteq> kind_NOP" "bs = l # bs'" by (cases bs) blast+
  then show ?thesis
  proof cases
    case (4 l bs')
    note kl = 4
    consider "l \<noteq> 255" | "l = 255" "length bs' < 2" | b2 b3 bs'' where "l = 255" "bs' = b2 # b3 # bs''"
      by (metis list.exhaust length_Cons less_2_cases_iff list.size(3) less_Suc_eq numeral_2_eq_2 zero_less_Suc Suc_less_eq)
    then show ?thesis
    proof cases
      case 1
      with kl show ?thesis
        by (cases "unat l < 2"; cases "length bs' < unat l - 2") (auto simp: eval from_byte_named)
    next
      case 2
      with kl show ?thesis by (auto simp: eval split: list.split)
    next
      case 3
      with kl show ?thesis
        by (cases "unat (u16_from_be_bytes b2 b3) < 255";
            cases "length bs'' < unat (u16_from_be_bytes b2 b3) - 4") (auto simp: eval from_byte_named)
    qed
  qed (simp_all add: eval)
qed

section \<open>Draining the iterator\<close>

lemma first_option_Inr:
  assumes "first_option off bs = (Inr r, n, cont)"
  shows "0 < n" "n \<le> length bs" "cont \<longleftrightarrow> ref_kind r \<noteq> Eol"
  using assms
  by (cases bs; auto simp: Let_def from_byte_named split: if_splits list.splits)+

lemma first_option_Inl:
  assumes "first_option off bs = (Inl e, n, cont)"
  shows "\<not> cont"
  using assms by (cases bs) (auto simp: Let_def split: if_splits list.splits)

lemma first_option_Inl_stops [simp]: "first_option off bs \<noteq> (Inl e, n, True)"
  using first_option_Inl by blast

lemma first_option_progress: "first_option off bs = (x, n, True) \<Longrightarrow> 0 < n"
  using first_option_Inl first_option_Inr(1) by (cases x) blast+

lemma iter_rest_after:
  assumes "first_option (it_pos it) (iter_rest it) = (x, n, cont)" and "iter_rest it \<noteq> []"
  shows "iter_rest (iter_after it x n cont) = (if cont then drop n (iter_rest it) else [])"
proof (cases x)
  case (Inl e)
  then show ?thesis
    using assms first_option_Inl [of "it_pos it" "iter_rest it" e n cont] by (simp add: iter_after_def iter_rest_def)
next
  case (Inr r)
  then show ?thesis using assms by (auto simp: iter_after_def iter_rest_def add.commute split: if_splits)
qed

lemma options_next_decreases:
  assumes "options_next it = Ok (Some x, it')"
  shows "length (iter_rest it') < length (iter_rest it)"
proof -
  have ne: "iter_rest it \<noteq> []" using assms by (auto simp: options_next_end)
  obtain y n cont where f: "first_option (it_pos it) (iter_rest it) = (y, n, cont)" by (metis prod_cases3)
  with ne assms have "x = y" "it' = iter_after it y n cont" by (auto simp: options_next_step)
  moreover have "cont \<Longrightarrow> 0 < n" using f first_option_progress by simp
  ultimately show ?thesis using iter_rest_after [OF f ne] ne by auto
qed

lemma options_next_no_panic [panic_free, simp]: "options_next it \<noteq> Panic"
  by (cases "iter_rest it = []") (auto simp: options_next_end options_next_step split: prod.split)

text \<open>\<open>for item in iter\<close>: all items and the exhausted iterator.\<close>

function options_items :: "options_iter \<Rightarrow> (item list \<times> options_iter, 'e) res" where
  "options_items it =
     and_then (options_next it) (\<lambda>(x, it').
       case x of
         None \<Rightarrow> Ok ([], it')
       | Some y \<Rightarrow> and_then (options_items it') (\<lambda>(ys, it''). Ok (y # ys, it'')))"
  by pat_completeness auto
termination
  by (relation "measure (\<lambda>it. length (iter_rest it))") (auto simp: options_next_decreases)

declare options_items.simps [simp del]

section \<open>The reference parser\<close>

function parse_spec :: "usize \<Rightarrow> bytes \<Rightarrow> item list" where
  "parse_spec off bs =
     (if bs = [] then []
      else case first_option off bs of
        (x, n, cont) \<Rightarrow> x # (if cont then parse_spec (off + n) (drop n bs) else []))"
  by pat_completeness auto
termination
  by (relation "measure (\<lambda>(off, bs). length bs)") (auto dest: first_option_progress [OF sym])

declare parse_spec.simps [simp del]

text \<open>The longest run of NOPs in a list of items, with a run of \<open>cur\<close> already under way.\<close>

fun nop_run_from :: "nat \<Rightarrow> item list \<Rightarrow> nat" where
  "nop_run_from cur [] = 0"
| "nop_run_from cur (x # xs) =
     (if is_nop_item x then max (cur + 1) (nop_run_from (cur + 1) xs) else nop_run_from 0 xs)"

lemma options_items_parse:
  "\<exists>it'. (options_items it :: (item list \<times> options_iter, 'e) res) = Ok (parse_spec (it_pos it) (iter_rest it), it')
     \<and> it_max_nop_run it' =
         max (it_max_nop_run it) (nop_run_from (it_current_nop_run it) (parse_spec (it_pos it) (iter_rest it)))"
proof (induction "length (iter_rest it)" arbitrary: it rule: less_induct)
  case less
  show ?case
  proof (cases "iter_rest it = []")
    case True
    then show ?thesis by (subst options_items.simps) (simp add: options_next_end parse_spec.simps)
  next
    case False
    obtain x n cont where f: "first_option (it_pos it) (iter_rest it) = (x, n, cont)"
      by (metis prod_cases3)
    let ?it = "iter_after it x n cont"
    have step: "(options_next it :: (_, 'e) res) = Ok (Some x, ?it)" using False f by (simp add: options_next_step)
    have rest: "iter_rest ?it = (if cont then drop n (iter_rest it) else [])"
      by (rule iter_rest_after [OF f False])
    have pos: "cont \<Longrightarrow> it_pos ?it = it_pos it + n"
      using f by (cases x) (auto simp: iter_after_def)
    have spec: "parse_spec (it_pos it) (iter_rest it) = x # parse_spec (it_pos ?it) (iter_rest ?it)"
      using False f rest pos by (subst parse_spec.simps) (simp add: parse_spec.simps [of _ "[]"])
    have run: "is_nop_item x \<Longrightarrow> it_current_nop_run ?it = it_current_nop_run it + 1
        \<and> it_max_nop_run ?it = max (it_max_nop_run it) (it_current_nop_run it + 1)"
      "\<not> is_nop_item x \<Longrightarrow> it_max_nop_run ?it = it_max_nop_run it"
      "\<not> is_nop_item x \<Longrightarrow> cont \<Longrightarrow> it_current_nop_run ?it = 0"
      using f by (auto simp: is_nop_item_def iter_after_def split: sum.splits)
    have stop: "\<not> cont \<Longrightarrow> parse_spec (it_pos ?it) (iter_rest ?it) = []"
      using rest by (simp add: parse_spec.simps [of _ "[]"])
    from less [OF options_next_decreases [OF step]] obtain it' where
      "(options_items ?it :: (_, 'e) res) = Ok (parse_spec (it_pos ?it) (iter_rest ?it), it')"
      "it_max_nop_run it' = max (it_max_nop_run ?it)
         (nop_run_from (it_current_nop_run ?it) (parse_spec (it_pos ?it) (iter_rest ?it)))" by auto
    then show ?thesis
      using spec run stop by (cases cont) (auto simp: options_items.simps [of it] step)
  qed
qed

section \<open>What the items say\<close>

lemma parse_spec_Nil [simp]: "parse_spec off [] = []"
  by (simp add: parse_spec.simps)

text \<open>An item after which the iterator yields nothing: an error or EOL.\<close>

definition is_final_item :: "item \<Rightarrow> bool" where
  "is_final_item x = (case x of Inl _ \<Rightarrow> True | Inr r \<Rightarrow> ref_kind r = Eol)"

lemma first_option_final:
  "first_option off bs = (x, n, cont) \<Longrightarrow> is_final_item x \<longleftrightarrow> \<not> cont"
  using first_option_Inl [of off bs _ n cont] first_option_Inr(3) [of off bs _ n cont]
  by (cases x) (simp_all add: is_final_item_def)

lemma parse_spec_final:
  "x \<in> set (butlast (parse_spec off bs)) \<Longrightarrow> \<not> is_final_item x"
proof (induction off bs rule: parse_spec.induct)
  case (1 off bs)
  obtain y n cont where f: "first_option off bs = (y, n, cont)" by (metis prod_cases3)
  show ?case
  proof (cases "bs = []")
    case False
    then show ?thesis
      using 1 f first_option_final [OF f]
      by (auto simp: parse_spec.simps [of off bs] split: if_splits)
  qed (use 1 in simp)
qed

text \<open>A value lies inside the parsed bytes, right behind its own framing.\<close>

definition item_in_bounds :: "usize \<Rightarrow> bytes \<Rightarrow> item \<Rightarrow> bool" where
  "item_in_bounds off bs x =
     (case x of
        Inl (Overrun at) \<Rightarrow> off \<le> at \<and> at < off + length bs
      | Inl _ \<Rightarrow> True
      | Inr r \<Rightarrow>
          (case ref_at r of
             None \<Rightarrow> is_single_byte (ref_kind r) \<and> ref_value r = []
           | Some at \<Rightarrow> off \<le> at \<and> at - off + length (ref_value r) \<le> length bs
               \<and> \<not> is_single_byte (ref_kind r)
               \<and> ref_value r = take (length (ref_value r)) (drop (at - off) bs)))"

lemma is_single_byte_from_byte: "is_single_byte (from_byte b) \<longleftrightarrow> b = kind_EOL \<or> b = kind_NOP"
  by (simp add: is_single_byte_def framing_def)

lemma is_single_byte_simps [simp]: "is_single_byte Eol" "is_single_byte Nop"
  by (simp_all add: is_single_byte_def framing_def)

lemma first_option_bounds:
  assumes "first_option off bs = (x, n, cont)" and "bs \<noteq> []"
  shows "item_in_bounds off bs x"
proof -
  obtain k bs' where bs: "bs = k # bs'" using assms(2) by (cases bs) auto
  have sub: "drop (Suc (Suc off) - off) (a # b # r) = r" "drop (off + 4 - off) (a # b # c # d # r) = r"
    "drop (off + 2 - off) (a # b # r) = r"
    for a b c d :: byte and r by (simp_all add: Suc_diff_le)
  from assms(1) show ?thesis
    unfolding bs
    by (auto simp: item_in_bounds_def Let_def is_single_byte_from_byte sub split: if_splits list.splits)
qed

lemma item_in_bounds_mono:
  assumes "item_in_bounds (off + n) (drop n bs) x" and "n \<le> length bs"
  shows "item_in_bounds off bs x"
  using assms
  by (auto simp: item_in_bounds_def add.commute split: sum.splits parse_error.splits option.splits)

lemma parse_spec_bounds: "x \<in> set (parse_spec off bs) \<Longrightarrow> item_in_bounds off bs x"
proof (induction off bs rule: parse_spec.induct)
  case (1 off bs)
  obtain y n cont where f: "first_option off bs = (y, n, cont)" by (metis prod_cases3)
  have n: "cont \<Longrightarrow> n \<le> length bs" using f by (cases y) (auto dest: first_option_Inr(2))
  show ?case
  proof (cases "bs = []")
    case False
    from 1(2) False f consider "x = y" | "cont" "x \<in> set (parse_spec (off + n) (drop n bs))"
      by (auto simp: parse_spec.simps [of off bs] split: if_splits)
    then show ?thesis
    proof cases
      case 2
      with 1(1) [OF False f [symmetric] refl] have "item_in_bounds (off + n) (drop n bs) x" by simp
      with n 2 show ?thesis by (blast intro: item_in_bounds_mono)
    qed (use first_option_bounds [OF f False] in simp)
  qed (use 1 in simp)
qed

section \<open>Properties\<close>

text \<open>
  C10: The option iterator refines the reference parser: started on any bytes it ends without a panic, yields the items
  of the reference, in order, and its counter is the longest run of NOPs among them. What it yields lies in
  the bytes: each value is the slice its position names, single-byte options have none, an overrun names
  an offset inside the bytes, and only the last item is an error or an EOL.
\<close>

theorem options_iter_reference:
  "\<exists>it. (options_items (options_iter_new bs) :: (_, 'e) res) = Ok (parse_spec 0 bs, it)
     \<and> it_max_nop_run it = nop_run_from 0 (parse_spec 0 bs)
     \<and> list_all (item_in_bounds 0 bs) (parse_spec 0 bs)
     \<and> list_all (\<lambda>x. \<not> is_final_item x) (butlast (parse_spec 0 bs))"
  using options_items_parse [of "options_iter_new bs"] parse_spec_bounds [of _ 0 bs] parse_spec_final [of _ 0 bs]
  by (auto simp: options_iter_new_def iter_rest_def list_all_iff)

end
