(* ===== verification/Option_Serialize.thy ===== *)
theory Option_Serialize
  imports Option_Parse "HOL-Library.Product_Lexorder"
begin

text \<open>
  The option serializer (\<open>src/options/serialize.rs\<close>): \<open>OptionsBuilder\<close>, its validation, the
  canonical order, the patch of FRAG's Frag. Start field and the byte encoding. A finished body is
  proved to have the announced even length and to parse back to the canonical options.
\<close>

section \<open>The builder\<close>

definition OCS_PLACEHOLDER_LEN :: usize where "OCS_PLACEHOLDER_LEN = unat length_OCS"
definition DEFAULT_VALUE_LEN_MAX :: usize where "DEFAULT_VALUE_LEN_MAX = 252"
definition EXTENDED_VALUE_LEN_MAX :: usize where "EXTENDED_VALUE_LEN_MAX = u16_max - 4"
definition BODY_LEN_MAX :: usize where "BODY_LEN_MAX = u16_max - 1"
definition FRAG_VALUE_LENS :: "usize list" where
  "FRAG_VALUE_LENS = [unat length_FRAG_NON_TERMINAL - 2, unat length_FRAG_TERMINAL - 2]"

record options_builder =
  b_options :: "raw_option list"

definition builder_new :: options_builder where
  "builder_new = \<lparr>b_options = []\<rparr>"

definition builder_push :: "options_builder \<Rightarrow> option_kind \<Rightarrow> bytes \<Rightarrow> options_builder" where
  "builder_push b k v = b\<lparr>b_options := b_options b @ [\<lparr>opt_kind = k, opt_value = v\<rparr>]\<rparr>"

definition push_raw :: "options_builder \<Rightarrow> raw_option \<Rightarrow> options_builder" where
  "push_raw b opt = b\<lparr>b_options := b_options b @ [opt]\<rparr>"

definition extend_raw :: "options_builder \<Rightarrow> raw_option list \<Rightarrow> options_builder" where
  "extend_raw b opts = b\<lparr>b_options := b_options b @ opts\<rparr>"

section \<open>Validation\<close>

definition is_out_of_scope_assigned_safe_kind :: "byte \<Rightarrow> bool" where
  "is_out_of_scope_assigned_safe_kind k \<longleftrightarrow>
     k = kind_TIME \<or> k = kind_AUTH \<or> k = kind_EXP
     \<or> (kind_SAFE_RESERVED_MIN \<le> k \<and> k \<le> kind_SAFE_RESERVED_MAX)"

definition fixed_value_lens :: "byte \<Rightarrow> usize list" where
  "fixed_value_lens k =
     (if k = kind_APC then [unat length_APC - 2]
      else if k = kind_FRAG then FRAG_VALUE_LENS
      else if k = kind_MDS then [unat length_MDS - 2]
      else if k = kind_MRDS then [unat length_MRDS - 2]
      else if k = kind_REQ then [unat length_REQ - 2]
      else if k = kind_RES then [unat length_RES - 2]
      else [])"

definition validate_fixed_value_len :: "byte \<Rightarrow> usize \<Rightarrow> (unit, serialize_error) res" where
  "validate_fixed_value_len k n =
     (let expected = fixed_value_lens k in
      if expected = [] \<or> n \<in> set expected then Ok () else Err (InvalidFixedValueLength k n))"

definition validate_option :: "raw_option \<Rightarrow> (unit, serialize_error) res" where
  "validate_option opt =
     (let k = to_byte (opt_kind opt) in
      if k = kind_EOL \<or> k = kind_NOP then Err (ReservedKind k)
      else if kind_UNSAFE_MIN \<le> k then Err (UnsafeKind k)
      else if is_out_of_scope_assigned_safe_kind k then Err (UnsupportedAssignedKind k)
      else if length (opt_value opt) > EXTENDED_VALUE_LEN_MAX
        then Err (ValueTooLong k (length (opt_value opt)) EXTENDED_VALUE_LEN_MAX)
      else validate_fixed_value_len k (length (opt_value opt)))"

text \<open>The loop of \<open>validated_options\<close>, with the flag \<open>seen_frag\<close>.\<close>

fun validate_loop :: "bool \<Rightarrow> raw_option list \<Rightarrow> (unit, serialize_error) res" where
  "validate_loop seen_frag [] = Ok ()"
| "validate_loop seen_frag (opt # opts) =
     and_then (validate_option opt) (\<lambda>_.
     if to_byte (opt_kind opt) = kind_FRAG
     then (if seen_frag then Err SerializeDuplicateFrag else validate_loop True opts)
     else validate_loop seen_frag opts)"

definition validated_options :: "options_builder \<Rightarrow> (raw_option list, serialize_error) res" where
  "validated_options b = and_then (validate_loop False (b_options b)) (\<lambda>_. Ok (b_options b))"

section \<open>Encoding\<close>

definition canonical_rank :: "byte \<Rightarrow> u16 \<times> byte" where
  "canonical_rank k =
     (if k = kind_FRAG then (0, k)
      else if k = kind_APC then (1, k)
      else if k = kind_MDS then (2, k)
      else if k = kind_MRDS then (3, k)
      else if k = kind_REQ then (4, k)
      else if k = kind_RES then (5, k)
      else (1000 + ucast k, k))"

definition encoded_len :: "usize \<Rightarrow> usize" where
  "encoded_len n = (if n \<le> DEFAULT_VALUE_LEN_MAX then n + 2 else n + 4)"

definition checked_body_add :: "usize \<Rightarrow> usize \<Rightarrow> (usize, serialize_error) res" where
  "checked_body_add current add =
     and_then (ok_or (BodyTooLong usize_max BODY_LEN_MAX) (checked_add current add)) (\<lambda>len.
     if len > BODY_LEN_MAX then Err (BodyTooLong len BODY_LEN_MAX) else Ok len)"

text \<open>The loop of \<open>serialized_body_len\<close>, from a running length.\<close>

fun body_len_loop :: "usize \<Rightarrow> raw_option list \<Rightarrow> (usize, serialize_error) res" where
  "body_len_loop len [] = Ok len"
| "body_len_loop len (opt # opts) =
     and_then (if len mod 2 = 1 then checked_body_add len 1 else Ok len) (\<lambda>len.
     and_then (checked_body_add len (encoded_len (length (opt_value opt)))) (\<lambda>len.
     body_len_loop len opts))"

definition serialized_body_len :: "raw_option list \<Rightarrow> (usize, serialize_error) res" where
  "serialized_body_len opts =
     and_then (body_len_loop OCS_PLACEHOLDER_LEN opts) (\<lambda>len.
     and_then (checked_body_add len 1) (\<lambda>len.
     if len mod 2 = 1 then checked_body_add len 1 else Ok len))"

text \<open>The loop of \<open>patch_frag_start\<close> over the options.\<close>

fun patch_loop :: "u16 \<Rightarrow> raw_option list \<Rightarrow> (raw_option list, serialize_error) res" where
  "patch_loop start [] = Ok []"
| "patch_loop start (opt # opts) =
     and_then
       (if to_byte (opt_kind opt) = kind_FRAG
        then and_then (put_slice (opt_value opt) 0 (u16_to_be_bytes start)) (\<lambda>v. Ok (opt\<lparr>opt_value := v\<rparr>))
        else Ok opt) (\<lambda>opt.
     and_then (patch_loop start opts) (\<lambda>opts. Ok (opt # opts)))"

definition patch_frag_start :: "raw_option list \<Rightarrow> usize \<Rightarrow> (raw_option list, serialize_error) res" where
  "patch_frag_start opts body_len =
     (let start = unat length_UDP_HEADER + body_len in
      and_then (ok_or (FragmentStartTooLarge start u16_max) (u16_try_from start)) (\<lambda>start.
      patch_loop start opts))"

definition encode_option :: "bytes \<Rightarrow> raw_option \<Rightarrow> (bytes, serialize_error) res" where
  "encode_option out opt =
     (let k = to_byte (opt_kind opt); n = length (opt_value opt); out = out @ [k] in
      if n \<le> DEFAULT_VALUE_LEN_MAX then Ok (out @ [word_of_nat (n + 2)] @ opt_value opt)
      else
        let tlen = n + 4 in
        if tlen > u16_max then Err (ValueTooLong k n EXTENDED_VALUE_LEN_MAX)
        else Ok (out @ [kind_EXTENDED_LENGTH_MARKER] @ u16_to_be_bytes (word_of_nat tlen) @ opt_value opt))"

fun encode_loop :: "bytes \<Rightarrow> raw_option list \<Rightarrow> (bytes, serialize_error) res" where
  "encode_loop out [] = Ok out"
| "encode_loop out (opt # opts) =
     and_then (encode_option (if length out mod 2 = 1 then out @ [kind_NOP] else out) opt) (\<lambda>out.
     encode_loop out opts)"

definition sort_canonical :: "raw_option list \<Rightarrow> raw_option list" where
  "sort_canonical opts = sort_key (\<lambda>opt. canonical_rank (to_byte (opt_kind opt))) opts"

definition builder_finish :: "options_builder \<Rightarrow> (bytes, serialize_error) res" where
  "builder_finish b =
     and_then (validated_options b) (\<lambda>opts.
     let opts = sort_canonical opts in
     and_then (serialized_body_len opts) (\<lambda>body_len.
     and_then (patch_frag_start opts body_len) (\<lambda>opts.
     and_then (encode_loop [0, 0] opts) (\<lambda>out.
     let out = out @ [kind_EOL];
         out = (if length out mod 2 = 1 then out @ [0] else out) in
     and_then (assert_that (length out = body_len)) (\<lambda>_.
     Ok out)))))"

section \<open>The body of a list of options\<close>

text \<open>The framed bytes of one option, and of a list of options with a NOP before every option that
  would start at an odd offset.\<close>

definition option_bytes :: "raw_option \<Rightarrow> bytes" where
  "option_bytes opt =
     (let n = length (opt_value opt) in
      [to_byte (opt_kind opt)]
      @ (if n \<le> 252 then [word_of_nat (n + 2)] else [255] @ u16_to_be_bytes (word_of_nat (n + 4)))
      @ opt_value opt)"

fun option_stream :: "bool \<Rightarrow> raw_option list \<Rightarrow> bytes" where
  "option_stream p [] = []"
| "option_stream p (opt # opts) =
     (if p then [kind_NOP] else []) @ option_bytes opt
     @ option_stream (odd (length (option_bytes opt))) opts"

definition canonical_body :: "raw_option list \<Rightarrow> bytes" where
  "canonical_body opts =
     (let s = option_stream False opts in [0, 0] @ s @ [kind_EOL] @ (if even (length s) then [0] else []))"

definition patched :: "u16 \<Rightarrow> raw_option \<Rightarrow> raw_option" where
  "patched start opt =
     (if to_byte (opt_kind opt) = kind_FRAG
      then opt\<lparr>opt_value := u16_to_be_bytes start @ drop 2 (opt_value opt)\<rparr> else opt)"

lemmas serialize_limits = OCS_PLACEHOLDER_LEN_def DEFAULT_VALUE_LEN_MAX_def EXTENDED_VALUE_LEN_MAX_def
  BODY_LEN_MAX_def u16_max_def

lemma length_option_bytes [simp]: "length (option_bytes opt) = encoded_len (length (opt_value opt))"
  by (simp add: option_bytes_def encoded_len_def Let_def serialize_limits)

lemma encode_option_Ok:
  "length (opt_value opt) \<le> EXTENDED_VALUE_LEN_MAX \<Longrightarrow> encode_option out opt = Ok (out @ option_bytes opt)"
  by (simp add: encode_option_def option_bytes_def Let_def serialize_limits kind_EXTENDED_LENGTH_MARKER_def)

lemma mod_2_odd: "n mod 2 = 1 \<longleftrightarrow> odd n" "n mod 2 = Suc 0 \<longleftrightarrow> odd n" for n :: nat
  by (simp_all add: odd_iff_mod_2_eq_one)

lemma encode_loop_Ok:
  "\<forall>opt \<in> set opts. length (opt_value opt) \<le> EXTENDED_VALUE_LEN_MAX \<Longrightarrow>
     encode_loop out opts = Ok (out @ option_stream (odd (length out)) opts)"
  by (induction opts arbitrary: out) (auto simp: encode_option_Ok mod_2_odd)

lemma checked_body_add_Ok_iff: "checked_body_add a b = Ok c \<longleftrightarrow> c = a + b \<and> a + b \<le> BODY_LEN_MAX"
proof -
  have "BODY_LEN_MAX \<le> usize_max" by (simp add: serialize_limits usize_max_def)
  then show ?thesis
    by (auto simp: checked_body_add_def checked_add_def)
qed

lemma checked_body_add_no_panic [panic_free]: "checked_body_add a b \<noteq> Panic"
  by (simp add: checked_body_add_def and_then_eq_Panic)

lemma body_len_loop_Ok_iff:
  "len \<le> BODY_LEN_MAX \<Longrightarrow>
   body_len_loop len opts = Ok n \<longleftrightarrow>
     n = len + length (option_stream (odd len) opts) \<and> n \<le> BODY_LEN_MAX"
proof (induction opts arbitrary: len)
  case (Cons opt opts)
  let ?p = "len + of_bool (odd len)" and ?e = "encoded_len (length (opt_value opt))"
  have par: "odd (?p + ?e) = odd ?e" by simp
  have "body_len_loop len (opt # opts) = Ok n \<longleftrightarrow>
      ?p + ?e \<le> BODY_LEN_MAX \<and> body_len_loop (?p + ?e) opts = Ok n"
    by (auto simp: and_then_eq_Ok checked_body_add_Ok_iff mod_2_odd)
  also have "\<dots> \<longleftrightarrow> n = ?p + ?e + length (option_stream (odd (?p + ?e)) opts) \<and> n \<le> BODY_LEN_MAX"
    using Cons.IH [of "?p + ?e"] by auto
  finally show ?case unfolding par by auto
qed auto

lemma body_len_loop_no_panic [panic_free]: "body_len_loop len opts \<noteq> Panic"
  by (induction opts arbitrary: len) (auto simp: and_then_eq_Panic checked_body_add_no_panic)

lemma even_length_canonical_body: "even (length (canonical_body opts))"
  by (simp add: canonical_body_def Let_def)

lemma serialized_body_len_Ok_iff:
  "serialized_body_len opts = Ok n \<longleftrightarrow> n = length (canonical_body opts) \<and> n \<le> BODY_LEN_MAX"
proof -
  let ?m = "2 + length (option_stream False opts)"
  have "serialized_body_len opts = Ok n \<longleftrightarrow>
      ?m + 1 \<le> BODY_LEN_MAX \<and> (if (?m + 1) mod 2 = 1 then n = ?m + 2 \<and> n \<le> BODY_LEN_MAX else n = ?m + 1)"
    by (auto simp: serialized_body_len_def and_then_eq_Ok body_len_loop_Ok_iff checked_body_add_Ok_iff
        OCS_PLACEHOLDER_LEN_def BODY_LEN_MAX_def u16_max_def split: if_splits)
  also have "\<dots> \<longleftrightarrow> n = length (canonical_body opts) \<and> n \<le> BODY_LEN_MAX"
    by (auto simp: canonical_body_def Let_def even_iff_mod_2_eq_zero mod_Suc split: if_splits)
  finally show ?thesis .
qed

lemma serialized_body_len_no_panic [panic_free]: "serialized_body_len opts \<noteq> Panic"
  by (auto simp: serialized_body_len_def and_then_eq_Panic body_len_loop_no_panic
      checked_body_add_no_panic split: if_splits)

section \<open>Validation\<close>

definition valid_option :: "raw_option \<Rightarrow> bool" where
  "valid_option opt \<longleftrightarrow>
     (let k = to_byte (opt_kind opt); n = length (opt_value opt) in
      k \<noteq> kind_EOL \<and> k \<noteq> kind_NOP \<and> unat k < 192 \<and> \<not> is_out_of_scope_assigned_safe_kind k
      \<and> n \<le> EXTENDED_VALUE_LEN_MAX \<and> (fixed_value_lens k = [] \<or> n \<in> set (fixed_value_lens k)))"

lemma validate_option_Ok_iff: "validate_option opt = Ok () \<longleftrightarrow> valid_option opt"
  by (auto simp: validate_option_def valid_option_def validate_fixed_value_len_def Let_def
      kind_UNSAFE_MIN_def word_le_nat_alt)

lemma validate_option_no_panic [panic_free]: "validate_option opt \<noteq> Panic"
  by (auto simp: validate_option_def validate_fixed_value_len_def Let_def)

definition frag_count :: "raw_option list \<Rightarrow> nat" where
  "frag_count opts = length (filter (\<lambda>opt. to_byte (opt_kind opt) = kind_FRAG) opts)"

lemma validate_loop_Ok_iff:
  "validate_loop seen opts = Ok () \<longleftrightarrow>
     (\<forall>opt \<in> set opts. valid_option opt) \<and> (if seen then frag_count opts = 0 else frag_count opts \<le> 1)"
  by (induction seen opts rule: validate_loop.induct)
    (auto simp: and_then_eq_Ok validate_option_Ok_iff frag_count_def split: if_splits)

lemma validate_loop_no_panic [panic_free]: "validate_loop seen opts \<noteq> Panic"
  by (induction seen opts rule: validate_loop.induct) (auto simp: and_then_eq_Panic validate_option_no_panic)

text \<open>What the builder accepts: valid options, at most one of them FRAG.\<close>

definition valid_options :: "raw_option list \<Rightarrow> bool" where
  "valid_options opts \<longleftrightarrow> (\<forall>opt \<in> set opts. valid_option opt) \<and> frag_count opts \<le> 1"

lemma validated_options_Ok_iff:
  "validated_options b = Ok opts \<longleftrightarrow> opts = b_options b \<and> valid_options opts"
  by (auto simp: validated_options_def and_then_eq_Ok validate_loop_Ok_iff valid_options_def split: if_splits)

section \<open>The finished body\<close>

lemma fixed_value_lens_frag: "fixed_value_lens kind_FRAG = [8, 10]"
  by (simp add: fixed_value_lens_def kind_defs FRAG_VALUE_LENS_def length_defs)

lemma valid_frag_length:
  "valid_option opt \<Longrightarrow> to_byte (opt_kind opt) = kind_FRAG \<Longrightarrow> length (opt_value opt) \<in> {8, 10}"
  by (auto simp: valid_option_def Let_def fixed_value_lens_frag)

lemma length_patched [simp]:
  "valid_option opt \<Longrightarrow> length (opt_value (patched start opt)) = length (opt_value opt)"
  by (auto simp: patched_def dest: valid_frag_length)

lemma opt_kind_patched [simp]: "opt_kind (patched start opt) = opt_kind opt"
  by (simp add: patched_def)

lemma valid_patched [simp]: "valid_option opt \<Longrightarrow> valid_option (patched start opt)"
  by (simp add: valid_option_def [of "patched start opt"]) (simp add: valid_option_def)

lemma patch_loop_Ok:
  "\<forall>opt \<in> set opts. valid_option opt \<Longrightarrow> patch_loop start opts = Ok (map (patched start) opts)"
  by (induction opts) (auto simp: patched_def numeral_2_eq_2 dest!: valid_frag_length)

lemma length_option_stream_patched:
  "\<forall>opt \<in> set opts. valid_option opt \<Longrightarrow>
     length (option_stream p (map (patched start) opts)) = length (option_stream p opts)"
  by (induction opts arbitrary: p) auto

lemma length_canonical_body_patched:
  "\<forall>opt \<in> set opts. valid_option opt \<Longrightarrow>
     length (canonical_body (map (patched start) opts)) = length (canonical_body opts)"
  by (simp add: canonical_body_def Let_def length_option_stream_patched)

lemma set_sort_canonical [simp]: "set (sort_canonical opts) = set opts"
  by (simp add: sort_canonical_def)

lemma valid_option_length: "valid_option opt \<Longrightarrow> length (opt_value opt) \<le> EXTENDED_VALUE_LEN_MAX"
  by (simp add: valid_option_def Let_def)

text \<open>The options as they are written: sorted, with FRAG's start field pointing past the body.\<close>

definition written_options :: "raw_option list \<Rightarrow> raw_option list" where
  "written_options opts =
     (let s = sort_canonical opts in map (patched (word_of_nat (8 + length (canonical_body s)))) s)"

lemma finish_tail_Ok:
  assumes "\<forall>opt \<in> set opts. valid_option opt" and "8 + length (canonical_body opts) \<le> u16_max"
  defines "start \<equiv> word_of_nat (8 + length (canonical_body opts))"
  shows "and_then (encode_loop [0, 0] (map (patched start) opts)) (\<lambda>out.
     let out = out @ [kind_EOL]; out = (if length out mod 2 = 1 then out @ [0] else out) in
     and_then (assert_that (length out = length (canonical_body opts))) (\<lambda>_. Ok out))
   = Ok (canonical_body (map (patched start) opts))"
proof -
  let ?ps = "map (patched start) opts"
  have "encode_loop [0, 0] ?ps = Ok ([0, 0] @ option_stream False ?ps)"
    using assms(1) by (subst encode_loop_Ok) (auto simp: valid_option_length)
  moreover have "length (canonical_body opts) = length (canonical_body ?ps)"
    using assms(1) by (simp add: length_canonical_body_patched)
  ultimately show ?thesis
    by (auto simp: canonical_body_def [of ?ps] Let_def mod_2_odd)
qed

lemma builder_finish_Ok_iff:
  "builder_finish b = Ok body \<longleftrightarrow>
     valid_options (b_options b)
     \<and> 8 + length (canonical_body (sort_canonical (b_options b))) \<le> u16_max
     \<and> body = canonical_body (written_options (b_options b))"
proof -
  let ?s = "sort_canonical (b_options b)"
  let ?n = "length (canonical_body ?s)"
  show ?thesis
  proof (cases "valid_options (b_options b) \<and> 8 + ?n \<le> u16_max")
    case True
    then have v: "\<forall>opt \<in> set ?s. valid_option opt" by (simp add: valid_options_def)
    have "validated_options b = Ok (b_options b)" "serialized_body_len ?s = Ok ?n"
      using True by (auto simp: validated_options_Ok_iff serialized_body_len_Ok_iff BODY_LEN_MAX_def)
    moreover have "patch_frag_start ?s ?n = Ok (map (patched (word_of_nat (8 + ?n))) ?s)"
      using True patch_loop_Ok [OF v] by (simp add: patch_frag_start_def u16_try_from_def)
    ultimately show ?thesis
      using True finish_tail_Ok [OF v] by (auto simp: builder_finish_def written_options_def Let_def)
  next
    case False
    have "builder_finish b \<noteq> Ok body"
    proof
      assume "builder_finish b = Ok body"
      then obtain n opts where "valid_options (b_options b)" "serialized_body_len ?s = Ok n"
        "patch_frag_start ?s n = Ok opts"
        by (auto simp: builder_finish_def and_then_eq_Ok validated_options_Ok_iff Let_def)
      then have "8 + ?n \<le> u16_max"
        by (auto simp: serialized_body_len_Ok_iff patch_frag_start_def and_then_eq_Ok u16_try_from_def Let_def split: if_splits)
      with False \<open>valid_options (b_options b)\<close> show False by simp
    qed
    with False show ?thesis by auto
  qed
qed

lemma builder_finish_no_panic [panic_free]: "builder_finish b \<noteq> Panic"
proof
  assume panic: "builder_finish b = Panic"
  let ?s = "sort_canonical (b_options b)"
  let ?n = "length (canonical_body ?s)"
  have "validated_options b \<noteq> Panic" by (simp add: validated_options_def and_then_eq_Panic validate_loop_no_panic)
  with panic have v: "valid_options (b_options b)" "\<forall>opt \<in> set ?s. valid_option opt"
    by (auto simp: builder_finish_def and_then_eq_Panic validated_options_Ok_iff valid_options_def)
  have "\<nexists>body. builder_finish b = Ok body" using panic by simp
  with v have "u16_max < 8 + ?n" by (auto simp: builder_finish_Ok_iff not_le)
  then have "patch_frag_start ?s ?n = Err (FragmentStartTooLarge (8 + ?n) u16_max)"
    by (simp add: patch_frag_start_def u16_try_from_def)
  with panic show False
    by (auto simp: builder_finish_def and_then_eq_Panic validated_options_Ok_iff validated_options_def
        validate_loop_no_panic serialized_body_len_no_panic serialized_body_len_Ok_iff Let_def and_then_eq_Ok)
qed

section \<open>Reading a body back\<close>

definition nop_item :: item where
  "nop_item = Inr \<lparr>ref_kind = Nop, ref_value = [], ref_at = None\<rparr>"

definition eol_item :: item where
  "eol_item = Inr \<lparr>ref_kind = Eol, ref_value = [], ref_at = None\<rparr>"

definition option_item :: "usize \<Rightarrow> raw_option \<Rightarrow> item" where
  "option_item off opt =
     Inr \<lparr>ref_kind = from_byte (to_byte (opt_kind opt)), ref_value = opt_value opt,
          ref_at = Some (off + (if length (opt_value opt) \<le> 252 then 2 else 4))\<rparr>"

fun stream_items :: "usize \<Rightarrow> bool \<Rightarrow> raw_option list \<Rightarrow> item list" where
  "stream_items off p [] = []"
| "stream_items off p (opt # opts) =
     (let off = off + of_bool p in
      (if p then [nop_item] else []) @ [option_item off opt]
      @ stream_items (off + length (option_bytes opt)) (odd (length (option_bytes opt))) opts)"

text \<open>Options that can be framed: neither EOL nor NOP, and a value that fits the Length field.\<close>

definition framed_option :: "raw_option \<Rightarrow> bool" where
  "framed_option opt \<longleftrightarrow>
     to_byte (opt_kind opt) \<noteq> kind_EOL \<and> to_byte (opt_kind opt) \<noteq> kind_NOP
     \<and> length (opt_value opt) \<le> EXTENDED_VALUE_LEN_MAX"

lemma valid_framed: "valid_option opt \<Longrightarrow> framed_option opt"
  by (simp add: valid_option_def framed_option_def Let_def)

lemma first_option_framed:
  assumes "framed_option opt"
  shows "first_option off (option_bytes opt @ rest) = (option_item off opt, length (option_bytes opt), True)"
proof (cases "length (opt_value opt) \<le> 252")
  case True
  then have u: "unat (word_of_nat (length (opt_value opt) + 2) :: byte) = length (opt_value opt) + 2"
    by (intro unat_of_nat_byte) simp
  moreover from u True have "word_of_nat (length (opt_value opt) + 2) \<noteq> (255 :: byte)"
    by (auto simp: word_unat_eq_iff simp del: of_nat_add)
  ultimately show ?thesis
    using assms True
    by (simp add: framed_option_def option_item_def option_bytes_def Let_def encoded_len_def
        DEFAULT_VALUE_LEN_MAX_def kind_EXTENDED_LENGTH_MARKER_def del: of_nat_add)
next
  case False
  let ?w = "word_of_nat (length (opt_value opt) + 4) :: u16"
  have u: "unat ?w = length (opt_value opt) + 4"
    using assms by (simp add: unat_of_nat_u16 framed_option_def EXTENDED_VALUE_LEN_MAX_def u16_max_def del: of_nat_add)
  with False assms show ?thesis
    by (simp add: framed_option_def option_item_def option_bytes_def Let_def encoded_len_def
        DEFAULT_VALUE_LEN_MAX_def kind_EXTENDED_LENGTH_MARKER_def u16_to_be_bytes_def del: of_nat_add)
qed

lemma option_bytes_neq_Nil [simp]: "option_bytes opt \<noteq> []"
  by (simp add: option_bytes_def Let_def)

lemma parse_spec_option:
  "framed_option opt \<Longrightarrow>
     parse_spec off (option_bytes opt @ rest) =
       option_item off opt # parse_spec (off + length (option_bytes opt)) rest"
  using option_bytes_neq_Nil [of opt] by (subst parse_spec.simps) (simp add: first_option_framed del: length_option_bytes)

lemma parse_spec_NOP: "parse_spec off (kind_NOP # rest) = nop_item # parse_spec (off + 1) rest"
  by (subst parse_spec.simps) (simp add: nop_item_def)

lemma parse_spec_EOL: "parse_spec off (kind_EOL # rest) = [eol_item]"
  by (subst parse_spec.simps) (simp add: eol_item_def)

lemma parse_spec_stream:
  "\<forall>opt \<in> set opts. framed_option opt \<Longrightarrow>
     parse_spec off (option_stream p opts @ rest) =
       stream_items off p opts @ parse_spec (off + length (option_stream p opts)) rest"
  by (induction opts arbitrary: off p)
    (auto simp: parse_spec_option parse_spec_NOP Let_def add.assoc simp del: length_option_bytes)

lemma parse_canonical_body:
  "\<forall>opt \<in> set opts. framed_option opt \<Longrightarrow>
     parse_spec 0 (drop 2 (canonical_body opts)) = stream_items 0 False opts @ [eol_item]"
  by (simp add: canonical_body_def Let_def parse_spec_stream parse_spec_EOL)

text \<open>The options among the items: everything but errors, NOP and EOL.\<close>

fun item_options :: "item list \<Rightarrow> raw_option list" where
  "item_options [] = []"
| "item_options (Inl e # xs) = item_options xs"
| "item_options (Inr r # xs) =
     (if is_single_byte (ref_kind r) then item_options xs else raw_from_ref r # item_options xs)"

lemma item_options_append [simp]: "item_options (xs @ ys) = item_options xs @ item_options ys"
  by (induction xs rule: item_options.induct) auto

definition canonical_option :: "raw_option \<Rightarrow> bool" where
  "canonical_option opt \<longleftrightarrow> canonical_kind (opt_kind opt)"

lemma item_options_stream:
  "\<forall>opt \<in> set opts. framed_option opt \<and> canonical_option opt \<Longrightarrow>
     item_options (stream_items off p opts) = opts"
  by (induction opts arbitrary: off p)
    (auto simp: Let_def option_item_def nop_item_def raw_from_ref_def canonical_option_def
      canonical_kind_def framed_option_def is_single_byte_def framing_def)

lemma item_options_eol [simp]: "item_options [eol_item] = []" "item_options [nop_item] = []"
  by (simp_all add: eol_item_def nop_item_def)

lemma stream_items_no_error: "x \<in> set (stream_items off p opts) \<Longrightarrow> \<exists>r. x = Inr r"
  by (induction opts arbitrary: off p) (auto simp: Let_def option_item_def nop_item_def split: if_splits)

lemma is_nop_item_simps [simp]:
  "is_nop_item nop_item" "\<not> is_nop_item eol_item" "framed_option opt \<Longrightarrow> \<not> is_nop_item (option_item off opt)"
  by (auto simp: is_nop_item_def nop_item_def eol_item_def option_item_def framed_option_def from_byte_named)

lemma nop_run_stream:
  "\<forall>opt \<in> set opts. framed_option opt \<Longrightarrow> nop_run_from 0 (stream_items off p opts @ [eol_item]) \<le> 1"
  by (induction opts arbitrary: off p) (auto simp: Let_def)

section \<open>Properties\<close>

text \<open>
  C22: Serializing never panics and succeeds exactly on valid options (none of them EOL, NOP, UNSAFE or reserved, fixed
  lengths respected, at most one FRAG) whose body fits a UDP datagram; the body is then the canonical
  encoding: options in canonical order, each at an even offset, the FRAG start patched, closed by EOL.
\<close>

theorem builder_finish_outcome:
  "builder_finish b \<noteq> Panic
   \<and> (builder_finish b = Ok body \<longleftrightarrow>
        valid_options (b_options b)
        \<and> 8 + length (canonical_body (sort_canonical (b_options b))) \<le> u16_max
        \<and> body = canonical_body (written_options (b_options b)))"
  using builder_finish_Ok_iff builder_finish_no_panic by blast

text \<open>
  C9: What the builder serializes parses back: given options none of which hides a named Kind in \<open>Other\<close>, the iterator
  reads the body (after the checksum) without an error, finds the written options in order and nothing else but
  single NOPs and the closing EOL, and the body has even length.
\<close>

theorem serialize_parse_roundtrip:
  assumes "builder_finish b = Ok body" and "list_all canonical_option (b_options b)"
  shows "\<exists>items it. (options_items (options_iter_new (drop 2 body)) :: (_, 'e) res) = Ok (items, it)
    \<and> item_options items = written_options (b_options b) \<and> list_all (\<lambda>x. \<exists>r. x = Inr r) items
    \<and> last items = eol_item \<and> it_max_nop_run it \<le> 1 \<and> even (length body)"
proof -
  let ?w = "written_options (b_options b)"
  have v: "valid_options (b_options b)" and body: "body = canonical_body ?w"
    using assms(1) by (simp_all add: builder_finish_Ok_iff)
  have c: "\<forall>opt \<in> set ?w. framed_option opt \<and> canonical_option opt"
    using v assms(2) by (auto simp: written_options_def Let_def valid_options_def list_all_iff canonical_option_def
        intro!: valid_framed)
  have p: "parse_spec 0 (drop 2 body) = stream_items 0 False ?w @ [eol_item]"
    unfolding body using c by (intro parse_canonical_body) blast
  obtain it where "(options_items (options_iter_new (drop 2 body)) :: (_, 'e) res) = Ok (parse_spec 0 (drop 2 body), it)"
    "it_max_nop_run it = nop_run_from 0 (parse_spec 0 (drop 2 body))"
    using options_items_parse [of "options_iter_new (drop 2 body)"] by (auto simp: options_iter_new_def iter_rest_def)
  moreover have "nop_run_from 0 (parse_spec 0 (drop 2 body)) \<le> 1" unfolding p using c by (intro nop_run_stream) blast
  moreover have "item_options (parse_spec 0 (drop 2 body)) = ?w" unfolding p using item_options_stream [OF c] by simp
  moreover have "list_all (\<lambda>x. \<exists>r. x = Inr r) (parse_spec 0 (drop 2 body))"
    unfolding p using stream_items_no_error [of _ 0 False ?w] by (auto simp: list_all_iff eol_item_def)
  ultimately show ?thesis using p even_length_canonical_body body by auto
qed

theorem serialize_parse_roundtrip_witness:
  "\<exists>body items it. builder_finish (builder_push builder_new Mds [5, 220]) = Ok body
    \<and> (options_items (options_iter_new (drop 2 body)) :: (_, unit) res) = Ok (items, it)
    \<and> item_options items = [\<lparr>opt_kind = Mds, opt_value = [5, 220]\<rparr>]"
proof -
  let ?b = "builder_push builder_new Mds [5, 220]"
  have o: "b_options ?b = [\<lparr>opt_kind = Mds, opt_value = [5, 220]\<rparr>]" by (simp add: builder_push_def builder_new_def)
  have "valid_options (b_options ?b)"
    unfolding o by (simp add: valid_options_def valid_option_def frag_count_def kind_defs serialize_limits length_defs
        is_out_of_scope_assigned_safe_kind_def fixed_value_lens_def Let_def)
  moreover have "8 + length (canonical_body (sort_canonical (b_options ?b))) \<le> u16_max"
    unfolding o by (simp add: canonical_body_def sort_canonical_def encoded_len_def serialize_limits Let_def)
  ultimately have b: "builder_finish ?b = Ok (canonical_body (written_options (b_options ?b)))"
    by (simp add: builder_finish_Ok_iff)
  have "written_options (b_options ?b) = [\<lparr>opt_kind = Mds, opt_value = [5, 220]\<rparr>]"
    unfolding o by (simp add: written_options_def sort_canonical_def patched_def kind_defs Let_def)
  then show ?thesis
    using serialize_parse_roundtrip [OF b, where ?'e = unit] b o by (auto simp: canonical_option_def)
qed

end
