(* ===== verification/Typed_Options.thy ===== *)
theory Typed_Options
  imports Option_Serialize
begin

text \<open>
  The typed options of \<open>src/options/typed.rs\<close>: APC, MDS, MRDS, REQ, RES and FRAG, each with the
  \<open>decode\<close> and \<open>encode\<close> of the trait \<open>TypedOption\<close>. The trait's contract is the locale
  \<open>typed_option\<close>, interpreted for all six types. The CRC32C of APC comes from another crate and is
  the parameter \<open>crc\<close> of \<open>apc_compute\<close>.
\<close>

section \<open>Helpers\<close>

definition TLV_HEADER_LEN :: usize where "TLV_HEADER_LEN = 2"
definition APC_VALUE_LEN :: usize where "APC_VALUE_LEN = unat length_APC - TLV_HEADER_LEN"
definition FRAG_NON_TERMINAL_VALUE_LEN :: usize where
  "FRAG_NON_TERMINAL_VALUE_LEN = unat length_FRAG_NON_TERMINAL - TLV_HEADER_LEN"
definition FRAG_TERMINAL_VALUE_LEN :: usize where
  "FRAG_TERMINAL_VALUE_LEN = unat length_FRAG_TERMINAL - TLV_HEADER_LEN"
definition MDS_VALUE_LEN :: usize where "MDS_VALUE_LEN = unat length_MDS - TLV_HEADER_LEN"
definition MRDS_VALUE_LEN :: usize where "MRDS_VALUE_LEN = unat length_MRDS - TLV_HEADER_LEN"
definition REQ_VALUE_LEN :: usize where "REQ_VALUE_LEN = unat length_REQ - TLV_HEADER_LEN"
definition RES_VALUE_LEN :: usize where "RES_VALUE_LEN = unat length_RES - TLV_HEADER_LEN"

definition invalid_value_len :: "byte \<Rightarrow> usize \<Rightarrow> parse_error" where
  "invalid_value_len k n = InvalidLength k (n + TLV_HEADER_LEN)"

definition expect_value_len :: "bytes \<Rightarrow> byte \<Rightarrow> usize \<Rightarrow> (unit, parse_error) res" where
  "expect_value_len v k expected =
     (if length v = expected then Ok () else Err (invalid_value_len k (length v)))"

definition write_header :: "bytes \<Rightarrow> byte \<Rightarrow> byte \<Rightarrow> bytes" where
  "write_header out k tlen = out @ [k, tlen]"

definition read_u16 :: "bytes \<Rightarrow> usize \<Rightarrow> (u16, 'e) res" where
  "read_u16 v off =
     and_then (idx v off) (\<lambda>a. and_then (idx v (off + 1)) (\<lambda>b. Ok (u16_from_be_bytes a b)))"

definition read_u32 :: "bytes \<Rightarrow> usize \<Rightarrow> (u32, 'e) res" where
  "read_u32 v off =
     and_then (idx v off) (\<lambda>a. and_then (idx v (off + 1)) (\<lambda>b.
     and_then (idx v (off + 2)) (\<lambda>c. and_then (idx v (off + 3)) (\<lambda>d.
     Ok (u32_from_be_bytes a b c d)))))"

section \<open>The options\<close>

record apc =
  crc32c :: u32

definition apc_compute :: "(bytes \<Rightarrow> u32) \<Rightarrow> bytes \<Rightarrow> apc" where
  "apc_compute crc user_data = \<lparr>crc32c = crc user_data\<rparr>"

definition apc_decode :: "bytes \<Rightarrow> (apc, parse_error) res" where
  "apc_decode v =
     and_then (expect_value_len v kind_APC APC_VALUE_LEN) (\<lambda>_.
     and_then (read_u32 v 0) (\<lambda>c. Ok \<lparr>crc32c = c\<rparr>))"

definition apc_encode :: "bytes \<Rightarrow> apc \<Rightarrow> bytes" where
  "apc_encode out a = write_header out kind_APC length_APC @ u32_to_be_bytes (crc32c a)"

record mds =
  max_datagram_size :: u16

definition mds_decode :: "bytes \<Rightarrow> (mds, parse_error) res" where
  "mds_decode v =
     and_then (expect_value_len v kind_MDS MDS_VALUE_LEN) (\<lambda>_.
     and_then (read_u16 v 0) (\<lambda>n. Ok \<lparr>max_datagram_size = n\<rparr>))"

definition mds_encode :: "bytes \<Rightarrow> mds \<Rightarrow> bytes" where
  "mds_encode out m = write_header out kind_MDS length_MDS @ u16_to_be_bytes (max_datagram_size m)"

record mrds =
  max_reassembled_size :: u16
  mrds_max_segments :: byte

definition mrds_decode :: "bytes \<Rightarrow> (mrds, parse_error) res" where
  "mrds_decode v =
     and_then (expect_value_len v kind_MRDS MRDS_VALUE_LEN) (\<lambda>_.
     and_then (read_u16 v 0) (\<lambda>n. and_then (idx v 2) (\<lambda>s.
     Ok \<lparr>max_reassembled_size = n, mrds_max_segments = s\<rparr>)))"

definition mrds_encode :: "bytes \<Rightarrow> mrds \<Rightarrow> bytes" where
  "mrds_encode out m =
     write_header out kind_MRDS length_MRDS @ u16_to_be_bytes (max_reassembled_size m)
     @ [mrds_max_segments m]"

text \<open>A \<open>[u8; 4]\<close> token and its \<open>try_into().expect(..)\<close>.\<close>

datatype token = Token byte byte byte byte

fun token_bytes :: "token \<Rightarrow> bytes" where
  "token_bytes (Token a b c d) = [a, b, c, d]"

fun token_from_slice :: "bytes \<Rightarrow> (token, 'e) res" where
  "token_from_slice [a, b, c, d] = Ok (Token a b c d)"
| "token_from_slice _ = Panic"

record req =
  req_token :: token

definition req_decode :: "bytes \<Rightarrow> (req, parse_error) res" where
  "req_decode v =
     and_then (expect_value_len v kind_REQ REQ_VALUE_LEN) (\<lambda>_.
     and_then (token_from_slice v) (\<lambda>t. Ok \<lparr>req_token = t\<rparr>))"

definition req_encode :: "bytes \<Rightarrow> req \<Rightarrow> bytes" where
  "req_encode out r = write_header out kind_REQ length_REQ @ token_bytes (req_token r)"

record resp =
  res_token :: token

definition res_decode :: "bytes \<Rightarrow> (resp, parse_error) res" where
  "res_decode v =
     and_then (expect_value_len v kind_RES RES_VALUE_LEN) (\<lambda>_.
     and_then (token_from_slice v) (\<lambda>t. Ok \<lparr>res_token = t\<rparr>))"

definition res_encode :: "bytes \<Rightarrow> resp \<Rightarrow> bytes" where
  "res_encode out r = write_header out kind_RES length_RES @ token_bytes (res_token r)"

record frag =
  frag_start :: u16
  identification :: u32
  frag_offset :: u16
  rdos :: "u16 option"

definition frag_decode :: "bytes \<Rightarrow> (frag, parse_error) res" where
  "frag_decode v =
     (if length v \<noteq> FRAG_NON_TERMINAL_VALUE_LEN \<and> length v \<noteq> FRAG_TERMINAL_VALUE_LEN
      then Err (invalid_value_len kind_FRAG (length v)) else
      and_then (read_u16 v 0) (\<lambda>s. and_then (read_u32 v 2) (\<lambda>i. and_then (read_u16 v 6) (\<lambda>off.
      and_then (if length v = FRAG_TERMINAL_VALUE_LEN
                then and_then (read_u16 v 8) (\<lambda>r. Ok (Some r)) else Ok None) (\<lambda>r.
      Ok \<lparr>frag_start = s, identification = i, frag_offset = off, rdos = r\<rparr>)))))"

definition frag_encode :: "bytes \<Rightarrow> frag \<Rightarrow> bytes" where
  "frag_encode out f =
     write_header out kind_FRAG
       (if rdos f \<noteq> None then length_FRAG_TERMINAL else length_FRAG_NON_TERMINAL)
     @ u16_to_be_bytes (frag_start f) @ u32_to_be_bytes (identification f)
     @ u16_to_be_bytes (frag_offset f)
     @ (case rdos f of None \<Rightarrow> [] | Some r \<Rightarrow> u16_to_be_bytes r)"

section \<open>The contract of a typed option\<close>

locale typed_option =
  fixes KIND :: option_kind
    and encode :: "bytes \<Rightarrow> 't \<Rightarrow> bytes"
    and decode :: "bytes \<Rightarrow> ('t, parse_error) res"
    and val :: "'t \<Rightarrow> bytes"
  assumes kind_canonical: "canonical_kind KIND"
    and encode_val: "encode out t = out @ option_bytes \<lparr>opt_kind = KIND, opt_value = val t\<rparr>"
    and val_valid: "valid_option \<lparr>opt_kind = KIND, opt_value = val t\<rparr>"
    and decode_val: "decode (val t) = Ok t"
    and val_decode: "decode v = Ok t \<Longrightarrow> val t = v"
    and decode_bad: "\<not> length v \<in> set (fixed_value_lens (to_byte KIND)) \<Longrightarrow>
          decode v = Err (InvalidLength (to_byte KIND) (length v + 2))"
    and decode_good: "length v \<in> set (fixed_value_lens (to_byte KIND)) \<Longrightarrow> \<exists>t. decode v = Ok t"
begin

lemma decode_no_panic: "decode v \<noteq> Panic"
  using decode_bad [of v] decode_good [of v] by (cases "length v \<in> set (fixed_value_lens (to_byte KIND))") auto

lemma decode_Ok_iff: "decode v = Ok t \<longleftrightarrow> v = val t"
  using decode_val val_decode by blast

lemma parse_encoded:
  "parse_spec off (encode [] t @ rest) =
     Inr \<lparr>ref_kind = KIND, ref_value = val t, ref_at = Some (off + 2)\<rparr>
       # parse_spec (off + length (encode [] t)) rest"
proof -
  let ?o = "\<lparr>opt_kind = KIND, opt_value = val t\<rparr>"
  have "length (val t) \<in> set (fixed_value_lens (to_byte KIND))"
    using decode_bad [of "val t"] unfolding decode_val by blast
  then have "length (val t) \<le> 252"
    by (auto simp: fixed_value_lens_def FRAG_VALUE_LENS_def length_defs split: if_splits)
  moreover have "framed_option ?o" by (rule valid_framed [OF val_valid])
  ultimately show ?thesis
    using kind_canonical by (simp add: encode_val parse_spec_option option_item_def canonical_kind_def)
qed

lemma encode_inj: "encode [] s = encode [] t \<Longrightarrow> s = t"
proof -
  assume eq: "encode [] s = encode [] t"
  have "parse_spec 0 (encode [] s @ []) = parse_spec 0 (encode [] t @ [])" by (simp only: eq)
  then have "val s = val t" unfolding parse_encoded by simp
  then have "decode (val s) = decode (val t)" by (simp only:)
  then show "s = t" unfolding decode_val by simp
qed

end

section \<open>The six options meet the contract\<close>

lemmas value_lens =
  TLV_HEADER_LEN_def APC_VALUE_LEN_def FRAG_NON_TERMINAL_VALUE_LEN_def FRAG_TERMINAL_VALUE_LEN_def
  MDS_VALUE_LEN_def MRDS_VALUE_LEN_def REQ_VALUE_LEN_def RES_VALUE_LEN_def FRAG_VALUE_LENS_def

lemmas typed_codec =
  value_lens length_defs invalid_value_len_def expect_value_len_def write_header_def read_u16_def
  read_u32_def option_bytes_def Let_def

definition frag_wire_value :: "frag \<Rightarrow> bytes" where
  "frag_wire_value f = u16_to_be_bytes (frag_start f) @ u32_to_be_bytes (identification f)
     @ u16_to_be_bytes (frag_offset f) @ (case rdos f of None \<Rightarrow> [] | Some r \<Rightarrow> u16_to_be_bytes r)"

lemma fixed_value_lens_simps:
  "fixed_value_lens kind_APC = [4]" "fixed_value_lens kind_MDS = [2]" "fixed_value_lens kind_MRDS = [3]"
  "fixed_value_lens kind_REQ = [4]" "fixed_value_lens kind_RES = [4]"
  by (simp_all add: fixed_value_lens_def kind_defs length_defs)

lemma supported_kind_valid:
  assumes "k \<in> {kind_APC, kind_FRAG, kind_MDS, kind_MRDS, kind_REQ, kind_RES}"
    and "to_byte K = k" and "length v \<in> set (fixed_value_lens k)"
  shows "valid_option \<lparr>opt_kind = K, opt_value = v\<rparr>"
proof -
  have "length v \<le> EXTENDED_VALUE_LEN_MAX"
    using assms(3) by (auto simp: fixed_value_lens_def FRAG_VALUE_LENS_def length_defs EXTENDED_VALUE_LEN_MAX_def
        u16_max_def split: if_splits)
  with assms show ?thesis
    by (auto simp: valid_option_def Let_def is_out_of_scope_assigned_safe_kind_def kind_defs word_le_nat_alt)
qed

lemma length_4_cases: "length v = 4 \<longleftrightarrow> (\<exists>a b c d. v = [a, b, c, d])"
  by (auto simp: numeral_eq_Suc length_Suc_conv)

lemma length_3_cases: "length v = 3 \<longleftrightarrow> (\<exists>a b c. v = [a, b, c])"
  by (auto simp: numeral_eq_Suc length_Suc_conv)

lemma length_2_cases: "length v = 2 \<longleftrightarrow> (\<exists>a b. v = [a, b])"
  by (auto simp: numeral_eq_Suc length_Suc_conv)

lemma be_bytes_nth:
  "u16_to_be_bytes w ! 0 = ucast (drop_bit 8 w)" "u16_to_be_bytes w ! Suc 0 = ucast w"
  "u32_to_be_bytes v ! 0 = ucast (drop_bit 24 v)" "u32_to_be_bytes v ! Suc 0 = ucast (drop_bit 16 v)"
  "u32_to_be_bytes v ! Suc (Suc 0) = ucast (drop_bit 8 v)" "u32_to_be_bytes v ! 3 = ucast v"
  by (simp_all add: u16_to_be_bytes_def u32_to_be_bytes_def)

lemma length_token_bytes [simp]: "length (token_bytes t) = 4"
  by (cases t) simp

lemma token_from_bytes [simp]: "token_from_slice (token_bytes t) = Ok t"
  by (cases t) simp

lemma ex_token [simp]: "\<exists>x. [a, b, c, d] = token_bytes x"
  by (rule exI [of _ "Token a b c d"]) simp

lemma token_from_slice_Ok: "token_from_slice v = Ok t \<longleftrightarrow> v = token_bytes t"
  by (cases t; cases v rule: token_from_slice.cases) auto

interpretation apc_opt: typed_option Apc apc_encode apc_decode "\<lambda>a. u32_to_be_bytes (crc32c a)"
proof unfold_locales
  show "valid_option \<lparr>opt_kind = Apc, opt_value = (\<lambda>a. u32_to_be_bytes (crc32c a)) t\<rparr>" for t
    by (rule supported_kind_valid) (auto simp: fixed_value_lens_simps )
qed (auto simp: apc_encode_def apc_decode_def typed_codec fixed_value_lens_simps be_bytes_nth nth_append and_then_eq_Ok
     length_4_cases split: if_splits)

interpretation mds_opt: typed_option Mds mds_encode mds_decode "\<lambda>m. u16_to_be_bytes (max_datagram_size m)"
proof unfold_locales
  show "valid_option \<lparr>opt_kind = Mds, opt_value = (\<lambda>m. u16_to_be_bytes (max_datagram_size m)) t\<rparr>" for t
    by (rule supported_kind_valid) (auto simp: fixed_value_lens_simps )
qed (auto simp: mds_encode_def mds_decode_def typed_codec fixed_value_lens_simps be_bytes_nth nth_append and_then_eq_Ok
     length_2_cases split: if_splits)

interpretation mrds_opt: typed_option Mrds mrds_encode mrds_decode "\<lambda>m. u16_to_be_bytes (max_reassembled_size m) @ [mrds_max_segments m]"
proof unfold_locales
  show "valid_option \<lparr>opt_kind = Mrds, opt_value = (\<lambda>m. u16_to_be_bytes (max_reassembled_size m) @ [mrds_max_segments m]) t\<rparr>" for t
    by (rule supported_kind_valid) (auto simp: fixed_value_lens_simps )
qed (auto simp: mrds_encode_def mrds_decode_def typed_codec fixed_value_lens_simps be_bytes_nth nth_append and_then_eq_Ok
     length_3_cases split: if_splits)

interpretation req_opt: typed_option Req req_encode req_decode "\<lambda>r. token_bytes (req_token r)"
proof unfold_locales
  show "valid_option \<lparr>opt_kind = Req, opt_value = (\<lambda>r. token_bytes (req_token r)) t\<rparr>" for t
    by (rule supported_kind_valid) (auto simp: fixed_value_lens_simps )
qed (auto simp: req_encode_def req_decode_def typed_codec fixed_value_lens_simps be_bytes_nth nth_append and_then_eq_Ok
     length_4_cases token_from_slice_Ok split: if_splits)

interpretation res_opt: typed_option Res res_encode res_decode "\<lambda>r. token_bytes (res_token r)"
proof unfold_locales
  show "valid_option \<lparr>opt_kind = Res, opt_value = (\<lambda>r. token_bytes (res_token r)) t\<rparr>" for t
    by (rule supported_kind_valid) (auto simp: fixed_value_lens_simps )
qed (auto simp: res_encode_def res_decode_def typed_codec fixed_value_lens_simps be_bytes_nth nth_append and_then_eq_Ok
     length_4_cases token_from_slice_Ok split: if_splits)

lemma length_8_cases: "length v = 8 \<longleftrightarrow> (\<exists>a b c d e f g h. v = [a, b, c, d, e, f, g, h])"
  by (auto simp: numeral_eq_Suc length_Suc_conv)

lemma length_10_cases: "length v = 10 \<longleftrightarrow> (\<exists>a b c d e f g h i j. v = [a, b, c, d, e, f, g, h, i, j])"
  by (auto simp: numeral_eq_Suc length_Suc_conv)

lemma frag_decode_short:
  "frag_decode [a, b, c, d, e, f, g, h] =
     Ok \<lparr>frag_start = u16_from_be_bytes a b, identification = u32_from_be_bytes c d e f,
         frag_offset = u16_from_be_bytes g h, rdos = None\<rparr>"
  by (simp add: frag_decode_def typed_codec)

lemma frag_decode_long:
  "frag_decode [a, b, c, d, e, f, g, h, i, j] =
     Ok \<lparr>frag_start = u16_from_be_bytes a b, identification = u32_from_be_bytes c d e f,
         frag_offset = u16_from_be_bytes g h, rdos = Some (u16_from_be_bytes i j)\<rparr>"
  by (simp add: frag_decode_def typed_codec)

lemma frag_decode_bad:
  "length v \<noteq> 8 \<Longrightarrow> length v \<noteq> 10 \<Longrightarrow> frag_decode v = Err (InvalidLength kind_FRAG (length v + 2))"
  by (simp add: frag_decode_def typed_codec)

lemma length_frag_wire_value [simp]: "length (frag_wire_value f) = (if rdos f = None then 8 else 10)"
  by (simp add: frag_wire_value_def split: option.split)

lemma frag_decode_value [simp]: "frag_decode (frag_wire_value f) = Ok f"
proof (cases "rdos f")
  case None
  then show ?thesis
    by (cases f) (simp add: frag_wire_value_def u16_to_be_bytes_def u32_to_be_bytes_def frag_decode_short)
next
  case (Some r)
  then show ?thesis
    by (cases f) (simp add: frag_wire_value_def u16_to_be_bytes_def u32_to_be_bytes_def frag_decode_long)
qed

lemma frag_wire_value_decode: "frag_decode v = Ok f \<Longrightarrow> frag_wire_value f = v"
proof -
  assume ok: "frag_decode v = Ok f"
  then have "length v = 8 \<or> length v = 10" using frag_decode_bad [of v] by fastforce
  then show ?thesis
    using ok by (auto simp: length_8_cases length_10_cases frag_decode_short frag_decode_long frag_wire_value_def)
qed

interpretation frag_opt: typed_option Frag frag_encode frag_decode frag_wire_value
proof unfold_locales
  show "valid_option \<lparr>opt_kind = Frag, opt_value = frag_wire_value t\<rparr>" for t
    by (rule supported_kind_valid) (auto simp: fixed_value_lens_frag)
  show "frag_encode out t = out @ option_bytes \<lparr>opt_kind = Frag, opt_value = frag_wire_value t\<rparr>" for out t
    by (cases "rdos t") (simp_all add: frag_encode_def frag_wire_value_def typed_codec)
  show "\<exists>t. frag_decode v = Ok t" if "length v \<in> set (fixed_value_lens (to_byte Frag))" for v
    using that by (auto simp: fixed_value_lens_frag length_8_cases length_10_cases frag_decode_short frag_decode_long)
qed (auto simp: frag_wire_value_decode fixed_value_lens_frag frag_decode_bad)

section \<open>Properties\<close>

text \<open>
  C35: Every typed option survives the wire: its encoding parses as exactly one option of its Kind, from whose value the
  decoder returns it; and a value of any other length is an error that names the Kind and the length.
\<close>

theorem typed_options_roundtrip:
  "(\<exists>v. parse_spec 0 (apc_encode [] a) = [Inr \<lparr>ref_kind = Apc, ref_value = v, ref_at = Some 2\<rparr>] \<and> apc_decode v = Ok a)
   \<and> (\<exists>v. parse_spec 0 (frag_encode [] f) = [Inr \<lparr>ref_kind = Frag, ref_value = v, ref_at = Some 2\<rparr>] \<and> frag_decode v = Ok f)
   \<and> (\<exists>v. parse_spec 0 (mds_encode [] m) = [Inr \<lparr>ref_kind = Mds, ref_value = v, ref_at = Some 2\<rparr>] \<and> mds_decode v = Ok m)
   \<and> (\<exists>v. parse_spec 0 (mrds_encode [] n) = [Inr \<lparr>ref_kind = Mrds, ref_value = v, ref_at = Some 2\<rparr>] \<and> mrds_decode v = Ok n)
   \<and> (\<exists>v. parse_spec 0 (req_encode [] q) = [Inr \<lparr>ref_kind = Req, ref_value = v, ref_at = Some 2\<rparr>] \<and> req_decode v = Ok q)
   \<and> (\<exists>v. parse_spec 0 (res_encode [] r) = [Inr \<lparr>ref_kind = Res, ref_value = v, ref_at = Some 2\<rparr>] \<and> res_decode v = Ok r)
   \<and> (length w = 4 \<or> apc_decode w = Err (InvalidLength kind_APC (length w + 2)))
   \<and> (length w = 8 \<or> length w = 10 \<or> frag_decode w = Err (InvalidLength kind_FRAG (length w + 2)))
   \<and> (length w = 2 \<or> mds_decode w = Err (InvalidLength kind_MDS (length w + 2)))
   \<and> (length w = 3 \<or> mrds_decode w = Err (InvalidLength kind_MRDS (length w + 2)))
   \<and> (length w = 4 \<or> req_decode w = Err (InvalidLength kind_REQ (length w + 2)))
   \<and> (length w = 4 \<or> res_decode w = Err (InvalidLength kind_RES (length w + 2)))"
  using apc_opt.decode_bad [of w] frag_decode_bad [of w] mds_opt.decode_bad [of w] mrds_opt.decode_bad [of w]
    req_opt.decode_bad [of w] res_opt.decode_bad [of w] apc_opt.parse_encoded [of 0 a "[]"] frag_opt.parse_encoded [of 0 f "[]"] mds_opt.parse_encoded [of 0 m "[]"]
    mrds_opt.parse_encoded [of 0 n "[]"] req_opt.parse_encoded [of 0 q "[]"] res_opt.parse_encoded [of 0 r "[]"]
    apc_opt.decode_val [of a] frag_opt.decode_val [of f] mds_opt.decode_val [of m] mrds_opt.decode_val [of n]
    req_opt.decode_val [of q] res_opt.decode_val [of r]
  by (simp add: fixed_value_lens_simps numeral_2_eq_2) blast

end
