(* ===== verification/Recv_Options.thy ===== *)
theory Recv_Options
  imports Typed_Options
begin

text \<open>
  Option processing on the receive side (\<open>parse_options\<close> and its helpers in
  \<open>src/recv/pipeline.rs\<close>): the limit that a FRAG option sets on the per-fragment options, the loop
  over the TLV iterator with its duplicate, length and UNSAFE rules, and the reports. The CRC32C of an
  APC option is the parameter \<open>crc\<close>. A \<open>[bool; 256]\<close> array indexed by a Kind byte is a function on
  bytes. Log output is not part of the model; the flags that only feed it are left out.
\<close>

section \<open>Reports\<close>

datatype option_status = Success | Failed | Ignored

datatype option_source = SourceDatagram | FragmentSet

record option_report =
  rep_kind :: option_kind
  rep_status :: option_status
  rep_source :: option_source

definition report :: "option_kind \<Rightarrow> option_status \<Rightarrow> option_report" where
  "report k s = \<lparr>rep_kind = k, rep_status = s, rep_source = SourceDatagram\<rparr>"

record parsed_options =
  po_options :: "raw_option list"
  po_reports :: "option_report list"
  po_frag :: "frag option"
  po_unsupported_unsafe_seen :: bool
  po_fragment_failed :: bool

section \<open>Option lengths and checks\<close>

definition PIPELINE_TLV_HEADER_LEN :: usize where "PIPELINE_TLV_HEADER_LEN = 2"

fun list_min :: "usize list \<Rightarrow> usize option" where
  "list_min [] = None"
| "list_min (x # xs) = (case list_min xs of None \<Rightarrow> Some x | Some y \<Rightarrow> Some (min x y))"

definition minimum_known_tlv_len :: "option_kind \<Rightarrow> usize option" where
  "minimum_known_tlv_len k =
     (if to_byte k = kind_TIME then Some (unat length_TIME)
      else if to_byte k = kind_EXP then Some (unat length_EXP_MIN)
      else list_min (map unat (fixed_tlv_lengths k)))"

definition reject_sub_minimum :: "option_ref \<Rightarrow> (unit, parse_error) res" where
  "reject_sub_minimum opt =
     (case minimum_known_tlv_len (ref_kind opt) of
        None \<Rightarrow> Ok ()
      | Some min_len \<Rightarrow>
          let tlen = length (ref_value opt) + PIPELINE_TLV_HEADER_LEN in
          if tlen < min_len then Err (InvalidLength (to_byte (ref_kind opt)) tlen) else Ok ())"

definition mark_seen_once :: "(byte \<Rightarrow> bool) \<Rightarrow> byte \<Rightarrow> bool \<times> (byte \<Rightarrow> bool)" where
  "mark_seen_once seen k = (if seen k then (False, seen) else (True, seen(k := True)))"

definition accepts_apc :: "(bytes \<Rightarrow> u32) \<Rightarrow> option_ref \<Rightarrow> bytes \<Rightarrow> (option_status, parse_error) res" where
  "accepts_apc crc opt user_data =
     (case apc_decode (ref_value opt) of
        Ok apc \<Rightarrow> Ok (if apc = apc_compute crc user_data then Success else Failed)
      | Err _ \<Rightarrow> Ok Failed
      | Panic \<Rightarrow> Panic)"

section \<open>The limit of per-fragment options\<close>

datatype option_limit = Full | EndAt usize | MalformedFrag frag

text \<open>The offset arithmetic on the borrow; a value that is no part of the option bytes has no offset.\<close>

definition option_end_offset :: "option_ref \<Rightarrow> (usize, 'e) res" where
  "option_end_offset opt =
     (case ref_at opt of None \<Rightarrow> Panic | Some at \<Rightarrow> Ok (at + length (ref_value opt)))"

function limit_loop ::
  "bytes \<Rightarrow> usize \<Rightarrow> options_iter \<Rightarrow> (option_limit, parse_error) res" where
  "limit_loop options_bytes offset it =
     and_then (options_next it) (\<lambda>(x, it').
       case x of
         None \<Rightarrow> Ok Full
       | Some (Inl e) \<Rightarrow> Ok Full
       | Some (Inr opt) \<Rightarrow>
           (case ref_kind opt of
              Frag \<Rightarrow>
                (case frag_decode (ref_value opt) of
                   Panic \<Rightarrow> Panic
                 | Err _ \<Rightarrow> Ok Full
                 | Ok f \<Rightarrow>
                     (case checked_sub (unat (frag_start f)) offset of
                        None \<Rightarrow> Ok (MalformedFrag f)
                      | Some e \<Rightarrow>
                          and_then (option_end_offset opt) (\<lambda>opt_end.
                          if e > length options_bytes \<or> e < opt_end
                          then Ok (MalformedFrag f) else Ok (EndAt e))))
            | Eol \<Rightarrow> Ok Full
            | Other b \<Rightarrow> if is_unsafe (ref_kind opt) then Ok Full else limit_loop options_bytes offset it'
            | _ \<Rightarrow> limit_loop options_bytes offset it'))"
  by pat_completeness auto
termination
  by (relation "measure (\<lambda>(_, _, it). length (iter_rest it))") (auto simp: options_next_decreases)

declare limit_loop.simps [simp del]

definition fragment_option_limit :: "bytes \<Rightarrow> bool \<Rightarrow> usize \<Rightarrow> (option_limit, parse_error) res" where
  "fragment_option_limit options_bytes user_data_empty offset =
     (if \<not> user_data_empty then Ok Full else limit_loop options_bytes offset (options_iter_new options_bytes))"

section \<open>The option loop\<close>

text \<open>The local variables of \<open>parse_options\<close>.\<close>

record parse_state =
  ps_options :: "raw_option list"
  ps_reports :: "option_report list"
  ps_seen :: "byte \<Rightarrow> bool"
  ps_frag :: "frag option"
  ps_unsafe :: bool

datatype step = Continue parse_state | Break parse_state | Return "(parsed_options, parse_error) res"

definition fragment_failure :: "frag option \<Rightarrow> parsed_options" where
  "fragment_failure f =
     \<lparr>po_options = [], po_reports = [], po_frag = f, po_unsupported_unsafe_seen = False, po_fragment_failed = True\<rparr>"

text \<open>An error of the iterator ends the loop.\<close>

definition item_error :: "bytes \<Rightarrow> parse_state \<Rightarrow> parse_error \<Rightarrow> (parsed_options, parse_error) res" where
  "item_error user_data st e =
     (if ps_unsafe st
      then Ok \<lparr>po_options = [], po_reports = [], po_frag = ps_frag st,
               po_unsupported_unsafe_seen = ps_unsafe st, po_fragment_failed = False\<rparr>
      else if ps_frag st \<noteq> None \<and> user_data = [] then Ok (fragment_failure (ps_frag st))
      else Err e)"

text \<open>MDS, MRDS, REQ and RES: the first one counts, and counts as processed if it decodes.\<close>

definition checked_option :: "parse_state \<Rightarrow> option_ref \<Rightarrow> ('t, parse_error) res \<Rightarrow> step" where
  "checked_option st opt decoded =
     (case mark_seen_once (ps_seen st) (to_byte (ref_kind opt)) of
        (True, seen) \<Rightarrow>
          (case decoded of
             Ok _ \<Rightarrow> Continue (st\<lparr>ps_seen := seen, ps_reports := ps_reports st @ [report (ref_kind opt) Success],
                               ps_options := ps_options st @ [raw_from_ref opt]\<rparr>)
           | Err _ \<Rightarrow> Continue (st\<lparr>ps_seen := seen, ps_reports := ps_reports st @ [report (ref_kind opt) Failed]\<rparr>)
           | Panic \<Rightarrow> Return Panic)
      | (False, seen) \<Rightarrow> Continue (st\<lparr>ps_reports := ps_reports st @ [report (ref_kind opt) Ignored]\<rparr>))"

definition apc_option ::
  "(bytes \<Rightarrow> u32) \<Rightarrow> bool \<Rightarrow> bytes \<Rightarrow> parse_state \<Rightarrow> option_ref \<Rightarrow> step" where
  "apc_option crc fragment_context user_data st opt =
     (if fragment_context then Continue (st\<lparr>ps_reports := ps_reports st @ [report (ref_kind opt) Ignored]\<rparr>)
      else case mark_seen_once (ps_seen st) (to_byte (ref_kind opt)) of
        (True, seen) \<Rightarrow>
          (case accepts_apc crc opt user_data of
             Ok Success \<Rightarrow>
               Continue (st\<lparr>ps_seen := seen, ps_reports := ps_reports st @ [report (ref_kind opt) Success],
                            ps_options := ps_options st @ [raw_from_ref opt]\<rparr>)
           | Ok status \<Rightarrow>
               Continue (st\<lparr>ps_seen := seen, ps_reports := ps_reports st @ [report (ref_kind opt) status]\<rparr>)
           | _ \<Rightarrow> Return Panic)
      | (False, seen) \<Rightarrow> Continue (st\<lparr>ps_reports := ps_reports st @ [report (ref_kind opt) Ignored]\<rparr>))"

definition frag_option :: "bytes \<Rightarrow> parse_state \<Rightarrow> option_ref \<Rightarrow> step" where
  "frag_option user_data st opt =
     (let k = to_byte (ref_kind opt) in
      if ps_seen st k then
        Return (if ps_frag st \<noteq> None \<and> user_data = [] then Ok (fragment_failure (ps_frag st))
                else Err ParseDuplicateFrag)
      else
        let st = st\<lparr>ps_seen := (ps_seen st)(k := True)\<rparr> in
        case frag_decode (ref_value opt) of
          Ok f \<Rightarrow> Continue (st\<lparr>ps_frag := Some f\<rparr>)
        | Err _ \<Rightarrow> Break (st\<lparr>ps_unsafe := True\<rparr>)
        | Panic \<Rightarrow> Return Panic)"

definition parse_step ::
  "(bytes \<Rightarrow> u32) \<Rightarrow> bool \<Rightarrow> bytes \<Rightarrow> parse_state \<Rightarrow> item \<Rightarrow> step" where
  "parse_step crc fragment_context user_data st item =
     (case item of
        Inl e \<Rightarrow> Return (item_error user_data st e)
      | Inr opt \<Rightarrow>
          (case (if fragment_context \<and> ref_kind opt = Apc then Ok () else reject_sub_minimum opt) of
             Panic \<Rightarrow> Return Panic
           | Err e \<Rightarrow>
               Return (if ps_frag st \<noteq> None \<and> user_data = [] then Ok (fragment_failure (ps_frag st)) else Err e)
           | Ok _ \<Rightarrow>
               (case ref_kind opt of
                  Eol \<Rightarrow> Continue st
                | Nop \<Rightarrow> Continue st
                | Frag \<Rightarrow> frag_option user_data st opt
                | Apc \<Rightarrow> apc_option crc fragment_context user_data st opt
                | Mds \<Rightarrow> checked_option st opt (mds_decode (ref_value opt))
                | Mrds \<Rightarrow> checked_option st opt (mrds_decode (ref_value opt))
                | Req \<Rightarrow> checked_option st opt (req_decode (ref_value opt))
                | Res \<Rightarrow> checked_option st opt (res_decode (ref_value opt))
                | Other b \<Rightarrow>
                    if is_safe (ref_kind opt)
                    then Continue (st\<lparr>ps_reports := ps_reports st @ [report (ref_kind opt) Ignored]\<rparr>)
                    else Break (st\<lparr>ps_unsafe := True,
                                   ps_reports := ps_reports st @ [report (ref_kind opt) Failed]\<rparr>))))"

definition parse_end :: "parse_state \<Rightarrow> parsed_options" where
  "parse_end st =
     \<lparr>po_options = ps_options st, po_reports = ps_reports st, po_frag = ps_frag st,
      po_unsupported_unsafe_seen = ps_unsafe st, po_fragment_failed = False\<rparr>"

function parse_loop ::
  "(bytes \<Rightarrow> u32) \<Rightarrow> bool \<Rightarrow> bytes \<Rightarrow> options_iter \<Rightarrow> parse_state \<Rightarrow> (parsed_options, parse_error) res" where
  "parse_loop crc fragment_context user_data it st =
     and_then (options_next it) (\<lambda>(x, it').
       case x of
         None \<Rightarrow> Ok (parse_end st)
       | Some item \<Rightarrow>
           (case parse_step crc fragment_context user_data st item of
              Continue st' \<Rightarrow> parse_loop crc fragment_context user_data it' st'
            | Break st' \<Rightarrow> Ok (parse_end st')
            | Return r \<Rightarrow> r))"
  by pat_completeness auto
termination
  by (relation "measure (\<lambda>(_, _, _, it, _). length (iter_rest it))") (auto simp: options_next_decreases)

declare parse_loop.simps [simp del]

definition parse_state_init :: parse_state where
  "parse_state_init =
     \<lparr>ps_options = [], ps_reports = [], ps_seen = (\<lambda>_. False), ps_frag = None, ps_unsafe = False\<rparr>"

definition parse_options ::
  "(bytes \<Rightarrow> u32) \<Rightarrow> bytes \<Rightarrow> bytes \<Rightarrow> usize \<Rightarrow> (parsed_options, parse_error) res" where
  "parse_options crc options_bytes user_data offset =
     and_then (fragment_option_limit options_bytes (user_data = []) offset) (\<lambda>limit.
       case limit of
         Full \<Rightarrow> parse_loop crc False user_data (options_iter_new options_bytes) parse_state_init
       | EndAt e \<Rightarrow>
           and_then (slice options_bytes 0 e) (\<lambda>opts.
           parse_loop crc True user_data (options_iter_new opts) parse_state_init)
       | MalformedFrag f \<Rightarrow>
           Ok \<lparr>po_options = [], po_reports = [], po_frag = Some f, po_unsupported_unsafe_seen = True,
               po_fragment_failed = True\<rparr>)"

section \<open>The loops over the reference items\<close>

text \<open>Both loops as recursions on the list of items that the bytes parse to.\<close>

fun limit_items :: "bytes \<Rightarrow> usize \<Rightarrow> item list \<Rightarrow> (option_limit, parse_error) res" where
  "limit_items options_bytes offset [] = Ok Full"
| "limit_items options_bytes offset (Inl e # xs) = Ok Full"
| "limit_items options_bytes offset (Inr opt # xs) =
     (if ref_kind opt = Frag then
        (case frag_decode (ref_value opt) of
           Panic \<Rightarrow> Panic
         | Err _ \<Rightarrow> Ok Full
         | Ok f \<Rightarrow>
             if unat (frag_start f) < offset then Ok (MalformedFrag f)
             else and_then (option_end_offset opt) (\<lambda>opt_end.
               let e = unat (frag_start f) - offset in
               if e > length options_bytes \<or> e < opt_end then Ok (MalformedFrag f) else Ok (EndAt e)))
      else if ref_kind opt = Eol \<or> is_unsafe (ref_kind opt) then Ok Full
      else limit_items options_bytes offset xs)"

fun parse_items ::
  "(bytes \<Rightarrow> u32) \<Rightarrow> bool \<Rightarrow> bytes \<Rightarrow> parse_state \<Rightarrow> item list \<Rightarrow> (parsed_options, parse_error) res" where
  "parse_items crc ctx user_data st [] = Ok (parse_end st)"
| "parse_items crc ctx user_data st (x # xs) =
     (case parse_step crc ctx user_data st x of
        Continue st' \<Rightarrow> parse_items crc ctx user_data st' xs
      | Break st' \<Rightarrow> Ok (parse_end st')
      | Return r \<Rightarrow> r)"

lemma not_unsafe_named [simp]:
  "\<not> is_unsafe Eol" "\<not> is_unsafe Nop" "\<not> is_unsafe Apc" "\<not> is_unsafe Frag" "\<not> is_unsafe Mds"
  "\<not> is_unsafe Mrds" "\<not> is_unsafe Req" "\<not> is_unsafe Res"
  by (simp_all add: is_unsafe_iff kind_defs)

text \<open>One turn of an iterator loop, on the reference items.\<close>

lemma options_next_items:
  "options_next it =
     (case parse_spec (it_pos it) (iter_rest it) of
        [] \<Rightarrow> Ok (None, it)
      | x # xs \<Rightarrow> (case first_option (it_pos it) (iter_rest it) of (_, n, cont) \<Rightarrow> Ok (Some x, iter_after it x n cont)))"
  "first_option (it_pos it) (iter_rest it) = (y, n, cont) \<Longrightarrow> iter_rest it \<noteq> [] \<Longrightarrow>
     parse_spec (it_pos it) (iter_rest it) =
       y # parse_spec (it_pos (iter_after it y n cont)) (iter_rest (iter_after it y n cont))"
proof -
  show "options_next it =
     (case parse_spec (it_pos it) (iter_rest it) of
        [] \<Rightarrow> Ok (None, it)
      | x # xs \<Rightarrow> (case first_option (it_pos it) (iter_rest it) of (_, n, cont) \<Rightarrow> Ok (Some x, iter_after it x n cont)))"
    by (cases "iter_rest it = []")
      (simp_all add: options_next_end options_next_step parse_spec.simps [of "it_pos it"] split: prod.split)
  assume f: "first_option (it_pos it) (iter_rest it) = (y, n, cont)" and ne: "iter_rest it \<noteq> []"
  have pos: "cont \<Longrightarrow> it_pos (iter_after it y n cont) = it_pos it + n"
    using f by (cases y) (auto simp: iter_after_def)
  show "parse_spec (it_pos it) (iter_rest it) =
       y # parse_spec (it_pos (iter_after it y n cont)) (iter_rest (iter_after it y n cont))"
    using f ne pos iter_rest_after [OF f ne] by (simp add: parse_spec.simps [of "it_pos it"])
qed

lemma parse_loop_items:
  "parse_loop crc ctx user_data it st = parse_items crc ctx user_data st (parse_spec (it_pos it) (iter_rest it))"
proof (induction "length (iter_rest it)" arbitrary: it st rule: less_induct)
  case less
  show ?case
  proof (cases "iter_rest it = []")
    case True
    then show ?thesis by (simp add: parse_loop.simps [of _ _ _ it] options_next_end)
  next
    case False
    obtain x n cont where f: "first_option (it_pos it) (iter_rest it) = (x, n, cont)" by (metis prod_cases3)
    let ?it = "iter_after it x n cont"
    have step: "(options_next it :: (_, parse_error) res) = Ok (Some x, ?it)" using False f by (simp add: options_next_step)
    have "length (iter_rest ?it) < length (iter_rest it)"
      by (rule options_next_decreases) (use False f in \<open>simp add: options_next_step\<close>)
    then show ?thesis
      using less step options_next_items(2) [OF f False]
      by (simp add: parse_loop.simps [of _ _ _ it] split: step.split)
  qed
qed

lemma limit_loop_items:
  "limit_loop bs offset it = limit_items bs offset (parse_spec (it_pos it) (iter_rest it))"
proof (induction "length (iter_rest it)" arbitrary: it rule: less_induct)
  case less
  show ?case
  proof (cases "iter_rest it = []")
    case True
    then show ?thesis by (simp add: limit_loop.simps [of _ _ it] options_next_end)
  next
    case False
    obtain x n cont where f: "first_option (it_pos it) (iter_rest it) = (x, n, cont)" by (metis prod_cases3)
    let ?it = "iter_after it x n cont"
    have step: "(options_next it :: (_, parse_error) res) = Ok (Some x, ?it)" using False f by (simp add: options_next_step)
    have dec: "length (iter_rest ?it) < length (iter_rest it)"
      by (rule options_next_decreases) (use False f in \<open>simp add: options_next_step\<close>)
    have "limit_loop bs offset it =
        limit_items bs offset (x # parse_spec (it_pos ?it) (iter_rest ?it))"
      using less [OF dec] step
      by (cases x) (simp_all add: limit_loop.simps [of _ _ it] checked_sub_def Let_def split: option_kind.split res.split)
    then show ?thesis using options_next_items(2) [OF f False] by simp
  qed
qed

lemma iter_rest_new [simp]: "iter_rest (options_iter_new bs) = bs" "it_pos (options_iter_new bs) = 0"
  by (simp_all add: iter_rest_def options_iter_new_def)

lemma parse_options_items:
  "parse_options crc bs user_data offset =
     and_then (if user_data \<noteq> [] then Ok Full else limit_items bs offset (parse_spec 0 bs)) (\<lambda>limit.
       case limit of
         Full \<Rightarrow> parse_items crc False user_data parse_state_init (parse_spec 0 bs)
       | EndAt e \<Rightarrow>
           and_then (slice bs 0 e) (\<lambda>opts. parse_items crc True user_data parse_state_init (parse_spec 0 opts))
       | MalformedFrag f \<Rightarrow>
           Ok \<lparr>po_options = [], po_reports = [], po_frag = Some f, po_unsupported_unsafe_seen = True,
               po_fragment_failed = True\<rparr>)"
  by (auto simp: parse_options_def fragment_option_limit_def limit_loop_items parse_loop_items
      intro!: and_then_cong split: option_limit.split)

section \<open>No panic\<close>

lemma limit_items_bounds:
  assumes "\<forall>x \<in> set xs. item_in_bounds 0 bs x"
  shows "limit_items bs offset xs \<noteq> Panic" and "limit_items bs offset xs = Ok (EndAt e) \<Longrightarrow> e \<le> length bs"
proof -
  have "limit_items bs offset xs \<noteq> Panic \<and> (\<forall>e. limit_items bs offset xs = Ok (EndAt e) \<longrightarrow> e \<le> length bs)"
    using assms
  proof (induction bs offset xs rule: limit_items.induct)
    case (3 bs offset opt xs)
    have "ref_kind opt = Frag \<Longrightarrow> \<exists>at. ref_at opt = Some at"
      using 3(2) by (auto simp: item_in_bounds_def is_single_byte_def framing_def kind_defs split: option.splits)
    with 3 show ?case
      using frag_opt.decode_no_panic [of "ref_value opt"]
      by (auto simp: option_end_offset_def Let_def split: res.splits if_splits)
  qed auto
  then show "limit_items bs offset xs \<noteq> Panic" "limit_items bs offset xs = Ok (EndAt e) \<Longrightarrow> e \<le> length bs"
    by blast+
qed

lemma reject_sub_minimum_no_panic [panic_free]: "reject_sub_minimum opt \<noteq> Panic"
  by (simp add: reject_sub_minimum_def Let_def split: option.split)

lemma accepts_apc_total: "\<exists>s. accepts_apc crc opt user_data = Ok s"
  using apc_opt.decode_no_panic [of "ref_value opt"] by (simp add: accepts_apc_def split: res.split)

lemma checked_option_no_panic: "decoded \<noteq> Panic \<Longrightarrow> checked_option st opt decoded \<noteq> Return Panic"
  by (simp add: checked_option_def mark_seen_once_def split: res.split)

lemma frag_option_no_panic: "frag_option user_data st opt \<noteq> Return Panic"
  using frag_opt.decode_no_panic [of "ref_value opt"]
  by (simp add: frag_option_def Let_def split: res.split)

lemma apc_option_no_panic: "apc_option crc ctx user_data st opt \<noteq> Return Panic"
  using accepts_apc_total [of crc opt user_data]
  by (auto simp: apc_option_def mark_seen_once_def split: option_status.splits)

lemmas decoders_no_panic =
  mds_opt.decode_no_panic mrds_opt.decode_no_panic req_opt.decode_no_panic res_opt.decode_no_panic

lemma parse_step_no_panic [panic_free]: "parse_step crc ctx user_data st x \<noteq> Return Panic"
proof (cases x)
  case (Inl e)
  then show ?thesis by (simp add: parse_step_def item_error_def)
next
  case (Inr opt)
  then show ?thesis
    by (cases "ref_kind opt")
      (simp_all add: parse_step_def checked_option_no_panic frag_option_no_panic apc_option_no_panic
        decoders_no_panic reject_sub_minimum_no_panic split: res.split)
qed

lemma parse_items_no_panic [panic_free]: "parse_items crc ctx user_data st xs \<noteq> Panic"
  by (induction xs arbitrary: st) (auto simp: parse_step_no_panic split: step.split)

lemma parse_options_no_panic [panic_free]: "parse_options crc bs user_data offset \<noteq> Panic"
proof -
  have "\<forall>x \<in> set (parse_spec 0 bs). item_in_bounds 0 bs x" by (simp add: parse_spec_bounds)
  from limit_items_bounds [OF this] show ?thesis
    by (auto simp: parse_options_items and_then_eq_Panic parse_items_no_panic slice_eq_Panic
        split: if_splits option_limit.splits)
qed

section \<open>User data and unsafe options\<close>

text \<open>The options that make a receiver withhold user data: an unsupported UNSAFE one, or a FRAG that does not decode.\<close>

definition unsafe_item :: "item \<Rightarrow> bool" where
  "unsafe_item x \<longleftrightarrow>
     (case x of Inl _ \<Rightarrow> False
      | Inr r \<Rightarrow> is_unsafe (ref_kind r) \<or> (ref_kind r = Frag \<and> length (ref_value r) \<notin> {8, 10}))"

lemma frag_decode_Err: "frag_decode v = Err e \<Longrightarrow> length v \<noteq> 8 \<and> length v \<noteq> 10"
  by (auto simp: length_8_cases length_10_cases frag_decode_short frag_decode_long)

text \<open>A step that leaves the loop's unsafe flag unset, or stops at an unsafe option, or fails.\<close>

definition benign :: "item \<Rightarrow> step \<Rightarrow> bool" where
  "benign x s \<longleftrightarrow>
     (case s of
        Continue st \<Rightarrow> \<not> ps_unsafe st
      | Break st \<Rightarrow> unsafe_item x
      | Return r \<Rightarrow> (\<forall>po. r \<noteq> Ok po))"

lemma checked_option_benign: "\<not> ps_unsafe st \<Longrightarrow> benign x (checked_option st opt decoded)"
  by (simp add: benign_def checked_option_def mark_seen_once_def split: res.split)

lemma apc_option_benign: "\<not> ps_unsafe st \<Longrightarrow> benign x (apc_option crc ctx user_data st opt)"
  using accepts_apc_total [of crc opt user_data]
  by (auto simp: benign_def apc_option_def mark_seen_once_def split: option_status.splits)

lemma frag_option_benign:
  "\<not> ps_unsafe st \<Longrightarrow> user_data \<noteq> [] \<Longrightarrow> ref_kind opt = Frag \<Longrightarrow> benign (Inr opt) (frag_option user_data st opt)"
  by (auto simp: benign_def frag_option_def Let_def unsafe_item_def dest: frag_decode_Err split: res.split)

lemma parse_step_benign:
  assumes "user_data \<noteq> []" and "\<not> ps_unsafe st"
  shows "benign x (parse_step crc False user_data st x)"
proof (cases x)
  case (Inl e)
  then show ?thesis using assms by (simp add: benign_def parse_step_def item_error_def)
next
  case (Inr opt)
  have "benign x (Return Panic)" "benign x (Return (Err e))" "benign x (Continue st)" for e
    using assms by (simp_all add: benign_def)
  moreover have "benign x (Continue (st\<lparr>ps_reports := rs\<rparr>))" for rs using assms by (simp add: benign_def)
  moreover have "\<not> is_safe (ref_kind opt) \<Longrightarrow> benign x (Break st')" for st'
    using Inr by (simp add: benign_def unsafe_item_def is_unsafe_def)
  ultimately show ?thesis
    using assms Inr
    by (cases "ref_kind opt")
      (simp_all add: parse_step_def checked_option_benign apc_option_benign frag_option_benign split: res.split)
qed

lemma parse_items_unsafe:
  "user_data \<noteq> [] \<Longrightarrow> \<not> ps_unsafe st \<Longrightarrow> parse_items crc False user_data st xs = Ok po \<Longrightarrow>
     \<not> po_fragment_failed po \<and> (po_unsupported_unsafe_seen po \<longrightarrow> (\<exists>x \<in> set xs. unsafe_item x))"
proof (induction xs arbitrary: st)
  case Nil
  then show ?case by (auto simp: parse_end_def)
next
  case (Cons x xs)
  note step = parse_step_benign [OF Cons.prems(1,2), of x crc]
  show ?case
  proof (cases "parse_step crc False user_data st x")
    case (Continue st')
    then show ?thesis using Cons.IH [of st'] Cons.prems step by (auto simp: benign_def)
  next
    case (Break st')
    then show ?thesis using Cons.prems step by (auto simp: benign_def parse_end_def)
  next
    case (Return r)
    then show ?thesis using Cons.prems step by (auto simp: benign_def)
  qed
qed

lemma parse_options_unsafe:
  assumes "user_data \<noteq> []" and "parse_options crc bs user_data offset = Ok po"
  shows "\<not> po_fragment_failed po"
    and "po_unsupported_unsafe_seen po \<Longrightarrow> \<exists>x \<in> set (parse_spec 0 bs). unsafe_item x"
  using assms parse_items_unsafe [of user_data parse_state_init crc "parse_spec 0 bs" po]
  by (auto simp: parse_options_items parse_state_init_def)

end
