(* ===== verification/Frag_Split.thy ===== *)
theory Frag_Split
  imports Typed_Options
begin

text \<open>
  The send side of fragmentation (\<open>src/frag/split.rs\<close>): the Identification generator,
  \<open>split_datagram\<close> with its chunking loop, and the FRAG-led surplus body of each fragment. The
  operating system's random bytes are a parameter of \<open>from_os_random\<close>; \<open>u32::from_ne_bytes\<close> reads
  them in little-endian order, as the 64-bit targets of the crate do.
\<close>

section \<open>Configuration and data\<close>

definition RANDOM_IDENTIFICATION_SEED_MASK :: u32 where
  "RANDOM_IDENTIFICATION_SEED_MASK = drop_bit 1 (- 1)"

definition IPV4_HEADER_LEN :: usize where "IPV4_HEADER_LEN = 20"
definition FRAGMENT_SURPLUS_LEN_MAX :: usize where
  "FRAGMENT_SURPLUS_LEN_MAX = u16_max - IPV4_HEADER_LEN - unat length_UDP_HEADER"
definition FRAG_NON_TERMINAL_BODY_LEN :: usize where
  "FRAG_NON_TERMINAL_BODY_LEN = unat length_OCS + unat length_FRAG_NON_TERMINAL"
definition FRAG_TERMINAL_BODY_LEN :: usize where
  "FRAG_TERMINAL_BODY_LEN = unat length_OCS + unat length_FRAG_TERMINAL"

record peer_fragment_limits =
  peer_max_reassembled_size :: u16
  peer_max_segments :: byte

definition default_ipv4 :: peer_fragment_limits where
  "default_ipv4 =
     \<lparr>peer_max_reassembled_size = MRDS_DEFAULT_IPV4, peer_max_segments = MIN_REASSEMBLY_SEGMENTS\<rparr>"

record split_config =
  max_fragment_surplus_len :: usize
  peer :: peer_fragment_limits
  split_identification :: u32

record fragment =
  fr_frag_offset :: u16
  fr_terminal :: bool
  fr_rdos :: "u16 option"
  fr_surplus_body :: bytes

section \<open>Identification generator\<close>

record identification_generator =
  next_value :: "u32 option"

definition generator_new :: "u32 \<Rightarrow> identification_generator" where
  "generator_new n = \<lparr>next_value = Some n\<rparr>"

definition bounded_random_seed :: "byte \<times> byte \<times> byte \<times> byte \<Rightarrow> u32" where
  "bounded_random_seed s =
     (case s of (a, b, c, d) \<Rightarrow> u32_from_be_bytes d c b a AND RANDOM_IDENTIFICATION_SEED_MASK)"

definition from_os_random ::
  "(byte \<times> byte \<times> byte \<times> byte, io_error) res \<Rightarrow> (identification_generator, io_error) res" where
  "from_os_random urandom = and_then urandom (\<lambda>s. Ok (generator_new (bounded_random_seed s)))"

definition u32_checked_succ :: "u32 \<Rightarrow> u32 option" where
  "u32_checked_succ n = (if n = - 1 then None else Some (n + 1))"

definition next_id ::
  "identification_generator \<Rightarrow> (u32, split_error) res \<times> identification_generator" where
  "next_id g =
     (case next_value g of
        None \<Rightarrow> (Err IdentificationExhausted, g)
      | Some n \<Rightarrow> (Ok n, g\<lparr>next_value := u32_checked_succ n\<rparr>))"

section \<open>Chunks\<close>

definition checked_rdos :: "usize \<Rightarrow> (u16, split_error) res" where
  "checked_rdos payload_len =
     and_then (ok_or (RdosTooLarge usize_max u16_max)
       (checked_add (unat length_UDP_HEADER) payload_len)) (\<lambda>rdos.
     ok_or (RdosTooLarge rdos u16_max) (u16_try_from rdos))"

definition checked_fragment_offset :: "usize \<Rightarrow> (u16, split_error) res" where
  "checked_fragment_offset offset = ok_or (FragmentOffsetTooLarge offset u16_max) (u16_try_from offset)"

definition rdos_needs_options_pad :: "usize \<Rightarrow> bool" where
  "rdos_needs_options_pad payload_len \<longleftrightarrow> (unat length_UDP_HEADER + payload_len) mod 2 = 1"

definition reassembled_tail :: "bytes \<Rightarrow> bytes \<Rightarrow> bytes" where
  "reassembled_tail payload options_body =
     (let pad_len = of_bool (options_body \<noteq> [] \<and> rdos_needs_options_pad (length payload)) :: nat in
      payload @ (if pad_len = 1 then [0] else []) @ options_body)"

text \<open>
  The \<open>while\<close> loop of \<open>chunk_ranges\<close>. Nothing in the loop itself makes it progress, so it is a partial
  function: no value stands for a loop that never returns.
\<close>

partial_function (option) chunk_loop ::
  "usize \<Rightarrow> usize \<Rightarrow> usize \<Rightarrow> usize \<Rightarrow> (usize \<times> usize \<times> bool) list
     \<Rightarrow> (usize \<times> (usize \<times> usize \<times> bool) list) option" where
  "chunk_loop terminal_capacity non_terminal_capacity start remaining ranges =
     (if remaining > terminal_capacity then
        let n = min non_terminal_capacity (remaining - terminal_capacity) in
        chunk_loop terminal_capacity non_terminal_capacity (start + n) (remaining - n)
          (ranges @ [(start, start + n, False)])
      else Some (start, ranges))"

declare chunk_loop.simps [code]

definition chunk_ranges ::
  "usize \<Rightarrow> usize \<Rightarrow> usize \<Rightarrow> usize \<Rightarrow> split_config
     \<Rightarrow> ((usize \<times> usize \<times> bool) list, split_error) res" where
  "chunk_ranges tail_len terminal_capacity non_terminal_capacity non_terminal_body_len config =
     (if tail_len \<le> terminal_capacity then Ok [(0, tail_len, True)]
      else if non_terminal_capacity = 0
      then Err (FragmentCapacityTooSmall (non_terminal_body_len + 1) (max_fragment_surplus_len config))
      else
        and_then (expect_some (chunk_loop terminal_capacity non_terminal_capacity 0 tail_len []))
          (\<lambda>(start, ranges). Ok (ranges @ [(start, tail_len, True)])))"

definition fragment_options_body_len :: "u16 option \<Rightarrow> usize" where
  "fragment_options_body_len r = (if r \<noteq> None then FRAG_TERMINAL_BODY_LEN else FRAG_NON_TERMINAL_BODY_LEN)"

definition frag_value :: "u16 \<Rightarrow> u32 \<Rightarrow> u16 \<Rightarrow> u16 option \<Rightarrow> bytes" where
  "frag_value start ident offset r =
     u16_to_be_bytes start @ u32_to_be_bytes ident @ u16_to_be_bytes offset
     @ (case r of None \<Rightarrow> [] | Some r \<Rightarrow> u16_to_be_bytes r)"

definition fragment_options_body :: "u32 \<Rightarrow> u16 \<Rightarrow> u16 option \<Rightarrow> bytes" where
  "fragment_options_body ident offset r =
     (let body_len = fragment_options_body_len r;
          start = ucast length_UDP_HEADER + word_of_nat body_len;
          frag_len = (if r \<noteq> None then length_FRAG_TERMINAL else length_FRAG_NON_TERMINAL)
      in [0, 0] @ [kind_FRAG] @ [frag_len] @ frag_value start ident offset r)"

section \<open>Splitting\<close>

text \<open>The loop that materialises one fragment per range.\<close>

fun fragment_loop ::
  "bytes \<Rightarrow> bool \<Rightarrow> u16 \<Rightarrow> u32 \<Rightarrow> (usize \<times> usize \<times> bool) list \<Rightarrow> (fragment list, split_error) res" where
  "fragment_loop tail atomic r ident [] = Ok []"
| "fragment_loop tail atomic r ident ((start, stop, terminal) # ranges) =
     and_then (if atomic then checked_fragment_offset 0
               else checked_fragment_offset (unat length_UDP_HEADER + start)) (\<lambda>offset.
     let r' = (if terminal then Some r else None) in
     and_then (slice tail start stop) (\<lambda>data.
     let body = fragment_options_body ident offset r' @ data in
     and_then (fragment_loop tail atomic r ident ranges) (\<lambda>frs.
     Ok (\<lparr>fr_frag_offset = offset, fr_terminal = terminal, fr_rdos = r', fr_surplus_body = body\<rparr> # frs))))"

definition split_datagram :: "bytes \<Rightarrow> bytes \<Rightarrow> split_config \<Rightarrow> (fragment list, split_error) res" where
  "split_datagram payload options_body config =
     (if options_body \<noteq> [] \<and> length options_body < unat length_OCS
      then Err (OptionsBodyTooShort (length options_body))
      else if max_fragment_surplus_len config > FRAGMENT_SURPLUS_LEN_MAX
      then Err (FragmentSurplusTooLarge (max_fragment_surplus_len config) FRAGMENT_SURPLUS_LEN_MAX)
      else
        and_then (checked_rdos (length payload)) (\<lambda>r.
        let tail = reassembled_tail payload options_body;
            reassembled_len = unat length_UDP_HEADER + length tail in
        if reassembled_len > unat (peer_max_reassembled_size (peer config))
        then Err (ReassembledDatagramTooLarge reassembled_len (unat (peer_max_reassembled_size (peer config))))
        else
          let terminal_body_len = fragment_options_body_len (Some r) in
          if max_fragment_surplus_len config < terminal_body_len
          then Err (FragmentCapacityTooSmall terminal_body_len (max_fragment_surplus_len config))
          else
            let terminal_capacity = max_fragment_surplus_len config - terminal_body_len;
                non_terminal_body_len = fragment_options_body_len None;
                non_terminal_capacity = max_fragment_surplus_len config - non_terminal_body_len in
            and_then (chunk_ranges (length tail) terminal_capacity non_terminal_capacity
                        non_terminal_body_len config) (\<lambda>ranges.
            if length ranges > unat (peer_max_segments (peer config))
            then Err (SegmentLimitExceeded (length ranges) (peer_max_segments (peer config)))
            else fragment_loop tail (length ranges = 1) r (split_identification config) ranges)))"

section \<open>The chunking loop\<close>

lemma chunk_loop_returns:
  assumes "0 < non_terminal_capacity"
  shows "\<exists>start ranges'. chunk_loop terminal_capacity non_terminal_capacity start0 remaining ranges = Some (start, ranges')"
  using assms
proof (induction remaining arbitrary: start0 ranges rule: less_induct)
  case (less remaining)
  show ?case
  proof (cases "remaining > terminal_capacity")
    case True
    then have "remaining - min non_terminal_capacity (remaining - terminal_capacity) < remaining"
      using less.prems by simp
    from less.IH [OF this less.prems] True show ?thesis
      by (subst chunk_loop.simps) (simp add: Let_def)
  qed (simp add: chunk_loop.simps)
qed

lemma take_drop_join:
  assumes "s \<le> b" and "b \<le> e"
  shows "take (b - s) (drop s xs) @ take (e - b) (drop b xs) = take (e - s) (drop s xs)"
  using assms take_add [of "b - s" "e - b" "drop s xs"] by simp

text \<open>
  Ranges that tile an interval: each starts where the one before it ends, only the last is terminal,
  the others hold between one and \<open>ncap\<close> bytes, the last at most \<open>tcap\<close>.
\<close>

fun tiles :: "usize \<Rightarrow> usize \<Rightarrow> usize \<Rightarrow> usize \<Rightarrow> (usize \<times> usize \<times> bool) list \<Rightarrow> bool" where
  "tiles tcap ncap s e [] = False"
| "tiles tcap ncap s e [(a, b, t)] = (a = s \<and> b = e \<and> t \<and> s \<le> e \<and> e - s \<le> tcap)"
| "tiles tcap ncap s e ((a, b, t) # r # rs) =
     (a = s \<and> s < b \<and> b - s \<le> ncap \<and> \<not> t \<and> tiles tcap ncap b e (r # rs))"

lemma chunk_loop_tiles:
  assumes "0 < ncap"
    and "chunk_loop tcap ncap start remaining ranges = Some (start', ranges')"
  shows "\<exists>rs. ranges' = ranges @ rs
     \<and> tiles tcap ncap start (start + remaining) (rs @ [(start', start + remaining, True)])"
  using assms
proof (induction remaining arbitrary: start ranges rule: less_induct)
  case (less remaining)
  show ?case
  proof (cases "remaining > tcap")
    case True
    let ?n = "min ncap (remaining - tcap)"
    have n: "0 < ?n" "?n \<le> remaining" "?n \<le> ncap" using True less.prems(1) by auto
    have "chunk_loop tcap ncap (start + ?n) (remaining - ?n) (ranges @ [(start, start + ?n, False)])
        = Some (start', ranges')"
      using less.prems(2) True by (subst (asm) chunk_loop.simps) (simp add: Let_def)
    from less.IH [OF _ less.prems(1) this] n obtain rs where
      rs: "ranges' = ranges @ (start, start + ?n, False) # rs"
        "tiles tcap ncap (start + ?n) (start + remaining) (rs @ [(start', start + remaining, True)])"
      by auto
    moreover obtain r rs' where "rs @ [(start', start + remaining, True)] = r # rs'" by (cases rs) auto
    ultimately show ?thesis using n by auto
  next
    case False
    then show ?thesis using less.prems(2) by (subst (asm) chunk_loop.simps) simp
  qed
qed

lemma chunk_ranges_tiles:
  assumes "chunk_ranges n tcap ncap blen config = Ok ranges"
  shows "tiles tcap ncap 0 n ranges"
proof (cases "n \<le> tcap")
  case True
  then show ?thesis using assms by (auto simp: chunk_ranges_def)
next
  case False
  with assms obtain start rs where "0 < ncap" "chunk_loop tcap ncap 0 n [] = Some (start, rs)"
    "ranges = rs @ [(start, n, True)]"
    by (auto simp: chunk_ranges_def expect_some_def and_then_eq_Ok split: if_splits option.splits)
  then show ?thesis using chunk_loop_tiles [of ncap tcap 0 n "[]" start rs] by auto
qed

lemma chunk_ranges_no_panic [panic_free]: "chunk_ranges n tcap ncap blen config \<noteq> Panic"
  using chunk_loop_returns [of ncap tcap 0 n "[]"]
  by (auto simp: chunk_ranges_def and_then_eq_Panic)

lemma chunk_ranges_Ok:
  "n \<le> tcap \<or> 0 < ncap \<Longrightarrow> \<exists>ranges. chunk_ranges n tcap ncap blen config = Ok ranges"
  using chunk_loop_returns [of ncap tcap 0 n "[]"] by (auto simp: chunk_ranges_def)

lemma tiles_le: "tiles tcap ncap s e ranges \<Longrightarrow> s \<le> e"
  by (induction tcap ncap s e ranges rule: tiles.induct) auto

lemma tiles_bounds:
  "tiles tcap ncap s e ranges \<Longrightarrow> (a, b, t) \<in> set ranges \<Longrightarrow>
     s \<le> a \<and> a \<le> b \<and> b \<le> e \<and> b - a \<le> (if t then tcap else ncap) \<and> (a < b \<or> t)"
proof (induction tcap ncap s e ranges rule: tiles.induct)
  case (3 tcap ncap s e a' b' t' r rs)
  then have "a' = s" "s < b'" "b' - s \<le> ncap" "\<not> t'" "b' \<le> e" using tiles_le [of tcap ncap b' e "r # rs"] by auto
  with 3 show ?case by (cases "(a, b, t) = (a', b', t')") auto
qed auto

lemma tiles_last: "tiles tcap ncap s e ranges \<Longrightarrow> ranges \<noteq> [] \<and> (\<exists>a. last ranges = (a, e, True))"
  by (induction tcap ncap s e ranges rule: tiles.induct) auto

lemma tiles_terminal_iff:
  "tiles tcap ncap s e ranges \<Longrightarrow> map (snd \<circ> snd) ranges = replicate (length ranges - 1) False @ [True]"
  by (induction tcap ncap s e ranges rule: tiles.induct) auto

lemma tiles_concat:
  "tiles tcap ncap s e ranges \<Longrightarrow>
     concat (map (\<lambda>(a, b, t). take (b - a) (drop a tail)) ranges) = take (e - s) (drop s tail)"
proof (induction tcap ncap s e ranges rule: tiles.induct)
  case (3 tcap ncap s e a b t r rs)
  then have "a = s" "s < b" "b \<le> e" using tiles_le [of tcap ncap b e "r # rs"] by auto
  then show ?case using 3 by (simp add: take_drop_join)
qed auto

section \<open>The fragments\<close>

definition fragment_of :: "bytes \<Rightarrow> bool \<Rightarrow> u16 \<Rightarrow> u32 \<Rightarrow> usize \<times> usize \<times> bool \<Rightarrow> fragment" where
  "fragment_of tail atomic r ident rng =
     (case rng of (a, b, t) \<Rightarrow>
        let offset = (if atomic then 0 else word_of_nat (8 + a)); r' = (if t then Some r else None) in
        \<lparr>fr_frag_offset = offset, fr_terminal = t, fr_rdos = r',
         fr_surplus_body = fragment_options_body ident offset r' @ take (b - a) (drop a tail)\<rparr>)"

lemma fragment_loop_Ok:
  "\<forall>(a, b, t) \<in> set ranges. a \<le> b \<and> b \<le> length tail \<and> 8 + a \<le> u16_max \<Longrightarrow>
     fragment_loop tail atomic r ident ranges = Ok (map (fragment_of tail atomic r ident) ranges)"
  by (induction tail atomic r ident ranges rule: fragment_loop.induct)
    (auto simp: fragment_of_def checked_fragment_offset_def u16_try_from_def Let_def)

lemma fragment_options_body_len_simps [simp]:
  "fragment_options_body_len None = 12" "fragment_options_body_len (Some r) = 14"
  by (simp_all add: fragment_options_body_len_def FRAG_TERMINAL_BODY_LEN_def FRAG_NON_TERMINAL_BODY_LEN_def length_defs)

lemma length_fragment_options_body [simp]:
  "length (fragment_options_body ident off r) = fragment_options_body_len r"
  by (cases r) (simp_all add: fragment_options_body_def Let_def frag_value_def)

text \<open>The body of a fragment starts with the OCS placeholder and exactly one FRAG option.\<close>

definition fragment_frag :: "u32 \<Rightarrow> u16 \<Rightarrow> u16 option \<Rightarrow> frag" where
  "fragment_frag ident off r =
     \<lparr>frag_start = (if r = None then 20 else 22), identification = ident, frag_offset = off, rdos = r\<rparr>"

lemma fragment_options_body_eq:
  "fragment_options_body ident off r =
     [0, 0] @ option_bytes \<lparr>opt_kind = Frag, opt_value = frag_wire_value (fragment_frag ident off r)\<rparr>"
  by (cases r) (simp_all add: fragment_options_body_def Let_def frag_value_def frag_wire_value_def
      fragment_frag_def option_bytes_def length_defs)

lemma checked_rdos_Ok_iff: "checked_rdos n = Ok r \<longleftrightarrow> unat r = 8 + n"
proof -
  have "unat r = 8 + n \<Longrightarrow> 8 + n \<le> u16_max" using unat_u16_le_max [of r] by simp
  moreover have "8 + n \<le> u16_max \<Longrightarrow> 8 + n \<le> usize_max" using u16_max_less_usize_max by linarith
  ultimately show ?thesis
    by (auto simp: checked_rdos_def and_then_eq_Ok u16_try_from_eq_Some)
qed

lemma checked_rdos_no_panic [panic_free]: "checked_rdos n \<noteq> Panic"
  by (simp add: checked_rdos_def and_then_eq_Panic)

text \<open>What a configuration must allow for a tail of \<open>n\<close> bytes to be split into \<open>ranges\<close>.\<close>

definition split_ranges :: "split_config \<Rightarrow> usize \<Rightarrow> (usize \<times> usize \<times> bool) list \<Rightarrow> bool" where
  "split_ranges config n ranges \<longleftrightarrow>
     14 \<le> max_fragment_surplus_len config
     \<and> max_fragment_surplus_len config \<le> FRAGMENT_SURPLUS_LEN_MAX
     \<and> 8 + n \<le> unat (peer_max_reassembled_size (peer config))
     \<and> tiles (max_fragment_surplus_len config - 14) (max_fragment_surplus_len config - 12) 0 n ranges
     \<and> length ranges \<le> unat (peer_max_segments (peer config))"

lemma split_ranges_loop_Ok:
  assumes "tiles tcap ncap 0 (length tail) ranges" and "8 + length tail \<le> unat (w :: u16)"
  shows "fragment_loop tail atomic r ident ranges = Ok (map (fragment_of tail atomic r ident) ranges)"
proof (rule fragment_loop_Ok)
  have "8 + length tail \<le> u16_max" using assms(2) unat_u16_le_max [of w] by linarith
  then show "\<forall>(a, b, t) \<in> set ranges. a \<le> b \<and> b \<le> length tail \<and> 8 + a \<le> u16_max"
    using tiles_bounds [OF assms(1)] by fastforce
qed

lemma split_datagram_Ok:
  assumes "split_datagram payload body config = Ok frs"
  defines "tail \<equiv> reassembled_tail payload body"
  obtains r ranges where "unat r = 8 + length payload" "split_ranges config (length tail) ranges"
    "frs = map (fragment_of tail (length ranges = 1) r (split_identification config)) ranges"
proof -
  from assms(1) obtain r ranges where
    r: "checked_rdos (length payload) = Ok r" and
    m: "14 \<le> max_fragment_surplus_len config" "max_fragment_surplus_len config \<le> FRAGMENT_SURPLUS_LEN_MAX"
      "8 + length tail \<le> unat (peer_max_reassembled_size (peer config))"
      "length ranges \<le> unat (peer_max_segments (peer config))" and
    c: "chunk_ranges (length tail) (max_fragment_surplus_len config - 14)
      (max_fragment_surplus_len config - 12) 12 config = Ok ranges" and
    l: "fragment_loop tail (length ranges = 1) r (split_identification config) ranges = Ok frs"
    by (auto simp: split_datagram_def and_then_eq_Ok Let_def tail_def not_less split: if_splits)
  note t = chunk_ranges_tiles [OF c]
  with m have "split_ranges config (length tail) ranges" by (simp add: split_ranges_def)
  moreover have "frs = map (fragment_of tail (length ranges = 1) r (split_identification config)) ranges"
    using split_ranges_loop_Ok [OF t m(3)] l by simp
  ultimately show thesis using that r by (simp add: checked_rdos_Ok_iff)
qed

lemma split_datagram_no_panic [panic_free]: "split_datagram payload body config \<noteq> Panic"
proof
  assume "split_datagram payload body config = Panic"
  then obtain r ranges where
    m: "8 + length (reassembled_tail payload body) \<le> unat (peer_max_reassembled_size (peer config))" and
    c: "chunk_ranges (length (reassembled_tail payload body)) (max_fragment_surplus_len config - 14)
      (max_fragment_surplus_len config - 12) 12 config = Ok ranges" and
    l: "fragment_loop (reassembled_tail payload body) (length ranges = 1) r (split_identification config) ranges = Panic"
    by (auto simp: split_datagram_def and_then_eq_Panic Let_def not_less checked_rdos_no_panic
        chunk_ranges_no_panic split: if_splits)
  with split_ranges_loop_Ok [OF chunk_ranges_tiles [OF c] m] show False by simp
qed

section \<open>When splitting succeeds, and what it yields\<close>

text \<open>The number of chunks the loop makes of \<open>n\<close> bytes.\<close>

definition chunks_needed :: "usize \<Rightarrow> usize \<Rightarrow> usize \<Rightarrow> usize" where
  "chunks_needed tcap ncap n = Suc ((n - tcap + ncap - 1) div ncap)"

lemma chunk_loop_length:
  assumes "0 < ncap" and "chunk_loop tcap ncap start remaining ranges = Some (start', ranges')"
  shows "length ranges' = length ranges + (remaining - tcap + ncap - 1) div ncap"
  using assms
proof (induction remaining arbitrary: start ranges rule: less_induct)
  case (less remaining)
  show ?case
  proof (cases "remaining > tcap")
    case True
    let ?n = "min ncap (remaining - tcap)"
    have l: "chunk_loop tcap ncap (start + ?n) (remaining - ?n) (ranges @ [(start, start + ?n, False)]) = Some (start', ranges')"
      using less.prems(2) True by (subst (asm) chunk_loop.simps) (simp add: Let_def)
    have "remaining - ?n < remaining" using True less.prems(1) by simp
    then have "length ranges' = Suc (length ranges) + (remaining - ?n - tcap + ncap - 1) div ncap"
      using less.IH [OF _ less.prems(1) l] by simp
    moreover have "(remaining - tcap + ncap - 1) div ncap = Suc ((remaining - ?n - tcap + ncap - 1) div ncap)"
    proof (cases "ncap \<le> remaining - tcap")
      case True
      then have e: "remaining - tcap + ncap - 1 = (remaining - ?n - tcap + ncap - 1) + ncap" using less.prems(1) by auto
      show ?thesis unfolding e using less.prems(1) by (simp only: div_add_self2)
    next
      case False
      then have e: "remaining - tcap + ncap - 1 = (remaining - tcap - 1) + ncap" "remaining - ?n - tcap + ncap - 1 = ncap - 1"
        using True less.prems(1) by auto
      have "(remaining - tcap - 1) div ncap = 0" "(ncap - 1) div ncap = 0" using False less.prems(1) by auto
      then show ?thesis unfolding e using less.prems(1) by (simp only: div_add_self2)
    qed
    ultimately show ?thesis by simp
  next
    case False
    then show ?thesis using less.prems by (subst (asm) chunk_loop.simps) simp
  qed
qed

lemma chunk_ranges_length:
  assumes "chunk_ranges n tcap ncap blen config = Ok ranges"
  shows "length ranges = chunks_needed tcap ncap n"
proof (cases "n \<le> tcap")
  case True
  then show ?thesis using assms by (cases ncap) (auto simp: chunk_ranges_def chunks_needed_def)
next
  case False
  with assms obtain start rs where "0 < ncap" "chunk_loop tcap ncap 0 n [] = Some (start, rs)" "ranges = rs @ [(start, n, True)]"
    by (auto simp: chunk_ranges_def expect_some_def and_then_eq_Ok split: if_splits option.splits)
  then show ?thesis using chunk_loop_length [of ncap tcap 0 n "[]" start rs] by (simp add: chunks_needed_def)
qed

text \<open>When a datagram can be split.\<close>

definition split_fits :: "bytes \<Rightarrow> bytes \<Rightarrow> split_config \<Rightarrow> bool" where
  "split_fits payload body config \<longleftrightarrow>
     (let m = max_fragment_surplus_len config; n = length (reassembled_tail payload body) in
      (body = [] \<or> 2 \<le> length body) \<and> 14 \<le> m \<and> m \<le> FRAGMENT_SURPLUS_LEN_MAX
      \<and> 8 + n \<le> unat (peer_max_reassembled_size (peer config))
      \<and> chunks_needed (m - 14) (m - 12) n \<le> unat (peer_max_segments (peer config)))"

lemma split_datagram_fits:
  assumes "split_fits payload body config"
  shows "\<exists>frs. split_datagram payload body config = Ok frs"
proof -
  let ?m = "max_fragment_surplus_len config" and ?n = "length (reassembled_tail payload body)"
  have m: "body = [] \<or> 2 \<le> length body" "14 \<le> ?m" "?m \<le> FRAGMENT_SURPLUS_LEN_MAX"
    "8 + ?n \<le> unat (peer_max_reassembled_size (peer config))"
    "chunks_needed (?m - 14) (?m - 12) ?n \<le> unat (peer_max_segments (peer config))"
    using assms by (auto simp: split_fits_def Let_def)
  obtain ranges where c: "chunk_ranges ?n (?m - 14) (?m - 12) 12 config = Ok ranges"
    using chunk_ranges_Ok [of ?n "?m - 14" "?m - 12"] m(2) by auto
  have "8 + length payload \<le> u16_max"
    using order_trans [OF m(4) unat_u16_le_max] by (simp add: reassembled_tail_def Let_def)
  then obtain r where "checked_rdos (length payload) = Ok r"
    using checked_rdos_Ok_iff [of "length payload" "word_of_nat (8 + length payload)"]
    by (auto simp: unat_of_nat_u16 simp del: of_nat_add)
  then show ?thesis
    using m c chunk_ranges_length [OF c] split_ranges_loop_Ok [OF chunk_ranges_tiles [OF c] m(4)]
    by (auto simp: split_datagram_def Let_def length_defs not_less)
qed

lemma split_datagram_Ok_fits:
  assumes "split_datagram payload body config = Ok frs"
  shows "split_fits payload body config"
    and "length frs = chunks_needed (max_fragment_surplus_len config - 14) (max_fragment_surplus_len config - 12)
      (length (reassembled_tail payload body))"
proof -
  let ?m = "max_fragment_surplus_len config" and ?n = "length (reassembled_tail payload body)"
  obtain r ranges where
    b: "body = [] \<or> 2 \<le> length body" "14 \<le> ?m" "?m \<le> FRAGMENT_SURPLUS_LEN_MAX"
      "8 + ?n \<le> unat (peer_max_reassembled_size (peer config))"
      "length ranges \<le> unat (peer_max_segments (peer config))" and
    c: "chunk_ranges ?n (?m - 14) (?m - 12) 12 config = Ok ranges" and
    l: "fragment_loop (reassembled_tail payload body) (length ranges = 1) r (split_identification config) ranges = Ok frs"
    using assms by (auto simp: split_datagram_def and_then_eq_Ok Let_def not_less length_defs split: if_splits)
  show "split_fits payload body config" using b chunk_ranges_length [OF c] by (simp add: split_fits_def Let_def)
  show "length frs = chunks_needed (?m - 14) (?m - 12) ?n"
    using l split_ranges_loop_Ok [OF chunk_ranges_tiles [OF c] b(4)] chunk_ranges_length [OF c] by auto
qed

lemma tiles_start:
  "tiles tcap ncap s e ranges \<Longrightarrow> i < length ranges \<Longrightarrow>
     fst (ranges ! i) = s + sum_list (map (\<lambda>(a, b, t). b - a) (take i ranges))"
proof (induction tcap ncap s e ranges arbitrary: i rule: tiles.induct)
  case (3 tcap ncap s e a b t r rs)
  then show ?case by (cases i) (auto split: prod.splits)
qed auto

definition carried_data :: "fragment \<Rightarrow> bytes" where
  "carried_data fr = drop (fragment_options_body_len (fr_rdos fr)) (fr_surplus_body fr)"

lemma fragment_of_simps:
  "fr_terminal (fragment_of tail atomic r ident (a, b, t)) = t"
  "length (fr_surplus_body (fragment_of tail atomic r ident (a, b, t))) =
     (if t then 14 else 12) + min (length tail - a) (b - a)"
  by (simp_all add: fragment_of_def Let_def)

lemma fragment_of_atomic: "fr_frag_offset (fragment_of tail True r ident x) = 0"
  by (simp add: fragment_of_def Let_def split: prod.split)

lemma carried_data_of: "carried_data (fragment_of tail atomic r ident (a, b, t)) = take (b - a) (drop a tail)"
  by (simp add: carried_data_def fragment_of_def Let_def)

lemma tiles_data:
  assumes "tiles tcap ncap 0 (length tail) ranges"
  shows "concat (map (carried_data \<circ> fragment_of tail atomic r ident) ranges) = tail"
proof -
  have "carried_data \<circ> fragment_of tail atomic r ident = (\<lambda>(a, b, t). take (b - a) (drop a tail))"
    by (auto simp: carried_data_of)
  then show ?thesis using tiles_concat [OF assms, of tail] by simp
qed

lemma tiles_offset:
  assumes "tiles tcap ncap 0 (length tail) ranges" and "8 + length tail \<le> u16_max" and "i < length ranges"
  shows "unat (fr_frag_offset (fragment_of tail False r ident (ranges ! i))) =
    8 + length (concat (map (carried_data \<circ> fragment_of tail False r ident) (take i ranges)))"
proof -
  obtain a b t where x: "ranges ! i = (a, b, t)" by (cases "ranges ! i")
  have mem: "(a, b, t) \<in> set ranges" using assms(3) x by (metis nth_mem)
  have "length ((carried_data \<circ> fragment_of tail False r ident) x) = (case x of (a, b, t) \<Rightarrow> b - a)"
    if "x \<in> set (take i ranges)" for x
  proof -
    obtain a b t where x: "x = (a, b, t)" by (cases x)
    have "(a, b, t) \<in> set ranges" using in_set_takeD [OF that] x by simp
    then show ?thesis using tiles_bounds [OF assms(1), of a b t] by (auto simp: x carried_data_of min_def)
  qed
  then have "map (length \<circ> (carried_data \<circ> fragment_of tail False r ident)) (take i ranges) =
      map (\<lambda>(a, b, t). b - a) (take i ranges)"
    by (intro map_cong) auto
  then have "length (concat (map (carried_data \<circ> fragment_of tail False r ident) (take i ranges))) = a"
    using tiles_start [OF assms(1,3)] x by (simp add: length_concat del: map_eq_conv)
  moreover have "8 + a \<le> u16_max" using tiles_bounds [OF assms(1) mem] assms(2) by simp
  ultimately show ?thesis
    by (simp add: x fragment_of_def Let_def unat_of_nat_u16 del: of_nat_add)
qed

text \<open>
  C8: Splitting loses nothing: the data of the fragments, in order, is the reassembled tail (user data, pad and
  options). Every fragment fits the configured surplus, only the last is terminal, a single fragment is
  atomic (offset 0) and otherwise each offset is 8 plus the number of bytes before the fragment.
\<close>

theorem split_datagram_partitions:
  assumes "split_datagram payload body config = Ok frs"
  shows "concat (map carried_data frs) = reassembled_tail payload body
    \<and> map fr_terminal frs = replicate (length frs - 1) False @ [True]
    \<and> (\<forall>fr \<in> set frs. length (fr_surplus_body fr) \<le> max_fragment_surplus_len config)
    \<and> (\<forall>i < length frs. unat (fr_frag_offset (frs ! i)) =
         (if length frs = 1 then 0 else 8 + length (concat (map carried_data (take i frs)))))"
proof -
  let ?tail = "reassembled_tail payload body"
  obtain r ranges where sr: "split_ranges config (length ?tail) ranges"
    and frs: "frs = map (fragment_of ?tail (length ranges = 1) r (split_identification config)) ranges"
    using split_datagram_Ok [OF assms] by blast
  have t: "tiles (max_fragment_surplus_len config - 14) (max_fragment_surplus_len config - 12) 0 (length ?tail) ranges"
    and len: "8 + length ?tail \<le> u16_max" and m: "14 \<le> max_fragment_surplus_len config"
    using sr order_trans [OF _ unat_u16_le_max] by (auto simp: split_ranges_def)
  have "map fr_terminal frs = map (snd \<circ> snd) ranges" by (auto simp: frs fragment_of_simps)
  moreover have "length (fr_surplus_body fr) \<le> max_fragment_surplus_len config" if "fr \<in> set frs" for fr
  proof -
    obtain a b t where x: "(a, b, t) \<in> set ranges"
      "fr = fragment_of ?tail (length ranges = 1) r (split_identification config) (a, b, t)"
      using \<open>fr \<in> set frs\<close> frs by auto
    then show ?thesis using tiles_bounds [OF t x(1)] m by (auto simp: fragment_of_simps split: if_splits)
  qed
  moreover have "unat (fr_frag_offset (frs ! i)) =
      (if length frs = 1 then 0 else 8 + length (concat (map carried_data (take i frs))))" if "i < length frs" for i
    using that tiles_offset [OF t len, of i] by (cases "length ranges = 1") (simp_all add: frs take_map fragment_of_atomic)
  ultimately show ?thesis using tiles_data [OF t] tiles_terminal_iff [OF t] by (simp add: frs)
qed

theorem split_datagram_partitions_witness:
  "\<exists>frs. split_datagram [1, 2, 3] [] \<lparr>max_fragment_surplus_len = 15, peer = \<lparr>peer_max_reassembled_size = 1500, peer_max_segments = 4\<rparr>,
       split_identification = 9\<rparr> = Ok frs \<and> length frs = 2 \<and> concat (map carried_data frs) = [1, 2, 3]"
proof -
  let ?c = "\<lparr>max_fragment_surplus_len = 15, peer = \<lparr>peer_max_reassembled_size = 1500, peer_max_segments = 4\<rparr>,
       split_identification = 9\<rparr> :: split_config"
  have "split_fits [1, 2, 3] [] ?c"
    by (simp add: split_fits_def reassembled_tail_def chunks_needed_def FRAGMENT_SURPLUS_LEN_MAX_def
        IPV4_HEADER_LEN_def u16_max_def length_defs)
  then obtain frs where "split_datagram [1, 2, 3] [] ?c = Ok frs" using split_datagram_fits by blast
  then show ?thesis
    using split_datagram_partitions [of "[1, 2, 3]" "[]" ?c frs] split_datagram_Ok_fits(2) [of "[1, 2, 3]" "[]" ?c frs]
    by (simp add: reassembled_tail_def chunks_needed_def)
qed

text \<open>
  C24: Splitting never panics, and it succeeds exactly when the options body is empty or holds an OCS, the
  surplus of a fragment fits a terminal fragment and an IPv4 datagram, and the peer accepts both the size
  of the reassembled datagram and the number of fragments.
\<close>

theorem split_datagram_outcome:
  "split_datagram payload body config \<noteq> Panic
   \<and> ((\<exists>frs. split_datagram payload body config = Ok frs) \<longleftrightarrow> split_fits payload body config)"
  using split_datagram_fits split_datagram_Ok_fits(1) split_datagram_no_panic by blast

lemma chunk_loop_done: "remaining \<le> tcap \<Longrightarrow> chunk_loop tcap ncap start remaining ranges = Some (start, ranges)"
  by (subst chunk_loop.simps) simp

lemma chunk_loop_stuck:
  assumes "chunk_loop tcap ncap start remaining ranges = Some r"
  shows "remaining \<le> tcap \<or> 0 < ncap"
  by (rule chunk_loop.raw_induct [OF _ assms, of "\<lambda>tcap ncap start remaining ranges r. remaining \<le> tcap \<or> 0 < ncap"])
    (auto simp: Let_def split: if_splits, metis bot_nat_0.not_eq_extremum diff_zero min_0L not_le)

text \<open>
  C25: The chunking loop returns exactly when there is nothing to chunk or a non-terminal fragment has room
  for data, which is what the check before the loop requires; it then makes the number of chunks that the
  capacities need.
\<close>

theorem chunk_loop_terminates:
  "(if n \<le> tcap \<or> 0 < ncap
    then \<exists>start ranges. chunk_loop tcap ncap 0 n [] = Some (start, ranges)
           \<and> length ranges + 1 = chunks_needed tcap ncap n
    else chunk_loop tcap ncap 0 n [] = None)"
proof (cases "0 < ncap")
  case True
  then show ?thesis
    using chunk_loop_returns [OF True, of tcap 0 n "[]"] chunk_loop_length [OF True, of tcap 0 n "[]"]
    by (auto simp: chunks_needed_def)
next
  case False
  then show ?thesis
    using chunk_loop_stuck [of tcap ncap 0 n "[]"]
    by (cases "chunk_loop tcap ncap 0 n []") (auto simp: chunk_loop_done chunks_needed_def)
qed

text \<open>
  C28: A generator started at a seed hands out the seed and its successors, each once, up to the last
  32-bit value, and from then on only reports that the identifications are exhausted: it never wraps.
\<close>

theorem next_id_sequence:
  "fst (next_id (((\<lambda>g. snd (next_id g)) ^^ n) (generator_new seed))) =
     (if unat seed + n < 2 ^ 32 then Ok (seed + word_of_nat n) else Err IdentificationExhausted)"
proof -
  have "((\<lambda>g. snd (next_id g)) ^^ n) (generator_new seed) =
      \<lparr>next_value = (if unat seed + n < 2 ^ 32 then Some (seed + word_of_nat n) else None)\<rparr>"
  proof (induction n)
    case 0
    then show ?case using unsigned_less [of seed] by (simp add: generator_new_def)
  next
    case (Suc n)
    have "seed + word_of_nat n = - 1 \<longleftrightarrow> unat seed + n = 2 ^ 32 - 1" if "unat seed + n < 2 ^ 32"
    proof -
      have "unat (word_of_nat (unat seed + n) :: u32) = unat seed + n"
        using that by (simp add: unat_of_nat take_bit_nat_eq_self del: of_nat_add)
      then have "unat (seed + word_of_nat n) = unat seed + n" by simp
      moreover have "unat (- 1 :: u32) = 2 ^ 32 - 1" by (simp add: unsigned_minus_1_eq_mask mask_eq_exp_minus_1)
      ultimately show ?thesis by (metis word_unat_eq_iff)
    qed
    then show ?case using Suc by (auto simp: next_id_def u32_checked_succ_def)
  qed
  then show ?thesis by (simp add: next_id_def)
qed

end
