(* ===== verification/Checksum.thy ===== *)
theory Checksum
  imports Prelude
begin

text \<open>
  The one's-complement Internet checksum (\<open>src/wire/checksum.rs\<close>): the \<open>Checksum\<close> accumulator with
  its 32-bit running sum, the operations \<open>add_u16\<close>, \<open>add_slice\<close>, \<open>sum\<close> and \<open>finish\<close>, and the
  one-shot \<open>internet_checksum\<close>. The accumulator is related to a reference that adds all 16-bit words
  as natural numbers and folds once at the end; the contract its clients rely on is the locale
  \<open>ones_accumulator\<close>.
\<close>

section \<open>The accumulator\<close>

record checksum =
  cs_sum :: u32

definition checksum_new :: checksum where
  "checksum_new = \<lparr>cs_sum = 0\<rparr>"

definition add_u16 :: "checksum \<Rightarrow> u16 \<Rightarrow> checksum" where
  "add_u16 c v =
     (let s = cs_sum c + ucast v
      in c\<lparr>cs_sum := (s AND 0xffff) + drop_bit 16 s\<rparr>)"

fun add_slice :: "checksum \<Rightarrow> bytes \<Rightarrow> checksum" where
  "add_slice c (a # b # rest) = add_slice (add_u16 c (u16_from_be_bytes a b)) rest"
| "add_slice c [a] = add_u16 c (u16_from_be_bytes a 0)"
| "add_slice c [] = c"

text \<open>The loop of \<open>Checksum::sum\<close>: fold while the upper half is not zero.\<close>

lemma unat_fold_step:
  "unat ((s AND 0xffff) + drop_bit 16 s :: u32) = unat s mod 65536 + unat s div 65536"
proof -
  have mask: "(0xffff :: u32) = mask 16" by (simp add: mask_eq_exp_minus_1)
  have "unat (s AND 0xffff) = unat s mod 65536"
    unfolding mask by (simp add: unat_mod_distrib take_bit_eq_mod flip: take_bit_eq_mask)
  moreover have "unat s div 65536 < 65536"
    using unat_u32_less [of s] by (simp add: less_mult_imp_div_less)
  ultimately show ?thesis by (simp add: unat_word_ariths unat_drop_bit)
qed

lemma fold_step_decreases:
  assumes "drop_bit 16 s \<noteq> (0 :: u32)"
  shows "unat ((s AND 0xffff) + drop_bit 16 s) < unat s"
proof -
  have "unat s div 65536 \<noteq> 0"
    using assms by (simp add: word_unat_eq_iff unat_drop_bit)
  moreover have "unat s = 65536 * (unat s div 65536) + unat s mod 65536" by simp
  ultimately show ?thesis unfolding unat_fold_step by linarith
qed

function fold_sum :: "u32 \<Rightarrow> u32" where
  "fold_sum s = (if drop_bit 16 s \<noteq> 0 then fold_sum ((s AND 0xffff) + drop_bit 16 s) else s)"
  by pat_completeness auto
termination
  by (relation "measure unat") (auto simp: fold_step_decreases)

declare fold_sum.simps [simp del]

definition checksum_sum :: "checksum \<Rightarrow> u16" where
  "checksum_sum c = ucast (fold_sum (cs_sum c))"

definition checksum_finish :: "checksum \<Rightarrow> u16" where
  "checksum_finish c = NOT (checksum_sum c)"

definition internet_checksum :: "bytes \<Rightarrow> u16" where
  "internet_checksum bs = checksum_finish (add_slice checksum_new bs)"

section \<open>The reference sum\<close>

text \<open>
  The 16-bit big-endian words of a region (a trailing odd byte is the high byte of a last word),
  their sum as a natural number, and the one's-complement reading of a natural number.
\<close>

fun be_words :: "bytes \<Rightarrow> u16 list" where
  "be_words (a # b # rest) = u16_from_be_bytes a b # be_words rest"
| "be_words [a] = [u16_from_be_bytes a 0]"
| "be_words [] = []"

definition words_total :: "bytes \<Rightarrow> nat" where
  "words_total bs = sum_list (map unat (be_words bs))"

definition ones_fold :: "nat \<Rightarrow> nat" where
  "ones_fold n = (if n = 0 then 0 else (n - 1) mod 65535 + 1)"

section \<open>Arithmetic of the fold\<close>

lemma ones_fold_less [simp]: "ones_fold n < 65536"
  by (simp add: ones_fold_def less_Suc_eq_le mod_less_eq_dividend flip: less_Suc_eq_le)

lemma ones_fold_small [simp]: "n < 65536 \<Longrightarrow> ones_fold n = n"
  by (simp add: ones_fold_def)

lemma ones_fold_eq_0 [simp]: "ones_fold n = 0 \<longleftrightarrow> n = 0"
  by (simp add: ones_fold_def)

lemma ones_fold_mod: "ones_fold n mod 65535 = n mod 65535"
proof (cases n)
  case (Suc m)
  then show ?thesis by (simp add: ones_fold_def mod_Suc_eq)
qed (simp add: ones_fold_def)

lemma ones_fold_eq_iff:
  "ones_fold m = ones_fold n \<longleftrightarrow> (m = 0 \<longleftrightarrow> n = 0) \<and> m mod 65535 = n mod 65535"
proof
  assume "ones_fold m = ones_fold n"
  then show "(m = 0 \<longleftrightarrow> n = 0) \<and> m mod 65535 = n mod 65535"
    by (metis ones_fold_eq_0 ones_fold_mod)
next
  assume *: "(m = 0 \<longleftrightarrow> n = 0) \<and> m mod 65535 = n mod 65535"
  show "ones_fold m = ones_fold n"
  proof (cases "m = 0")
    case False
    with * obtain a b where "m = Suc a" "n = Suc b" by (metis not0_implies_Suc)
    with * show ?thesis by (auto simp: ones_fold_def mod_Suc split: if_splits)
  qed (use * in simp)
qed

lemma ones_fold_add: "ones_fold (ones_fold m + n) = ones_fold (m + n)"
  unfolding ones_fold_eq_iff by (metis add_is_0 mod_add_left_eq ones_fold_eq_0 ones_fold_mod)

lemma ones_fold_add_right: "ones_fold (n + ones_fold m) = ones_fold (n + m)"
  using ones_fold_add [of m n] by (simp add: add.commute)

lemma ones_fold_add_mid: "ones_fold (a + (ones_fold b + c)) = ones_fold (a + (b + c))"
  using ones_fold_add [of b "a + c"] by (simp add: ac_simps)

lemmas ones_fold_adds = ones_fold_add ones_fold_add_right ones_fold_add_mid

lemma ones_fold_eq_ones: "ones_fold n = 65535 \<longleftrightarrow> n \<noteq> 0 \<and> 65535 dvd n"
  using ones_fold_eq_iff [of n 65535] by (auto simp: mod_eq_0_iff_dvd)

lemma ones_fold_fold_step: "ones_fold (n mod 65536 + n div 65536) = ones_fold n"
proof -
  have "n = n mod 65536 + n div 65536 + 65535 * (n div 65536)" by simp
  then have "(n mod 65536 + n div 65536) mod 65535 = n mod 65535"
    by (metis mod_mult_self2)
  moreover have "n mod 65536 + n div 65536 = 0 \<longleftrightarrow> n = 0"
    by (metis add_is_0 div_mult_mod_eq mult_0 div_0 mod_0)
  ultimately show ?thesis by (simp add: ones_fold_eq_iff)
qed

section \<open>The contract of the accumulator\<close>

definition nonzero_or_ones :: "u16 \<Rightarrow> u16" where
  "nonzero_or_ones w = (if w = 0 then 0xffff else w)"

lemma unat_not_u16: "unat (NOT w :: u16) = 65535 - unat w"
proof -
  have "NOT w = (- 1) - w" by (simp add: not_eq_complement)
  moreover have "w \<le> - 1" by simp
  ultimately have "unat (NOT w) = unat (- 1 :: u16) - unat w" by (metis unat_sub)
  moreover have "unat (- 1 :: u16) = 65535"
    by (simp add: unsigned_minus_1_eq_mask mask_eq_exp_minus_1)
  ultimately show ?thesis by simp
qed

locale ones_accumulator =
  fixes inv :: "'c \<Rightarrow> bool"
    and val :: "'c \<Rightarrow> nat"
    and new :: "'c"
    and add16 :: "'c \<Rightarrow> u16 \<Rightarrow> 'c"
    and addb :: "'c \<Rightarrow> bytes \<Rightarrow> 'c"
    and total :: "'c \<Rightarrow> u16"
    and fin :: "'c \<Rightarrow> u16"
  assumes inv_new: "inv new"
    and val_new: "val new = 0"
    and inv_add16: "inv c \<Longrightarrow> inv (add16 c v)"
    and val_add16: "inv c \<Longrightarrow> val (add16 c v) = ones_fold (val c + unat v)"
    and inv_addb: "inv c \<Longrightarrow> inv (addb c bs)"
    and val_addb: "inv c \<Longrightarrow> val (addb c bs) = ones_fold (val c + words_total bs)"
    and total_val: "inv c \<Longrightarrow> unat (total c) = val c"
    and fin_total: "fin c = NOT (total c)"
begin

lemmas inv_laws = inv_new inv_add16 inv_addb
lemmas val_laws = val_new val_add16 val_addb

lemma unat_fin: "inv c \<Longrightarrow> unat (fin c) = 65535 - val c"
  by (simp add: fin_total unat_not_u16 total_val)

lemma val_le: "inv c \<Longrightarrow> val c \<le> 65535"
  using total_val [of c] unat_u16_less [of "total c"] by linarith

lemma accept_iff:
  assumes "inv c"
  shows "total (add16 c w) = 0xffff \<longleftrightarrow> w = fin c \<or> (w = 0xffff \<and> fin c = 0)"
proof -
  let ?v = "val c" and ?w = "unat w"
  have le: "?v \<le> 65535" "?w \<le> 65535"
    using val_le [OF assms] unat_u16_less [of w] by linarith+
  have "total (add16 c w) = 0xffff \<longleftrightarrow> ones_fold (?v + ?w) = 65535"
    using assms by (simp add: word_unat_eq_iff total_val val_add16 inv_add16)
  also have "\<dots> \<longleftrightarrow> ?v + ?w \<noteq> 0 \<and> 65535 dvd ?v + ?w"
    by (simp only: ones_fold_eq_ones)
  also have "\<dots> \<longleftrightarrow> ?v + ?w = 65535 \<or> ?v + ?w = 131070"
  proof
    assume *: "?v + ?w \<noteq> 0 \<and> 65535 dvd ?v + ?w"
    then obtain k where k: "?v + ?w = 65535 * k" by (auto elim: dvdE)
    with * le have "k = 1 \<or> k = 2" by (cases k) auto
    with k show "?v + ?w = 65535 \<or> ?v + ?w = 131070" by auto
  qed auto
  also have "\<dots> \<longleftrightarrow> w = fin c \<or> (w = 0xffff \<and> fin c = 0)"
    using le assms by (auto simp: word_unat_eq_iff unat_fin)
  finally show ?thesis .
qed

lemma accept_fin: "inv c \<Longrightarrow> total (add16 c (fin c)) = 0xffff"
  by (simp add: accept_iff)

lemma accept_nonzero_fin: "inv c \<Longrightarrow> total (add16 c (nonzero_or_ones (fin c))) = 0xffff"
  by (simp add: accept_iff nonzero_or_ones_def)

lemma add16_commute: "inv c \<Longrightarrow> total (add16 (add16 c a) b) = total (add16 (add16 c b) a)"
  by (simp add: word_unat_eq_iff total_val val_laws inv_laws ones_fold_add ones_fold_add_right ac_simps)

end

section \<open>The crate's accumulator meets the contract\<close>

definition checksum_inv :: "checksum \<Rightarrow> bool" where
  "checksum_inv c \<longleftrightarrow> unat (cs_sum c) \<le> 65536"

definition checksum_val :: "checksum \<Rightarrow> nat" where
  "checksum_val c = ones_fold (unat (cs_sum c))"

lemma unat_add_u16_sum:
  fixes v :: u16
  assumes "checksum_inv c"
  shows "unat (cs_sum c + ucast v) = unat (cs_sum c) + unat v"
proof -
  have "unat v < 4294967296" using unat_u16_less [of v] by linarith
  then have "unat (ucast v :: u32) = unat v" by (simp add: unsigned_ucast_eq take_bit_eq_mod)
  moreover have "unat (cs_sum c) + unat v < 4294967296"
    using assms unat_u16_less [of v] unfolding checksum_inv_def by linarith
  ultimately show ?thesis by (simp add: unat_word_ariths)
qed

lemma unat_cs_sum_add_u16:
  fixes v :: u16
  assumes "checksum_inv c"
  defines "s \<equiv> unat (cs_sum c) + unat v"
  shows "unat (cs_sum (add_u16 c v)) = s mod 65536 + s div 65536"
  using assms by (simp add: add_u16_def Let_def unat_fold_step unat_add_u16_sum)

lemma checksum_inv_new: "checksum_inv checksum_new" "checksum_val checksum_new = 0"
  by (simp_all add: checksum_inv_def checksum_val_def checksum_new_def)

lemma checksum_inv_add_u16:
  assumes "checksum_inv c"
  shows "checksum_inv (add_u16 c v)"
proof -
  have "(unat (cs_sum c) + unat v) div 65536 \<le> 1"
    using assms unat_u16_less [of v] unfolding checksum_inv_def by linarith
  moreover have "(unat (cs_sum c) + unat v) mod 65536 \<le> 65535"
    using mod_less_divisor [of 65536 "unat (cs_sum c) + unat v"] by linarith
  ultimately show ?thesis
    using assms by (simp add: checksum_inv_def [of "add_u16 c v"] unat_cs_sum_add_u16)
qed

lemma checksum_val_add_u16:
  "checksum_inv c \<Longrightarrow> checksum_val (add_u16 c v) = ones_fold (checksum_val c + unat v)"
  by (simp add: checksum_val_def unat_cs_sum_add_u16 ones_fold_fold_step ones_fold_add)

lemma words_total_simps [simp]:
  "words_total (a # b # rest) = unat (u16_from_be_bytes a b) + words_total rest"
  "words_total [a] = unat (u16_from_be_bytes a 0)"
  "words_total [] = 0"
  by (simp_all add: words_total_def)

lemma checksum_inv_val_add_slice:
  "checksum_inv c \<Longrightarrow>
     checksum_inv (add_slice c bs) \<and> checksum_val (add_slice c bs) = ones_fold (checksum_val c + words_total bs)"
proof (induction c bs rule: add_slice.induct)
  case (1 c a b rest)
  then show ?case
    by (simp add: checksum_inv_add_u16 checksum_val_add_u16 ones_fold_add ones_fold_add_right ac_simps)
next
  case (2 c a)
  then show ?case by (simp add: checksum_inv_add_u16 checksum_val_add_u16)
next
  case (3 c)
  then show ?case by (simp add: checksum_val_def)
qed

lemma fold_sum_value: "unat (fold_sum s) = ones_fold (unat s) \<and> unat (fold_sum s) < 65536"
proof (induction s rule: fold_sum.induct)
  case (1 s)
  show ?case
  proof (cases "drop_bit 16 s = 0")
    case True
    then have "unat s div 65536 = 0" by (simp add: word_unat_eq_iff unat_drop_bit)
    then have "unat s < 65536" by (simp add: div_eq_0_iff)
    with True show ?thesis by (simp add: fold_sum.simps [of s])
  next
    case False
    with 1 show ?thesis
      by (simp add: fold_sum.simps [of s] unat_fold_step ones_fold_fold_step)
  qed
qed

lemma unat_checksum_sum: "unat (checksum_sum c) = checksum_val c"
  using fold_sum_value [of "cs_sum c"]
  by (simp add: checksum_sum_def checksum_val_def unsigned_ucast_eq take_bit_eq_mod)

interpretation cs: ones_accumulator
  checksum_inv checksum_val checksum_new add_u16 add_slice checksum_sum checksum_finish
  by unfold_locales
    (simp_all add: checksum_inv_new checksum_inv_add_u16 checksum_val_add_u16
      checksum_inv_val_add_slice unat_checksum_sum checksum_finish_def)

section \<open>Regions\<close>

lemma be_words_append: "even (length xs) \<Longrightarrow> be_words (xs @ ys) = be_words xs @ be_words ys"
  by (induction xs rule: be_words.induct) auto

lemma words_total_append: "even (length xs) \<Longrightarrow> words_total (xs @ ys) = words_total xs + words_total ys"
  by (simp add: words_total_def be_words_append)

lemma words_total_u16 [simp]: "words_total (u16_to_be_bytes w) = unat w"
  by (simp add: u16_to_be_bytes_def)

lemma unat_internet_checksum: "unat (internet_checksum bs) = 65535 - ones_fold (words_total bs)"
  by (simp add: internet_checksum_def cs.unat_fin cs.val_laws cs.inv_laws)

lemma internet_checksum_eq_0_iff: "internet_checksum bs = 0 \<longleftrightarrow> ones_fold (words_total bs) = 65535"
  using ones_fold_less [of "words_total bs"]
  by (simp only: word_unat_eq_iff unat_internet_checksum unsigned_0) linarith

text \<open>A region summed together with its own stored checksum reads as zero.\<close>

lemma ones_fold_with_checksum: "ones_fold (words_total bs + unat (internet_checksum bs)) = 65535"
proof -
  have "ones_fold (words_total bs) + unat (internet_checksum bs) = 65535"
    using ones_fold_less [of "words_total bs"] unfolding unat_internet_checksum by linarith
  then have "ones_fold (ones_fold (words_total bs) + unat (internet_checksum bs)) = 65535" by simp
  then show ?thesis by (simp add: ones_fold_add)
qed

text \<open>
  C36: the accumulator computes the one's-complement fold of the exact sum of the 16-bit words: the
  running 32-bit sum never overflows and eager folding loses nothing.
\<close>

theorem checksum_equals_reference:
  "unat (checksum_sum (add_slice checksum_new bs)) = ones_fold (words_total bs)"
  by (simp add: cs.total_val cs.val_laws cs.inv_laws)

end
