(* ===== verification/Ip_Header.thy ===== *)
theory Ip_Header
  imports Checksum Limits Errors
begin

text \<open>
  IPv4 header parsing and building (\<open>src/wire/ip.rs\<close>): \<open>IpRepr\<close>, \<open>parse\<close>, \<open>parse_v4\<close>, \<open>write\<close>,
  \<open>header_len\<close>, \<open>transport_payload_len\<close> and \<open>pseudo_header_sum\<close>.
\<close>

section \<open>The header\<close>

datatype ipv4_addr = Ipv4Addr byte byte byte byte

fun octets :: "ipv4_addr \<Rightarrow> bytes" where
  "octets (Ipv4Addr a b c d) = [a, b, c, d]"

record ip_repr =
  ip_src :: ipv4_addr
  ip_dst :: ipv4_addr
  ihl :: byte
  total_len :: u16

definition IPPROTO_UDP :: byte where "IPPROTO_UDP = 17"
definition IPV4_MIN_HEADER_LEN :: usize where "IPV4_MIN_HEADER_LEN = 20"
definition DEFAULT_TTL :: byte where "DEFAULT_TTL = 64"

definition header_len :: "ip_repr \<Rightarrow> usize" where
  "header_len ip = unat (ihl ip) * 4"

definition transport_payload_len :: "ip_repr \<Rightarrow> usize" where
  "transport_payload_len ip = unat (total_len ip) - unat (ihl ip) * 4"

text \<open>\<open>Ipv4Addr::from(<[u8; 4]>::try_from(..).expect(..))\<close>\<close>

fun addr_from_slice :: "bytes \<Rightarrow> (ipv4_addr, 'e) res" where
  "addr_from_slice [a, b, c, d] = Ok (Ipv4Addr a b c d)"
| "addr_from_slice _ = Panic"

definition parse_v4 :: "bytes \<Rightarrow> (ip_repr \<times> usize, header_error) res" where
  "parse_v4 bs =
     (if length bs < IPV4_MIN_HEADER_LEN then Err (IpTruncated IPV4_MIN_HEADER_LEN (length bs)) else
      and_then (idx bs 0) (\<lambda>b0.
      let i = b0 AND 0x0f in
      if i < 5 then Err (BadIhl i) else
      let hlen = unat i * 4 in
      if length bs < hlen then Err (IpTruncated hlen (length bs)) else
      and_then (idx bs 2) (\<lambda>b2. and_then (idx bs 3) (\<lambda>b3.
      let tlen = u16_from_be_bytes b2 b3 in
      if unat tlen < hlen \<or> unat tlen > length bs then Err (BadIpLength tlen) else
      and_then (idx bs 9) (\<lambda>proto.
      if proto \<noteq> IPPROTO_UDP then Err (UnexpectedProtocol proto) else
      and_then (slice bs 0 hlen) (\<lambda>hdr.
      if internet_checksum hdr \<noteq> 0 then Err IpChecksumMismatch else
      and_then (slice bs 12 16) (\<lambda>s. and_then (addr_from_slice s) (\<lambda>src.
      and_then (slice bs 16 20) (\<lambda>d. and_then (addr_from_slice d) (\<lambda>dst.
      Ok (\<lparr>ip_src = src, ip_dst = dst, ihl = i, total_len = tlen\<rparr>, hlen)))))))))))"

definition ip_parse :: "bytes \<Rightarrow> (ip_repr \<times> usize, header_error) res" where
  "ip_parse bs =
     (case bs of
        [] \<Rightarrow> Err (IpTruncated 1 0)
      | version_octet # _ \<Rightarrow>
          (if drop_bit 4 version_octet = 4 then parse_v4 bs
           else Err (UnsupportedVersion (drop_bit 4 version_octet))))"

text \<open>
  \<open>write\<close> fills the first 20 bytes of its buffer; the buffer is returned with them replaced.
\<close>

definition ip_write :: "ip_repr \<Rightarrow> bytes \<Rightarrow> (bytes, 'e) res" where
  "ip_write ip buf =
     and_then (assert_that (ihl ip = 5)) (\<lambda>_.
     and_then (slice buf 0 IPV4_MIN_HEADER_LEN) (\<lambda>old.
     let out = replicate (length old) 0;
         out = out[0 := 0x45] in
     and_then (put_slice out 2 (u16_to_be_bytes (total_len ip))) (\<lambda>out.
     let out = out[8 := DEFAULT_TTL, 9 := IPPROTO_UDP] in
     and_then (put_slice out 12 (octets (ip_src ip))) (\<lambda>out.
     and_then (put_slice out 16 (octets (ip_dst ip))) (\<lambda>out.
     and_then (put_slice out 10 (u16_to_be_bytes (internet_checksum out))) (\<lambda>out.
     put_slice buf 0 out))))))"

definition pseudo_header_sum :: "ip_repr \<Rightarrow> u16 \<Rightarrow> checksum" where
  "pseudo_header_sum ip udp_len =
     add_u16 (add_u16
       (add_slice (add_slice checksum_new (octets (ip_src ip))) (octets (ip_dst ip)))
       (ucast IPPROTO_UDP)) udp_len"

section \<open>The written header\<close>

definition ip_header_prefix :: "ip_repr \<Rightarrow> bytes" where
  "ip_header_prefix ip = [0x45, 0] @ u16_to_be_bytes (total_len ip) @ [0, 0, 0, 0, DEFAULT_TTL, IPPROTO_UDP]"

definition ip_header_addrs :: "ip_repr \<Rightarrow> bytes" where
  "ip_header_addrs ip = octets (ip_src ip) @ octets (ip_dst ip)"

definition ip_header_bytes :: "ip_repr \<Rightarrow> bytes" where
  "ip_header_bytes ip =
     ip_header_prefix ip
     @ u16_to_be_bytes (internet_checksum (ip_header_prefix ip @ [0, 0] @ ip_header_addrs ip))
     @ ip_header_addrs ip"

lemma length_octets [simp, wire_simps]: "length (octets a) = 4"
  by (cases a) simp

lemma length_ip_header_prefix [simp, wire_simps]: "length (ip_header_prefix ip) = 10"
  by (simp add: ip_header_prefix_def)

lemma length_ip_header_addrs [simp, wire_simps]: "length (ip_header_addrs ip) = 8"
  by (simp add: ip_header_addrs_def)

lemma length_ip_header_bytes [simp, wire_simps]: "length (ip_header_bytes ip) = 20"
  by (simp add: ip_header_bytes_def)

lemma ip_write_Ok:
  assumes "ihl ip = 5" and "20 \<le> length buf"
  shows "ip_write ip buf = Ok (ip_header_bytes ip @ drop 20 buf)"
proof (cases "ip_src ip"; cases "ip_dst ip")
  fix s1 s2 s3 s4 d1 d2 d3 d4
  assume a: "ip_src ip = Ipv4Addr s1 s2 s3 s4" "ip_dst ip = Ipv4Addr d1 d2 d3 d4"
  have r: "replicate 20 (0 :: byte) = [0,0,0,0,0,0,0,0,0,0,0,0,0,0,0,0,0,0,0,0]"
    "replicate 16 (0 :: byte) = [0,0,0,0,0,0,0,0,0,0,0,0,0,0,0,0]"
    by (simp_all add: numeral_eq_Suc)
  show ?thesis
    using assms
    by (simp add: ip_write_def IPV4_MIN_HEADER_LEN_def min_def r a u16_to_be_bytes_def Let_def
        ip_header_bytes_def ip_header_prefix_def ip_header_addrs_def)
qed

lemma ip_header_bytes_sum: "internet_checksum (ip_header_bytes ip) = 0"
proof -
  let ?z = "ip_header_prefix ip @ [0, 0] @ ip_header_addrs ip"
  have "words_total (ip_header_bytes ip) = words_total ?z + unat (internet_checksum ?z)"
    by (simp add: ip_header_bytes_def words_total_append unat_u16_from_be_bytes)
  then show ?thesis by (simp only: internet_checksum_eq_0_iff ones_fold_with_checksum)
qed

section \<open>Parsing\<close>

lemma ihl_bounds: "unat (b AND 0x0f :: byte) < 16"
proof -
  have "(0x0f :: byte) = mask 4" by (simp add: mask_eq_exp_minus_1)
  then have "unat (b AND 0x0f) = unat b mod 16"
    by (simp only: flip: take_bit_eq_mask) (simp add: unat_mod_distrib take_bit_eq_mod)
  then show ?thesis by simp
qed

lemma addr_from_slice_four:
  "length s = 4 \<Longrightarrow> addr_from_slice s = Ok (Ipv4Addr (s ! 0) (s ! 1) (s ! 2) (s ! 3))"
  by (auto simp: numeral_eq_Suc length_Suc_conv)

lemma parse_v4_no_panic [panic_free]: "parse_v4 bs \<noteq> Panic"
  by (auto simp: parse_v4_def IPV4_MIN_HEADER_LEN_def Let_def addr_from_slice_four panic_iffs ok_iffs
      word_less_nat_alt split: if_splits)

lemma ip_parse_no_panic [panic_free]: "ip_parse bs \<noteq> Panic"
  by (simp add: ip_parse_def parse_v4_no_panic split: list.split)

lemma parse_v4_Ok_D:
  assumes "parse_v4 bs = Ok (ip, at)"
  shows "at = header_len ip" "20 \<le> at" "at \<le> unat (total_len ip)" "unat (total_len ip) \<le> length bs"
  using assms
  by (auto simp: parse_v4_def IPV4_MIN_HEADER_LEN_def Let_def header_len_def ok_iffs
      word_less_nat_alt split: if_splits)

lemma ip_parse_Ok_D:
  assumes "ip_parse bs = Ok (ip, at)"
  shows "at = header_len ip" "20 \<le> at" "at \<le> unat (total_len ip)" "unat (total_len ip) \<le> length bs"
  using assms parse_v4_Ok_D [of bs ip at]
  by (auto simp: ip_parse_def split: list.splits if_splits)

lemma ip_parse_written:
  assumes "ihl ip = 5" and "20 \<le> unat (total_len ip)" and "unat (total_len ip) \<le> 20 + length rest"
  shows "ip_parse (ip_header_bytes ip @ rest) = Ok (ip, 20)"
proof (cases "ip_src ip"; cases "ip_dst ip")
  fix s1 s2 s3 s4 d1 d2 d3 d4
  assume a: "ip_src ip = Ipv4Addr s1 s2 s3 s4" "ip_dst ip = Ipv4Addr d1 d2 d3 d4"
  obtain c1 c2 where h: "ip_header_bytes ip = [0x45, 0, ucast (drop_bit 8 (total_len ip)), ucast (total_len ip),
      0, 0, 0, 0, DEFAULT_TTL, IPPROTO_UDP, c1, c2, s1, s2, s3, s4, d1, d2, d3, d4]"
    by (simp add: ip_header_bytes_def ip_header_prefix_def ip_header_addrs_def u16_to_be_bytes_def a)
  have "ip = \<lparr>ip_src = Ipv4Addr s1 s2 s3 s4, ip_dst = Ipv4Addr d1 d2 d3 d4, ihl = 5, total_len = total_len ip\<rparr>"
    using assms(1) a by (cases ip) simp
  then show ?thesis
    using assms ip_header_bytes_sum [of ip] unfolding h
    by (simp add: ip_parse_def parse_v4_def IPV4_MIN_HEADER_LEN_def Let_def nth_append)
qed

section \<open>Properties\<close>

text \<open>
  C38: The IPv4 header codec. Writing a header without options fills twenty bytes whose Internet checksum verifies and
  leaves the rest of the buffer alone, and parsing these bytes in front of a long enough rest returns the same
  addresses and lengths. Parsing never panics, whatever the bytes, and an accepted header is consistent: the transport
  offset is the header length, at least twenty, within the Total Length, which is within the bytes.
\<close>

theorem ip_header_codec:
  assumes "ihl ip = 5" and "20 \<le> length buf" and "20 \<le> unat (total_len ip)" and "unat (total_len ip) \<le> 20 + length rest"
  shows "(\<exists>hdr. ip_write ip buf = Ok (hdr @ drop 20 buf) \<and> length hdr = 20 \<and> internet_checksum hdr = 0
       \<and> ip_parse (hdr @ rest) = Ok (ip, 20))
    \<and> (\<forall>bs. case ip_parse bs of
         Panic \<Rightarrow> False
       | Err e \<Rightarrow> True
       | Ok (ip, at) \<Rightarrow> at = header_len ip \<and> 20 \<le> at \<and> at \<le> unat (total_len ip) \<and> unat (total_len ip) \<le> length bs)"
proof
  show "\<exists>hdr. ip_write ip buf = Ok (hdr @ drop 20 buf) \<and> length hdr = 20 \<and> internet_checksum hdr = 0
      \<and> ip_parse (hdr @ rest) = Ok (ip, 20)"
    using ip_write_Ok [OF assms(1,2)] ip_header_bytes_sum ip_parse_written [OF assms(1,3,4)] by auto
qed (use ip_parse_Ok_D in \<open>auto simp: ip_parse_no_panic split: res.split\<close>)

theorem ip_header_codec_witness:
  "\<exists>hdr. ip_write \<lparr>ip_src = Ipv4Addr 10 0 0 1, ip_dst = Ipv4Addr 10 0 0 2, ihl = 5, total_len = 22\<rparr> (replicate 20 0) = Ok hdr
    \<and> ip_parse (hdr @ [7, 8]) = Ok (\<lparr>ip_src = Ipv4Addr 10 0 0 1, ip_dst = Ipv4Addr 10 0 0 2, ihl = 5, total_len = 22\<rparr>, 20)"
  using ip_header_codec [of "\<lparr>ip_src = Ipv4Addr 10 0 0 1, ip_dst = Ipv4Addr 10 0 0 2, ihl = 5, total_len = 22\<rparr>"
      "replicate 20 0" "[7, 8]"]
  by auto

end
