(* ===== verification/Hash_Map.thy ===== *)
theory Hash_Map
  imports Main "HOL-Library.AList"
begin

text \<open>
  The part of \<open>std::collections::HashMap\<close> that the crate uses, as an association list with distinct
  keys, and its contract as the locale \<open>hash_map\<close>: lookups after an update, and the number of entries,
  which the reassembly cache bounds.
\<close>

section \<open>Operations\<close>

definition hm_new :: "('k \<times> 'v) list" where "hm_new = []"

definition hm_get :: "('k \<times> 'v) list \<Rightarrow> 'k \<Rightarrow> 'v option" where
  "hm_get m k = map_of m k"

definition hm_contains_key :: "('k \<times> 'v) list \<Rightarrow> 'k \<Rightarrow> bool" where
  "hm_contains_key m k \<longleftrightarrow> hm_get m k \<noteq> None"

definition hm_insert :: "('k \<times> 'v) list \<Rightarrow> 'k \<Rightarrow> 'v \<Rightarrow> ('k \<times> 'v) list" where
  "hm_insert m k v = AList.update k v m"

definition hm_remove :: "('k \<times> 'v) list \<Rightarrow> 'k \<Rightarrow> ('k \<times> 'v) list" where
  "hm_remove m k = AList.delete k m"

definition hm_retain :: "('v \<Rightarrow> bool) \<Rightarrow> ('k \<times> 'v) list \<Rightarrow> ('k \<times> 'v) list" where
  "hm_retain P m = filter (\<lambda>(k, v). P v) m"

definition hm_len :: "('k \<times> 'v) list \<Rightarrow> nat" where
  "hm_len m = length m"

section \<open>The contract\<close>

locale hash_map =
  fixes wf :: "'m \<Rightarrow> bool"
    and empty :: 'm
    and get :: "'m \<Rightarrow> 'k \<Rightarrow> 'v option"
    and insert :: "'m \<Rightarrow> 'k \<Rightarrow> 'v \<Rightarrow> 'm"
    and remove :: "'m \<Rightarrow> 'k \<Rightarrow> 'm"
    and retain :: "('v \<Rightarrow> bool) \<Rightarrow> 'm \<Rightarrow> 'm"
    and len :: "'m \<Rightarrow> nat"
  assumes wf_empty: "wf empty"
    and get_empty: "get empty k = None"
    and wf_insert: "wf m \<Longrightarrow> wf (insert m k v)"
    and get_insert: "wf m \<Longrightarrow> get (insert m k v) j = (if j = k then Some v else get m j)"
    and wf_remove: "wf m \<Longrightarrow> wf (remove m k)"
    and get_remove: "wf m \<Longrightarrow> get (remove m k) j = (if j = k then None else get m j)"
    and wf_retain: "wf m \<Longrightarrow> wf (retain P m)"
    and get_retain: "wf m \<Longrightarrow>
          get (retain P m) j = (case get m j of None \<Rightarrow> None | Some v \<Rightarrow> if P v then Some v else None)"
    and len_dom: "wf m \<Longrightarrow> finite (dom (get m)) \<and> len m = card (dom (get m))"
begin

lemmas wf_laws = wf_empty wf_insert wf_remove wf_retain
lemmas get_laws = get_empty get_insert get_remove get_retain

lemma len_empty: "len empty = 0"
proof -
  have "dom (get empty) = {}" by (simp add: dom_def get_empty)
  then show ?thesis using len_dom [OF wf_empty] by simp
qed

lemma dom_insert: "wf m \<Longrightarrow> dom (get (insert m k v)) = Set.insert k (dom (get m))"
  by (auto simp: get_insert split: if_splits)

lemma dom_remove: "wf m \<Longrightarrow> dom (get (remove m k)) = dom (get m) - {k}"
  by (auto simp: get_remove split: if_splits)

lemma dom_retain: "wf m \<Longrightarrow> dom (get (retain P m)) \<subseteq> dom (get m)"
  by (auto simp: get_retain split: option.splits)

lemma len_insert_old: "wf m \<Longrightarrow> get m k \<noteq> None \<Longrightarrow> len (insert m k v) = len m"
  using len_dom [of m] len_dom [of "insert m k v"]
  by (simp add: wf_insert dom_insert domIff insert_absorb)

lemma len_insert_new: "wf m \<Longrightarrow> get m k = None \<Longrightarrow> len (insert m k v) = Suc (len m)"
  using len_dom [of m] len_dom [of "insert m k v"]
  by (simp add: wf_insert dom_insert domIff)

lemma len_remove_le: "wf m \<Longrightarrow> len (remove m k) \<le> len m"
  using len_dom [of m] len_dom [of "remove m k"]
  by (simp add: wf_remove dom_remove card_mono)

lemma len_remove_old: "wf m \<Longrightarrow> get m k \<noteq> None \<Longrightarrow> Suc (len (remove m k)) = len m"
  using len_dom [of m] len_dom [of "remove m k"]
  by (simp add: wf_remove dom_remove domIff card_Suc_Diff1 del: card_Diff_insert)

lemma len_retain_le: "wf m \<Longrightarrow> len (retain P m) \<le> len m"
  using len_dom [of m] len_dom [of "retain P m"] dom_retain [of m P]
  by (simp add: wf_retain card_mono)

end

section \<open>Association lists meet the contract\<close>

definition hm_wf :: "('k \<times> 'v) list \<Rightarrow> bool" where
  "hm_wf m \<longleftrightarrow> distinct (map fst m)"

lemma map_of_filter_distinct:
  "distinct (map fst m) \<Longrightarrow>
     map_of (filter (\<lambda>(k, v). P v) m) j =
       (case map_of m j of None \<Rightarrow> None | Some v \<Rightarrow> if P v then Some v else None)"
proof (induction m)
  case (Cons kv m)
  then have "fst kv \<notin> dom (map_of m)" by (simp add: dom_map_of_conv_image_fst)
  with Cons show ?case by (cases kv) (auto simp: domIff split: option.splits)
qed simp

lemma distinct_fst_filter: "distinct (map fst m) \<Longrightarrow> distinct (map fst (filter P m))"
  by (induction m) auto

lemma card_dom_distinct: "distinct (map fst m) \<Longrightarrow> card (dom (map_of m)) = length m"
  using distinct_card [of "map fst m"] by (simp add: dom_map_of_conv_image_fst)

lemma hm_get_map_of: "hm_get m = map_of m"
  by (simp add: fun_eq_iff hm_get_def)

interpretation hm: hash_map hm_wf hm_new hm_get hm_insert hm_remove hm_retain hm_len
proof unfold_locales
  show "hm_get (hm_insert m k v) j = (if j = k then Some v else hm_get m j)" for m k v j
    by (simp add: hm_get_def hm_insert_def update_conv')
  show "hm_get (hm_remove m k) j = (if j = k then None else hm_get m j)" for m k j
    by (simp add: hm_get_def hm_remove_def delete_conv')
  show "finite (dom (hm_get m)) \<and> hm_len m = card (dom (hm_get m))" if "hm_wf m" for m
    using that by (simp add: hm_get_map_of hm_wf_def hm_len_def card_dom_distinct finite_dom_map_of)
qed (simp_all add: hm_wf_def hm_new_def hm_get_def hm_insert_def hm_remove_def hm_retain_def
      distinct_update distinct_delete distinct_fst_filter map_of_filter_distinct)

end
