(* ===== verification/Reassembly.thy ===== *)
theory Reassembly
  imports Frag_Split Ip_Header Hash_Map
begin

text \<open>
  The receive side of fragmentation (\<open>src/frag/reassembly.rs\<close>): the cache of incomplete datagrams,
  the insertion of one fragment into a partial datagram with its overlap, duplicate and limit checks,
  the completion test, garbage collection, and the options retained across fragments.

  \<open>Vec::binary_search_by_key\<close> is modelled by its documented result on a list sorted by the key: the
  position of the first segment that does not start before the searched one. The list is sorted, as
  \<open>partial_inv\<close> shows. \<open>duration_since\<close> saturates at zero, as subtraction on \<open>nat\<close> does.
\<close>

section \<open>Types\<close>

record reassembly_limits =
  lim_max_reassembled_size :: usize
  lim_max_segments :: usize
  lim_max_pending_partials :: usize
  lim_timeout :: duration

definition default_limits :: reassembly_limits where
  "default_limits =
     \<lparr>lim_max_reassembled_size = unat MRDS_DEFAULT_IPV4,
      lim_max_segments = unat MIN_REASSEMBLY_SEGMENTS,
      lim_max_pending_partials = REASSEMBLY_MAX_PENDING_PARTIALS,
      lim_timeout = REASSEMBLY_TIMEOUT_MAX\<rparr>"

record frag_key =
  key_src :: ipv4_addr
  key_dst :: ipv4_addr
  key_src_port :: u16
  key_dst_port :: u16
  key_identification :: u32

record fragment_processing =
  fp_options :: "raw_option list"
  fp_option_failures :: "option_kind list"
  fp_ocs_nonzero :: "bool option"

datatype abort_reason = Overlap | LimitExceeded

record completed =
  c_tail :: bytes
  c_udp_length :: u16
  c_fragment_options :: "raw_option list"
  c_fragment_option_failures :: "option_kind list"
  c_fragment_ocs_nonzero :: "bool option"

datatype reassembly_outcome = Incomplete | Complete completed | Abort abort_reason

datatype insert_result = InsertIncomplete | InsertComplete completed | InsertAbort abort_reason

record segment =
  seg_start :: usize
  seg_end :: usize
  seg_data :: bytes
  seg_options :: "raw_option list"
  seg_option_failures :: "option_kind list"

record normalized_fragment =
  nf_start :: usize
  nf_end :: usize
  nf_udp_length :: "u16 option"

definition normalized_new :: "frag \<Rightarrow> usize \<Rightarrow> normalized_fragment option" where
  "normalized_new f data_len =
     (case (if frag_offset f = 0 \<and> rdos f \<noteq> None then Some 0
            else checked_sub (unat (frag_offset f)) (unat length_UDP_HEADER)) of
        None \<Rightarrow> None
      | Some start \<Rightarrow>
          (case checked_add start data_len of
             None \<Rightarrow> None
           | Some e \<Rightarrow> Some \<lparr>nf_start = start, nf_end = e, nf_udp_length = rdos f\<rparr>))"

section \<open>Options across fragments\<close>

record fragment_options =
  fo_mds :: "u16 option"
  fo_mrds_size :: "u16 option"
  fo_mrds_segments :: "byte option"
  fo_req :: "token option"
  fo_res :: "token option"

definition fragment_options_default :: fragment_options where
  "fragment_options_default =
     \<lparr>fo_mds = None, fo_mrds_size = None, fo_mrds_segments = None, fo_req = None, fo_res = None\<rparr>"

text \<open>\<open>old.map_or(v, |old| old.min(v))\<close>\<close>

definition opt_min :: "'a :: linorder option \<Rightarrow> 'a \<Rightarrow> 'a" where
  "opt_min old v = (case old of None \<Rightarrow> v | Some w \<Rightarrow> min w v)"

text \<open>One turn of the loop in \<open>FragmentOptions::observe\<close>; a value that does not decode is skipped. The
  decoders never panic (\<open>typed_option.decode_no_panic\<close>), so only \<open>Ok\<close> and \<open>Err\<close> occur.\<close>

definition observe_option :: "fragment_options \<Rightarrow> raw_option \<Rightarrow> fragment_options" where
  "observe_option fo opt =
     (case opt_kind opt of
        Mds \<Rightarrow>
          (case mds_decode (opt_value opt) of
             Ok m \<Rightarrow> fo\<lparr>fo_mds := Some (opt_min (fo_mds fo) (max_datagram_size m))\<rparr>
           | _ \<Rightarrow> fo)
      | Mrds \<Rightarrow>
          (case mrds_decode (opt_value opt) of
             Ok m \<Rightarrow> fo\<lparr>fo_mrds_size := Some (opt_min (fo_mrds_size fo) (max_reassembled_size m)),
                        fo_mrds_segments := Some (opt_min (fo_mrds_segments fo) (mrds_max_segments m))\<rparr>
           | _ \<Rightarrow> fo)
      | Req \<Rightarrow>
          (case req_decode (opt_value opt) of Ok r \<Rightarrow> fo\<lparr>fo_req := Some (req_token r)\<rparr> | _ \<Rightarrow> fo)
      | Res \<Rightarrow>
          (case res_decode (opt_value opt) of Ok r \<Rightarrow> fo\<lparr>fo_res := Some (res_token r)\<rparr> | _ \<Rightarrow> fo)
      | _ \<Rightarrow> fo)"

definition observe_options :: "fragment_options \<Rightarrow> raw_option list \<Rightarrow> fragment_options" where
  "observe_options fo opts = foldl observe_option fo opts"

definition to_raw_options :: "fragment_options \<Rightarrow> raw_option list" where
  "to_raw_options fo =
     (case fo_mds fo of None \<Rightarrow> [] | Some v \<Rightarrow> [\<lparr>opt_kind = Mds, opt_value = u16_to_be_bytes v\<rparr>])
     @ (case (fo_mrds_size fo, fo_mrds_segments fo) of
          (Some n, Some m) \<Rightarrow>
            [\<lparr>opt_kind = Mrds, opt_value = u16_to_be_bytes n @ [m]\<rparr>]
        | _ \<Rightarrow> [])
     @ (case fo_req fo of None \<Rightarrow> [] | Some t \<Rightarrow> [\<lparr>opt_kind = Req, opt_value = token_bytes t\<rparr>])
     @ (case fo_res fo of None \<Rightarrow> [] | Some t \<Rightarrow> [\<lparr>opt_kind = Res, opt_value = token_bytes t\<rparr>])"

fun observe_failures :: "option_kind list \<Rightarrow> option_kind list \<Rightarrow> option_kind list" where
  "observe_failures kinds [] = kinds"
| "observe_failures kinds (k # ks) =
     observe_failures (if k \<in> set kinds then kinds else kinds @ [k]) ks"

section \<open>A partial datagram\<close>

record partial =
  segments :: "segment list"
  terminal_end :: "usize option"
  p_udp_length :: "u16 option"
  fragment_count :: usize
  byte_total :: usize
  p_fragment_options :: fragment_options
  p_fragment_option_failures :: "option_kind list"
  p_fragment_ocs_nonzero :: "bool option"
  empty_terminal_options :: "raw_option list option"
  empty_terminal_option_failures :: "option_kind list option"
  received_at :: instant

definition partial_new :: "instant \<Rightarrow> partial" where
  "partial_new now =
     \<lparr>segments = [], terminal_end = None, p_udp_length = None, fragment_count = 0, byte_total = 0,
      p_fragment_options = fragment_options_default, p_fragment_option_failures = [],
      p_fragment_ocs_nonzero = Some False, empty_terminal_options = None,
      empty_terminal_option_failures = None, received_at = now\<rparr>"

definition is_expired :: "partial \<Rightarrow> instant \<Rightarrow> duration \<Rightarrow> bool" where
  "is_expired p now timeout \<longleftrightarrow> now - received_at p \<ge> min timeout REASSEMBLY_TIMEOUT_MAX"

definition is_exact_duplicate ::
  "partial \<Rightarrow> normalized_fragment \<Rightarrow> bytes \<Rightarrow> raw_option list \<Rightarrow> option_kind list \<Rightarrow> bool" where
  "is_exact_duplicate p f data opts failures =
     (let in_segments = (\<exists>s \<in> set (segments p).
            seg_start s = nf_start f \<and> seg_end s = nf_end f \<and> seg_data s = data
            \<and> seg_options s = opts \<and> seg_option_failures s = failures) in
      case nf_udp_length f of
        None \<Rightarrow> in_segments
      | Some udp_length \<Rightarrow>
          if p_udp_length p \<noteq> Some udp_length \<or> terminal_end p \<noteq> Some (nf_end f) then False
          else if data = [] then empty_terminal_options p = Some opts
            \<and> empty_terminal_option_failures p = Some failures
          else in_segments)"

definition overlaps :: "partial \<Rightarrow> usize \<Rightarrow> usize \<Rightarrow> bool" where
  "overlaps p start e \<longleftrightarrow> start < e \<and> (\<exists>s \<in> set (segments p). start < seg_end s \<and> seg_start s < e)"

definition observe_fragment_ocs :: "partial \<Rightarrow> bool option \<Rightarrow> partial" where
  "observe_fragment_ocs p current =
     p\<lparr>p_fragment_ocs_nonzero :=
        (case (p_fragment_ocs_nonzero p, current) of
           (Some a, Some c) \<Rightarrow> Some (a \<or> c)
         | _ \<Rightarrow> None)\<rparr>"

text \<open>The cursor loop of \<open>complete\<close>: the first gap or overlap, or the end of the covered bytes.\<close>

fun cursor_loop :: "usize \<Rightarrow> segment list \<Rightarrow> insert_result + usize" where
  "cursor_loop cursor [] = Inr cursor"
| "cursor_loop cursor (s # ss) =
     (if seg_start s > cursor then Inl InsertIncomplete
      else if seg_start s < cursor then Inl (InsertAbort Overlap)
      else cursor_loop (seg_end s) ss)"

definition complete :: "partial \<Rightarrow> insert_result" where
  "complete p =
     (case (terminal_end p, p_udp_length p) of
        (Some e, Some udp_length) \<Rightarrow>
          (case cursor_loop 0 (segments p) of
             Inl r \<Rightarrow> r
           | Inr cursor \<Rightarrow>
               if cursor \<noteq> e then InsertIncomplete
               else InsertComplete
                 \<lparr>c_tail = concat (map seg_data (segments p)),
                  c_udp_length = udp_length,
                  c_fragment_options = to_raw_options (p_fragment_options p),
                  c_fragment_option_failures = p_fragment_option_failures p,
                  c_fragment_ocs_nonzero = p_fragment_ocs_nonzero p\<rparr>)
      | _ \<Rightarrow> InsertIncomplete)"

text \<open>The terminal metadata check of \<open>Partial::insert\<close>: the partial with the metadata of a first
  terminal fragment recorded, and whether the insertion aborts.\<close>

definition observe_terminal ::
  "partial \<Rightarrow> normalized_fragment \<Rightarrow> bytes \<Rightarrow> raw_option list \<Rightarrow> option_kind list \<Rightarrow> bool \<times> partial" where
  "observe_terminal p f data opts failures =
     (case nf_udp_length f of
        None \<Rightarrow> (True, p)
      | Some udp_length \<Rightarrow>
          (case checked_sub (unat udp_length) (unat length_UDP_HEADER) of
             None \<Rightarrow> (False, p)
           | Some user_tail_len \<Rightarrow>
               if user_tail_len > nf_end f then (False, p)
               else
                 (case (terminal_end p, p_udp_length p) of
                    (None, None) \<Rightarrow>
                      let p = p\<lparr>terminal_end := Some (nf_end f), p_udp_length := Some udp_length\<rparr>;
                          p = (if data = []
                               then p\<lparr>empty_terminal_options := Some opts,
                                      empty_terminal_option_failures := Some failures\<rparr>
                               else p) in
                      (\<not> (\<exists>s \<in> set (segments p). seg_end s > nf_end f), p)
                  | (Some existing_end, Some existing_udp_length) \<Rightarrow>
                      if existing_end = nf_end f \<and> existing_udp_length = udp_length
                      then (\<not> (data = [] \<and> (empty_terminal_options p \<noteq> Some opts
                               \<or> empty_terminal_option_failures p \<noteq> Some failures)), p)
                      else (False, p)
                  | _ \<Rightarrow> (False, p))))"

definition insert_segment :: "segment list \<Rightarrow> segment \<Rightarrow> segment list" where
  "insert_segment ss s =
     (let i = length (takeWhile (\<lambda>t. seg_start t < seg_start s) ss) in take i ss @ [s] @ drop i ss)"

definition partial_insert ::
  "partial \<Rightarrow> normalized_fragment \<Rightarrow> bytes \<Rightarrow> raw_option list \<Rightarrow> option_kind list \<Rightarrow> bool option
     \<Rightarrow> reassembly_limits \<Rightarrow> insert_result \<times> partial" where
  "partial_insert p f data opts failures ocs_nonzero lim =
     (if is_exact_duplicate p f data opts failures
      then (InsertIncomplete, observe_fragment_ocs p ocs_nonzero)
      else case checked_add (fragment_count p) 1 of
        None \<Rightarrow> (InsertAbort LimitExceeded, p)
      | Some count \<Rightarrow>
          if count > lim_max_segments lim then (InsertAbort LimitExceeded, p)
          else case checked_add (byte_total p) (length data) of
            None \<Rightarrow> (InsertAbort LimitExceeded, p)
          | Some bytes_now \<Rightarrow>
              if (case checked_add bytes_now (unat length_UDP_HEADER) of
                    None \<Rightarrow> True
                  | Some udp_total \<Rightarrow> udp_total > lim_max_reassembled_size lim)
              then (InsertAbort LimitExceeded, p)
              else if overlaps p (nf_start f) (nf_end f) then (InsertAbort Overlap, p)
              else if (case terminal_end p of None \<Rightarrow> False | Some e \<Rightarrow> nf_end f > e)
              then (InsertAbort Overlap, p)
              else
                (case observe_terminal p f data opts failures of
                   (False, p) \<Rightarrow> (InsertAbort Overlap, p)
                 | (True, p) \<Rightarrow>
                     let p = p\<lparr>fragment_count := count, byte_total := bytes_now,
                               p_fragment_options := observe_options (p_fragment_options p) opts,
                               p_fragment_option_failures :=
                                 observe_failures (p_fragment_option_failures p) failures\<rparr>;
                         p = observe_fragment_ocs p ocs_nonzero;
                         p = (if data \<noteq> []
                              then p\<lparr>segments := insert_segment (segments p)
                                (\<lparr>seg_start = nf_start f, seg_end = nf_end f, seg_data = data,
                                  seg_options = opts, seg_option_failures = failures\<rparr>)\<rparr>
                              else p)
                     in (complete p, p)))"

section \<open>The cache\<close>

record reassembly_cache =
  partials :: "(frag_key \<times> partial) list"
  cache_limits :: reassembly_limits

definition cache_with_limits :: "reassembly_limits \<Rightarrow> reassembly_cache" where
  "cache_with_limits lim = \<lparr>partials = hm_new, cache_limits = lim\<rparr>"

definition cache_new :: reassembly_cache where
  "cache_new = cache_with_limits default_limits"

definition cache_len :: "reassembly_cache \<Rightarrow> usize" where
  "cache_len c = hm_len (partials c)"

definition cache_is_empty :: "reassembly_cache \<Rightarrow> bool" where
  "cache_is_empty c \<longleftrightarrow> partials c = []"

definition cache_gc :: "reassembly_cache \<Rightarrow> instant \<Rightarrow> reassembly_cache" where
  "cache_gc c now =
     c\<lparr>partials := hm_retain (\<lambda>p. \<not> is_expired p now (lim_timeout (cache_limits c))) (partials c)\<rparr>"

definition cache_discard :: "reassembly_cache \<Rightarrow> frag_key \<Rightarrow> reassembly_cache" where
  "cache_discard c key = c\<lparr>partials := hm_remove (partials c) key\<rparr>"

definition cache_abort ::
  "reassembly_cache \<Rightarrow> frag_key \<Rightarrow> abort_reason \<Rightarrow> reassembly_outcome \<times> reassembly_cache" where
  "cache_abort c key reason = (Abort reason, c\<lparr>partials := hm_remove (partials c) key\<rparr>)"

definition insert_without_retaining ::
  "reassembly_cache \<Rightarrow> normalized_fragment \<Rightarrow> bytes \<Rightarrow> fragment_processing \<Rightarrow> instant
     \<Rightarrow> reassembly_outcome" where
  "insert_without_retaining c f data proc now =
     (case fst (partial_insert (partial_new now) f data (fp_options proc) (fp_option_failures proc)
                 (fp_ocs_nonzero proc) (cache_limits c)) of
        InsertComplete r \<Rightarrow> Complete r
      | InsertAbort reason \<Rightarrow> Abort reason
      | InsertIncomplete \<Rightarrow> Abort LimitExceeded)"

definition insert_with_options_and_failures ::
  "reassembly_cache \<Rightarrow> frag_key \<Rightarrow> frag \<Rightarrow> bytes \<Rightarrow> fragment_processing \<Rightarrow> instant
     \<Rightarrow> (reassembly_outcome \<times> reassembly_cache, 'e) res" where
  "insert_with_options_and_failures c key f data proc now =
     (let c = cache_gc c now; lim = cache_limits c in
      case normalized_new f (length data) of
        None \<Rightarrow> Ok (cache_abort c key Overlap)
      | Some nf \<Rightarrow>
          if (case nf_udp_length nf of None \<Rightarrow> 0 | Some n \<Rightarrow> unat n) > lim_max_reassembled_size lim
          then Ok (cache_abort c key LimitExceeded)
          else if (case checked_add (unat length_UDP_HEADER) (nf_end nf) of
                     None \<Rightarrow> True
                   | Some len \<Rightarrow> len > lim_max_reassembled_size lim)
          then Ok (cache_abort c key LimitExceeded)
          else if \<not> hm_contains_key (partials c) key
            \<and> hm_len (partials c) \<ge> lim_max_pending_partials lim
          then Ok (insert_without_retaining c nf data proc now, c)
          else
            let ps = (if hm_contains_key (partials c) key then partials c
                      else hm_insert (partials c) key (partial_new now)) in
            and_then (expect_some (hm_get ps key)) (\<lambda>p.
            case partial_insert p nf data (fp_options proc) (fp_option_failures proc)
                   (fp_ocs_nonzero proc) lim of
              (InsertIncomplete, p') \<Rightarrow> Ok (Incomplete, c\<lparr>partials := hm_insert ps key p'\<rparr>)
            | (InsertComplete r, p') \<Rightarrow> Ok (Complete r, c\<lparr>partials := hm_remove ps key\<rparr>)
            | (InsertAbort reason, p') \<Rightarrow> Ok (Abort reason, c\<lparr>partials := hm_remove ps key\<rparr>)))"

definition insert_with_options ::
  "reassembly_cache \<Rightarrow> frag_key \<Rightarrow> frag \<Rightarrow> bytes \<Rightarrow> raw_option list \<Rightarrow> instant
     \<Rightarrow> (reassembly_outcome \<times> reassembly_cache, 'e) res" where
  "insert_with_options c key f data opts now =
     insert_with_options_and_failures c key f data
       \<lparr>fp_options = opts, fp_option_failures = [], fp_ocs_nonzero = None\<rparr> now"

definition cache_insert ::
  "reassembly_cache \<Rightarrow> frag_key \<Rightarrow> frag \<Rightarrow> bytes \<Rightarrow> instant
     \<Rightarrow> (reassembly_outcome \<times> reassembly_cache, 'e) res" where
  "cache_insert c key f data now = insert_with_options c key f data [] now"

section \<open>Segments\<close>

text \<open>Non-empty segments in ascending order that do not overlap, none of them below \<open>lo\<close>.\<close>

fun segs_ok :: "usize \<Rightarrow> segment list \<Rightarrow> bool" where
  "segs_ok lo [] = True"
| "segs_ok lo (s # ss) =
     (lo \<le> seg_start s \<and> seg_start s < seg_end s
      \<and> length (seg_data s) = seg_end s - seg_start s \<and> segs_ok (seg_end s) ss)"

definition seg_bytes :: "segment list \<Rightarrow> nat" where
  "seg_bytes ss = sum_list (map (length \<circ> seg_data) ss)"

lemma seg_bytes_simps [simp]: "seg_bytes [] = 0" "seg_bytes (s # ss) = length (seg_data s) + seg_bytes ss"
  by (simp_all add: seg_bytes_def)

lemma insert_segment_simps [simp]:
  "insert_segment [] s = [s]"
  "insert_segment (t # ts) s = (if seg_start t < seg_start s then t # insert_segment ts s else s # t # ts)"
  by (simp_all add: insert_segment_def Let_def)

lemma set_insert_segment [simp]: "set (insert_segment ss s) = insert s (set ss)"
  by (induction ss) auto

lemma seg_bytes_insert_segment [simp]: "seg_bytes (insert_segment ss s) = length (seg_data s) + seg_bytes ss"
  by (induction ss) auto

lemma length_insert_segment [simp]: "length (insert_segment ss s) = Suc (length ss)"
  by (induction ss) auto

lemma segs_ok_bounds: "segs_ok lo ss \<Longrightarrow> s \<in> set ss \<Longrightarrow> lo \<le> seg_start s \<and> seg_start s < seg_end s"
  by (induction lo ss rule: segs_ok.induct) auto

lemma segs_ok_insert:
  "segs_ok lo ss \<Longrightarrow> lo \<le> seg_start s \<Longrightarrow> seg_start s < seg_end s \<Longrightarrow>
   length (seg_data s) = seg_end s - seg_start s \<Longrightarrow>
   \<forall>t \<in> set ss. \<not> (seg_start s < seg_end t \<and> seg_start t < seg_end s) \<Longrightarrow>
   segs_ok lo (insert_segment ss s)"
  by (induction lo ss rule: segs_ok.induct) auto

lemma segs_ok_seg_bytes:
  "segs_ok lo ss \<Longrightarrow> lo \<le> e \<Longrightarrow> \<forall>s \<in> set ss. seg_end s \<le> e \<Longrightarrow> lo + seg_bytes ss \<le> e"
  by (induction lo ss rule: segs_ok.induct) auto

lemma cursor_loop_Inr: "segs_ok lo ss \<Longrightarrow> cursor_loop lo ss = Inr e \<Longrightarrow> e = lo + seg_bytes ss"
  by (induction lo ss rule: segs_ok.induct) (auto split: if_splits)

lemma cursor_loop_Inl: "segs_ok lo ss \<Longrightarrow> cursor_loop lo ss = Inl r \<Longrightarrow> r = InsertIncomplete"
  by (induction lo ss rule: segs_ok.induct) (auto split: if_splits)

lemma cursor_loop_full:
  "segs_ok lo ss \<Longrightarrow> lo \<le> e \<Longrightarrow> \<forall>s \<in> set ss. seg_end s \<le> e \<Longrightarrow> lo + seg_bytes ss = e \<Longrightarrow>
     cursor_loop lo ss = Inr e"
proof (induction lo ss rule: segs_ok.induct)
  case (2 lo s ss)
  then have "seg_end s + seg_bytes ss \<le> e" by (intro segs_ok_seg_bytes) auto
  with 2 have "seg_start s = lo" by auto
  with 2 show ?case by auto
qed simp

text \<open>The segments hold bytes of one and the same reassembled tail.\<close>

definition agrees :: "bytes \<Rightarrow> segment list \<Rightarrow> bool" where
  "agrees tail ss \<longleftrightarrow>
     (\<forall>s \<in> set ss. seg_end s \<le> length tail
        \<and> seg_data s = take (seg_end s - seg_start s) (drop (seg_start s) tail))"

lemma cursor_loop_concat:
  "segs_ok lo ss \<Longrightarrow> agrees tail ss \<Longrightarrow> cursor_loop lo ss = Inr e \<Longrightarrow>
     concat (map seg_data ss) = take (e - lo) (drop lo tail)"
proof (induction lo ss rule: segs_ok.induct)
  case (2 lo s ss)
  then have lo: "seg_start s = lo" and c: "cursor_loop (seg_end s) ss = Inr e" by (auto split: if_splits)
  then have "seg_end s \<le> e" using 2 cursor_loop_Inr [of "seg_end s" ss e] by simp
  moreover have "seg_data s = take (seg_end s - lo) (drop lo tail)" "agrees tail ss"
    using 2 lo by (auto simp: agrees_def)
  ultimately show ?case using 2 c lo by (simp add: take_drop_join)
qed simp

section \<open>The invariant of a partial datagram\<close>

definition partial_inv :: "reassembly_limits \<Rightarrow> partial \<Rightarrow> bool" where
  "partial_inv lim p \<longleftrightarrow>
     segs_ok 0 (segments p)
     \<and> byte_total p = seg_bytes (segments p)
     \<and> length (segments p) \<le> fragment_count p
     \<and> fragment_count p \<le> lim_max_segments lim
     \<and> (\<forall>s \<in> set (segments p). 8 + seg_end s \<le> lim_max_reassembled_size lim)
     \<and> (terminal_end p = None \<longleftrightarrow> p_udp_length p = None)
     \<and> (\<forall>e. terminal_end p = Some e \<longrightarrow>
          (\<forall>s \<in> set (segments p). seg_end s \<le> e) \<and> 8 + e \<le> lim_max_reassembled_size lim)
     \<and> (\<forall>u. p_udp_length p = Some u \<longrightarrow> 8 \<le> unat u \<and> unat u \<le> 8 + the (terminal_end p))"

text \<open>A fragment as the cache passes it on: the end is the start plus the data, within the limit.\<close>

definition fragment_ok :: "reassembly_limits \<Rightarrow> normalized_fragment \<Rightarrow> bytes \<Rightarrow> bool" where
  "fragment_ok lim f data \<longleftrightarrow> nf_end f = nf_start f + length data \<and> 8 + nf_end f \<le> lim_max_reassembled_size lim"

lemma partial_inv_new: "partial_inv lim (partial_new now)"
  by (simp add: partial_inv_def partial_new_def)

text \<open>Completion is a matter of counting bytes: the tail is complete when the bytes received are as
  many as the terminal fragment announces.\<close>

definition completed_of :: "partial \<Rightarrow> completed" where
  "completed_of p =
     \<lparr>c_tail = concat (map seg_data (segments p)), c_udp_length = the (p_udp_length p),
      c_fragment_options = to_raw_options (p_fragment_options p),
      c_fragment_option_failures = p_fragment_option_failures p,
      c_fragment_ocs_nonzero = p_fragment_ocs_nonzero p\<rparr>"

lemma complete_eq:
  assumes "partial_inv lim p"
  shows "complete p =
    (if terminal_end p = Some (byte_total p) then InsertComplete (completed_of p) else InsertIncomplete)"
proof (cases "terminal_end p")
  case None
  then show ?thesis by (simp add: complete_def)
next
  case (Some e)
  then obtain u where u: "p_udp_length p = Some u" using assms by (auto simp: partial_inv_def)
  have segs: "segs_ok 0 (segments p)" "\<forall>s \<in> set (segments p). seg_end s \<le> e" "byte_total p = seg_bytes (segments p)"
    using assms Some by (auto simp: partial_inv_def)
  show ?thesis
  proof (cases "seg_bytes (segments p) = e")
    case True
    with segs have "cursor_loop 0 (segments p) = Inr e" by (intro cursor_loop_full) auto
    with True Some u segs(3) show ?thesis by (simp add: complete_def completed_of_def)
  next
    case False
    with segs Some u show ?thesis
      using cursor_loop_Inr [OF segs(1)] cursor_loop_Inl [OF segs(1)]
      by (auto simp: complete_def split: sum.split)
  qed
qed

lemma length_completed_tail: "partial_inv lim p \<Longrightarrow> length (c_tail (completed_of p)) = byte_total p"
  by (simp add: completed_of_def partial_inv_def seg_bytes_def length_concat comp_def)

lemma length_concat_segs: "length (concat (map seg_data ss)) = seg_bytes ss"
  by (simp add: seg_bytes_def length_concat comp_def)

text \<open>The partial after an accepted fragment, given the partial with its terminal metadata.\<close>

definition accepted ::
  "partial \<Rightarrow> normalized_fragment \<Rightarrow> bytes \<Rightarrow> raw_option list \<Rightarrow> option_kind list \<Rightarrow> bool option \<Rightarrow> partial" where
  "accepted p f data opts failures ocs =
     (let p = p\<lparr>fragment_count := fragment_count p + 1, byte_total := byte_total p + length data,
                p_fragment_options := observe_options (p_fragment_options p) opts,
                p_fragment_option_failures := observe_failures (p_fragment_option_failures p) failures\<rparr>;
          p = observe_fragment_ocs p ocs in
      if data \<noteq> []
      then p\<lparr>segments := insert_segment (segments p)
        (\<lparr>seg_start = nf_start f, seg_end = nf_end f, seg_data = data,
          seg_options = opts, seg_option_failures = failures\<rparr>)\<rparr>
      else p)"

lemma observe_terminal_frame:
  assumes "observe_terminal p f data opts failures = (ok, p1)"
  shows "segments p1 = segments p" "fragment_count p1 = fragment_count p" "byte_total p1 = byte_total p"
    "p_fragment_options p1 = p_fragment_options p"
    "p_fragment_option_failures p1 = p_fragment_option_failures p"
    "p_fragment_ocs_nonzero p1 = p_fragment_ocs_nonzero p" "received_at p1 = received_at p"
    "nf_udp_length f = None \<Longrightarrow> p1 = p"
  using assms
  by (auto simp: observe_terminal_def Let_def split: option.splits if_splits)

lemma observe_terminal_True:
  assumes "observe_terminal p f data opts failures = (True, p1)" and "nf_udp_length f = Some u"
    and "terminal_end p = None \<longleftrightarrow> p_udp_length p = None"
  shows "terminal_end p1 = Some (nf_end f)" "p_udp_length p1 = Some u" "8 \<le> unat u" "unat u \<le> 8 + nf_end f"
    "terminal_end p = None \<Longrightarrow> \<forall>s \<in> set (segments p). seg_end s \<le> nf_end f"
    "terminal_end p \<noteq> None \<Longrightarrow> terminal_end p = Some (nf_end f) \<and> p_udp_length p = Some u"
  using assms
  by (auto simp: observe_terminal_def Let_def not_less split: option.splits if_splits)

definition over_limit :: "partial \<Rightarrow> bytes \<Rightarrow> reassembly_limits \<Rightarrow> bool" where
  "over_limit p data lim \<longleftrightarrow>
     fragment_count p + 1 > usize_max \<or> fragment_count p + 1 > lim_max_segments lim
     \<or> byte_total p + length data + 8 > usize_max
     \<or> byte_total p + length data + 8 > lim_max_reassembled_size lim"

definition past_terminal :: "partial \<Rightarrow> normalized_fragment \<Rightarrow> bool" where
  "past_terminal p f \<longleftrightarrow> (case terminal_end p of None \<Rightarrow> False | Some e \<Rightarrow> nf_end f > e)"

lemma partial_insert_eq:
  assumes "observe_terminal p f data opts failures = (ok, p1)"
  shows "partial_insert p f data opts failures ocs lim =
    (if is_exact_duplicate p f data opts failures then (InsertIncomplete, observe_fragment_ocs p ocs)
     else if over_limit p data lim then (InsertAbort LimitExceeded, p)
     else if overlaps p (nf_start f) (nf_end f) \<or> past_terminal p f then (InsertAbort Overlap, p)
     else if ok then (complete (accepted p1 f data opts failures ocs), accepted p1 f data opts failures ocs)
     else (InsertAbort Overlap, p1))"
proof (cases "over_limit p data lim")
  case True
  then show ?thesis
    by (auto simp: partial_insert_def over_limit_def checked_add_def)
next
  case False
  then have "fragment_count p + 1 \<le> usize_max" "byte_total p + length data \<le> usize_max"
    "byte_total p + length data + 8 \<le> usize_max"
    "\<not> lim_max_segments lim < fragment_count p + 1"
    "\<not> lim_max_reassembled_size lim < byte_total p + length data + 8"
    by (auto simp: over_limit_def)
  then show ?thesis
    using False observe_terminal_frame(2,3) [OF assms]
    by (simp add: partial_insert_def checked_add_def assms accepted_def Let_def past_terminal_def)
qed

lemma partial_insert_cases:
  assumes "partial_insert p f data opts failures ocs lim = (r, p')"
  obtains (duplicate) "r = InsertIncomplete" "p' = observe_fragment_ocs p ocs"
      "is_exact_duplicate p f data opts failures"
  | (abort) reason where "r = InsertAbort reason"
  | (accept) p1 where "observe_terminal p f data opts failures = (True, p1)"
      "p' = accepted p1 f data opts failures ocs" "r = complete p'"
      "\<not> overlaps p (nf_start f) (nf_end f)" "fragment_count p + 1 \<le> lim_max_segments lim"
      "byte_total p + length data + 8 \<le> lim_max_reassembled_size lim"
      "\<forall>e. terminal_end p = Some e \<longrightarrow> nf_end f \<le> e"
proof -
  obtain ok p1 where ot: "observe_terminal p f data opts failures = (ok, p1)" by fastforce
  note eq = partial_insert_eq [OF ot, of ocs lim, unfolded assms]
  show thesis
  proof (cases "is_exact_duplicate p f data opts failures")
    case True
    with eq show thesis by (intro duplicate) auto
  next
    case False
    show thesis
    proof (cases "over_limit p data lim \<or> overlaps p (nf_start f) (nf_end f) \<or> past_terminal p f \<or> \<not> ok")
      case True
      with eq False have "\<exists>reason. r = InsertAbort reason" by (auto split: if_splits)
      then show thesis using abort by blast
    next
      case ok: False
      with eq False have "p' = accepted p1 f data opts failures ocs" "r = complete p'" by auto
      with ot ok show thesis
        by (intro accept) (auto simp: over_limit_def past_terminal_def split: option.splits)
    qed
  qed
qed

lemma observe_fragment_ocs_simps [simp]:
  "segments (observe_fragment_ocs p ocs) = segments p"
  "terminal_end (observe_fragment_ocs p ocs) = terminal_end p"
  "p_udp_length (observe_fragment_ocs p ocs) = p_udp_length p"
  "fragment_count (observe_fragment_ocs p ocs) = fragment_count p"
  "byte_total (observe_fragment_ocs p ocs) = byte_total p"
  "received_at (observe_fragment_ocs p ocs) = received_at p"
  by (simp_all add: observe_fragment_ocs_def)

lemma accepted_simps [simp]:
  "segments (accepted p f data opts failures ocs) =
     (if data \<noteq> []
      then insert_segment (segments p)
        (\<lparr>seg_start = nf_start f, seg_end = nf_end f, seg_data = data,
          seg_options = opts, seg_option_failures = failures\<rparr>)
      else segments p)"
  "terminal_end (accepted p f data opts failures ocs) = terminal_end p"
  "p_udp_length (accepted p f data opts failures ocs) = p_udp_length p"
  "fragment_count (accepted p f data opts failures ocs) = Suc (fragment_count p)"
  "byte_total (accepted p f data opts failures ocs) = byte_total p + length data"
  "received_at (accepted p f data opts failures ocs) = received_at p"
  by (simp_all add: accepted_def Let_def)

text \<open>Terminal metadata of the partial that an accepted fragment goes into.\<close>

lemma terminal_inv_accept:
  assumes "partial_inv lim p" and "fragment_ok lim f data"
    and "observe_terminal p f data opts failures = (True, p1)"
    and "\<forall>e. terminal_end p = Some e \<longrightarrow> nf_end f \<le> e"
  shows "terminal_end p1 = None \<longleftrightarrow> p_udp_length p1 = None"
    and "terminal_end p1 = Some e \<Longrightarrow>
       nf_end f \<le> e \<and> (\<forall>s \<in> set (segments p). seg_end s \<le> e) \<and> 8 + e \<le> lim_max_reassembled_size lim"
    and "p_udp_length p1 = Some u \<Longrightarrow> 8 \<le> unat u \<and> unat u \<le> 8 + the (terminal_end p1)"
proof -
  have iff: "terminal_end p = None \<longleftrightarrow> p_udp_length p = None" using assms(1) by (simp add: partial_inv_def)
  have "(terminal_end p1 = None \<longleftrightarrow> p_udp_length p1 = None)
    \<and> (\<forall>e. terminal_end p1 = Some e \<longrightarrow>
         nf_end f \<le> e \<and> (\<forall>s \<in> set (segments p). seg_end s \<le> e) \<and> 8 + e \<le> lim_max_reassembled_size lim)
    \<and> (\<forall>u. p_udp_length p1 = Some u \<longrightarrow> 8 \<le> unat u \<and> unat u \<le> 8 + the (terminal_end p1))"
  proof (cases "nf_udp_length f")
    case None
    then have "p1 = p" using observe_terminal_frame(8) [OF assms(3)] by simp
    then show ?thesis using assms(1,4) by (auto simp: partial_inv_def)
  next
    case (Some u)
    note t = observe_terminal_True [OF assms(3) Some iff]
    have "\<forall>s \<in> set (segments p). seg_end s \<le> nf_end f"
      using t(5,6) assms(1) by (cases "terminal_end p = None") (auto simp: partial_inv_def)
    then show ?thesis using t(1-4) assms(2) by (auto simp: fragment_ok_def)
  qed
  then show "terminal_end p1 = None \<longleftrightarrow> p_udp_length p1 = None"
    and "terminal_end p1 = Some e \<Longrightarrow>
       nf_end f \<le> e \<and> (\<forall>s \<in> set (segments p). seg_end s \<le> e) \<and> 8 + e \<le> lim_max_reassembled_size lim"
    and "p_udp_length p1 = Some u \<Longrightarrow> 8 \<le> unat u \<and> unat u \<le> 8 + the (terminal_end p1)" by blast+
qed

lemma partial_inv_accept:
  assumes inv: "partial_inv lim p" and ok: "fragment_ok lim f data"
    and ot: "observe_terminal p f data opts failures = (True, p1)"
    and no: "\<not> overlaps p (nf_start f) (nf_end f)" and cnt: "fragment_count p + 1 \<le> lim_max_segments lim"
    and te: "\<forall>e. terminal_end p = Some e \<longrightarrow> nf_end f \<le> e"
  shows "partial_inv lim (accepted p1 f data opts failures ocs)"
proof -
  note fr = observe_terminal_frame(1-3) [OF ot]
  note t = terminal_inv_accept [OF inv ok ot te]
  let ?q = "accepted p1 f data opts failures ocs"
  let ?s = "\<lparr>seg_start = nf_start f, seg_end = nf_end f, seg_data = data,
    seg_options = opts, seg_option_failures = failures\<rparr>"
  have "segs_ok 0 (insert_segment (segments p) ?s)" if "data \<noteq> []"
    using inv ok no that by (intro segs_ok_insert) (auto simp: partial_inv_def fragment_ok_def overlaps_def)
  then have "segs_ok 0 (segments ?q)" using inv fr by (simp add: partial_inv_def)
  moreover have "byte_total ?q = seg_bytes (segments ?q)" "length (segments ?q) \<le> fragment_count ?q"
    using inv fr by (simp_all add: partial_inv_def)
  moreover have "\<forall>s \<in> set (segments ?q). 8 + seg_end s \<le> lim_max_reassembled_size lim"
    using inv ok fr by (auto simp: partial_inv_def fragment_ok_def)
  moreover have "\<forall>e. terminal_end ?q = Some e \<longrightarrow>
      (\<forall>s \<in> set (segments ?q). seg_end s \<le> e) \<and> 8 + e \<le> lim_max_reassembled_size lim"
    using t(2) fr by auto
  ultimately show ?thesis using t(1,3) cnt fr by (simp add: partial_inv_def)
qed

lemma partial_inv_observe_ocs: "partial_inv lim p \<Longrightarrow> partial_inv lim (observe_fragment_ocs p ocs)"
  by (simp add: partial_inv_def)

lemma partial_insert_inv:
  assumes "partial_inv lim p" and "fragment_ok lim f data"
    and "partial_insert p f data opts failures ocs lim = (r, p')" and "\<nexists>reason. r = InsertAbort reason"
  shows "partial_inv lim p'"
  using assms(3)
proof (cases rule: partial_insert_cases)
  case (accept p1)
  then show ?thesis using assms partial_inv_accept by blast
qed (use assms partial_inv_observe_ocs in auto)

lemma partial_insert_Complete:
  assumes "partial_inv lim p" and "fragment_ok lim f data"
    and "partial_insert p f data opts failures ocs lim = (InsertComplete c, p')"
  shows "partial_inv lim p'" "terminal_end p' = Some (byte_total p')" "c = completed_of p'"
proof -
  show inv: "partial_inv lim p'" using partial_insert_inv [OF assms] by blast
  have "complete p' = InsertComplete c"
    using assms(3) by (cases rule: partial_insert_cases) auto
  then show "terminal_end p' = Some (byte_total p')" "c = completed_of p'"
    using complete_eq [OF inv] by (auto split: if_splits)
qed

lemma partial_insert_Incomplete:
  assumes "partial_inv lim p" and "fragment_ok lim f data"
    and "partial_insert p f data opts failures ocs lim = (InsertIncomplete, p')"
    and "terminal_end p \<noteq> Some (byte_total p)"
  shows "terminal_end p' \<noteq> Some (byte_total p')"
  using assms(3)
proof (cases rule: partial_insert_cases)
  case (accept p1)
  have "partial_inv lim p'" using partial_insert_inv [OF assms(1-3)] by blast
  then show ?thesis using accept complete_eq [of lim p'] by (auto split: if_splits)
qed (use assms(4) in auto)

section \<open>The invariant of the cache\<close>

definition cache_inv :: "reassembly_cache \<Rightarrow> bool" where
  "cache_inv c \<longleftrightarrow>
     hm_wf (partials c)
     \<and> hm_len (partials c) \<le> lim_max_pending_partials (cache_limits c)
     \<and> (\<forall>k p. hm_get (partials c) k = Some p \<longrightarrow>
          partial_inv (cache_limits c) p \<and> terminal_end p \<noteq> Some (byte_total p))"

lemma cache_inv_wf: "cache_inv c \<Longrightarrow> hm_wf (partials c)"
  by (simp add: cache_inv_def)

lemma cache_inv_get:
  "cache_inv c \<Longrightarrow> hm_get (partials c) k = Some p \<Longrightarrow>
     partial_inv (cache_limits c) p \<and> terminal_end p \<noteq> Some (byte_total p)"
  by (simp add: cache_inv_def)

lemma cache_inv_with_limits: "cache_inv (cache_with_limits lim)"
  by (simp add: cache_inv_def cache_with_limits_def hm.wf_empty hm.get_empty hm.len_empty)

lemma cache_limits_gc [simp]: "cache_limits (cache_gc c now) = cache_limits c"
  by (simp add: cache_gc_def)

lemma hm_get_gc:
  "hm_wf (partials c) \<Longrightarrow>
   hm_get (partials (cache_gc c now)) k =
     (case hm_get (partials c) k of
        None \<Rightarrow> None
      | Some p \<Rightarrow> if is_expired p now (lim_timeout (cache_limits c)) then None else Some p)"
  by (simp add: cache_gc_def hm.get_retain split: option.split)

lemma cache_inv_gc: "cache_inv c \<Longrightarrow> cache_inv (cache_gc c now)"
  using hm.len_retain_le [of "partials c"]
  by (auto simp: cache_inv_def cache_gc_def hm.wf_retain hm.get_retain intro: order_trans split: option.splits if_splits)

lemma cache_inv_remove: "cache_inv c \<Longrightarrow> cache_inv (c\<lparr>partials := hm_remove (partials c) k\<rparr>)"
  using hm.len_remove_le [of "partials c" k]
  by (auto simp: cache_inv_def hm.wf_remove hm.get_remove intro: order_trans split: if_splits)

lemma cache_inv_insert:
  assumes "cache_inv c" and "partial_inv (cache_limits c) p" and "terminal_end p \<noteq> Some (byte_total p)"
    and "hm_get (partials c) k \<noteq> None \<or> hm_len (partials c) < lim_max_pending_partials (cache_limits c)"
  shows "cache_inv (c\<lparr>partials := hm_insert (partials c) k p\<rparr>)"
proof -
  have "hm_len (hm_insert (partials c) k p) \<le> lim_max_pending_partials (cache_limits c)"
    using assms(1,4) hm.len_insert_old [of "partials c" k p] hm.len_insert_new [of "partials c" k p]
    by (cases "hm_get (partials c) k") (auto simp: cache_inv_def)
  then show ?thesis using assms(1-3) by (auto simp: cache_inv_def hm.wf_insert hm.get_insert split: if_splits)
qed

lemma normalized_new_Some:
  assumes "normalized_new f n = Some nf"
  shows "nf_end nf = nf_start nf + n" "nf_udp_length nf = rdos f"
    "nf_start nf = unat (frag_offset f) - 8" "8 \<le> unat (frag_offset f) \<or> (frag_offset f = 0 \<and> rdos f \<noteq> None)"
  using assms by (auto simp: normalized_new_def split: option.splits if_splits)

lemma normalized_new_eq:
  assumes "8 \<le> unat (frag_offset f) \<or> (frag_offset f = 0 \<and> rdos f \<noteq> None)" and "unat (frag_offset f) + n \<le> usize_max"
  shows "normalized_new f n =
    Some \<lparr>nf_start = unat (frag_offset f) - 8, nf_end = unat (frag_offset f) - 8 + n, nf_udp_length = rdos f\<rparr>"
  using assms by (auto simp: normalized_new_def checked_add_def checked_sub_def)

text \<open>
  The two ways an insertion goes once the fragment has passed the cache's own checks, written over the
  partial that the key already has or a fresh one.
\<close>

definition partial_of :: "reassembly_cache \<Rightarrow> frag_key \<Rightarrow> instant \<Rightarrow> partial" where
  "partial_of c key now = (case hm_get (partials c) key of None \<Rightarrow> partial_new now | Some p \<Rightarrow> p)"

definition cache_admits :: "reassembly_cache \<Rightarrow> normalized_fragment \<Rightarrow> bool" where
  "cache_admits c nf \<longleftrightarrow>
     (case nf_udp_length nf of None \<Rightarrow> 0 | Some n \<Rightarrow> unat n) \<le> lim_max_reassembled_size (cache_limits c)
     \<and> 8 + nf_end nf \<le> usize_max \<and> 8 + nf_end nf \<le> lim_max_reassembled_size (cache_limits c)"

definition cache_full :: "reassembly_cache \<Rightarrow> frag_key \<Rightarrow> bool" where
  "cache_full c key \<longleftrightarrow>
     hm_get (partials c) key = None
     \<and> hm_len (partials c) \<ge> lim_max_pending_partials (cache_limits c)"

lemma partial_inv_partial_of: "cache_inv c \<Longrightarrow> partial_inv (cache_limits c) (partial_of c key now)"
  by (auto simp: partial_of_def cache_inv_def partial_inv_new split: option.split)

definition store_result ::
  "reassembly_cache \<Rightarrow> frag_key \<Rightarrow> insert_result \<times> partial \<Rightarrow> reassembly_outcome \<times> reassembly_cache" where
  "store_result c key rp =
     (case rp of
        (InsertIncomplete, p) \<Rightarrow> (Incomplete, c\<lparr>partials := hm_insert (partials c) key p\<rparr>)
      | (InsertComplete r, p) \<Rightarrow> (Complete r, c\<lparr>partials := hm_remove (partials c) key\<rparr>)
      | (InsertAbort reason, p) \<Rightarrow> (Abort reason, c\<lparr>partials := hm_remove (partials c) key\<rparr>))"

lemma hm_get_insert_same: "hm_get (hm_insert m k v) k = Some v"
  by (simp add: hm_get_def hm_insert_def update_conv')

lemma hm_insert_insert: "hm_insert (hm_insert m k v) k w = hm_insert m k w"
  by (induction m) (auto simp: hm_insert_def)

lemma hm_remove_insert: "hm_get m k = None \<Longrightarrow> hm_remove (hm_insert m k v) k = hm_remove m k"
  by (induction m) (auto simp: hm_insert_def hm_remove_def hm_get_def split: if_splits)

lemma insert_with_options_and_failures_eq:
  "insert_with_options_and_failures c key f data proc now =
     (let c = cache_gc c now in
      case normalized_new f (length data) of
        None \<Rightarrow> Ok (cache_abort c key Overlap)
      | Some nf \<Rightarrow>
          if \<not> cache_admits c nf then Ok (cache_abort c key LimitExceeded)
          else if cache_full c key then Ok (insert_without_retaining c nf data proc now, c)
          else Ok (store_result c key (partial_insert (partial_of c key now) nf data (fp_options proc)
                 (fp_option_failures proc) (fp_ocs_nonzero proc) (cache_limits c))))"
proof (cases "normalized_new f (length data)")
  case None
  then show ?thesis by (simp add: insert_with_options_and_failures_def Let_def)
next
  case (Some nf)
  let ?c = "cache_gc c now"
  show ?thesis
  proof (cases "cache_admits ?c nf")
    case False
    with Some show ?thesis
      by (auto simp: insert_with_options_and_failures_def cache_admits_def checked_add_def Let_def not_le)
  next
    case True
    then have adm: "\<not> (case nf_udp_length nf of None \<Rightarrow> 0 | Some n \<Rightarrow> unat n) > lim_max_reassembled_size (cache_limits ?c)"
      "\<not> (case checked_add 8 (nf_end nf) of None \<Rightarrow> True | Some len \<Rightarrow> len > lim_max_reassembled_size (cache_limits ?c))"
      by (auto simp: cache_admits_def checked_add_def)
    show ?thesis
    proof (cases "hm_get (partials ?c) key")
      case None
      with Some True adm show ?thesis
        by (simp add: insert_with_options_and_failures_def Let_def cache_full_def hm_contains_key_def
            partial_of_def store_result_def hm_get_insert_same hm_insert_insert
            hm_remove_insert del: cache_limits_gc split: insert_result.split prod.split)
    next
      case p: (Some p)
      with Some True adm show ?thesis
        by (simp add: insert_with_options_and_failures_def Let_def cache_full_def hm_contains_key_def
            partial_of_def store_result_def del: cache_limits_gc split: insert_result.split prod.split)
    qed
  qed
qed

lemma insert_total:
  "\<exists>out c'. insert_with_options_and_failures c key f data proc now = Ok (out, c')"
  by (auto simp: insert_with_options_and_failures_eq Let_def split: option.split)

lemma insert_no_panic [panic_free, simp]: "insert_with_options_and_failures c key f data proc now \<noteq> Panic"
  by (simp add: insert_with_options_and_failures_eq Let_def split: option.split)

text \<open>How one insertion changes a cache that satisfies the invariant.\<close>

lemma insert_cases:
  assumes "cache_inv c"
    and "insert_with_options_and_failures c key f data proc now = Ok (out, c')"
  obtains (dropped) reason where "out = Abort reason" "c' = (cache_gc c now)\<lparr>partials := hm_remove (partials (cache_gc c now)) key\<rparr>"
  | (unretained) nf p where "normalized_new f (length data) = Some nf"
      "fragment_ok (cache_limits c) nf data" "c' = cache_gc c now" "hm_get (partials c') key = None"
      "(\<exists>reason. out = Abort reason) \<or>
        (\<exists>r. out = Complete r \<and> partial_insert (partial_new now) nf data (fp_options proc) (fp_option_failures proc)
          (fp_ocs_nonzero proc) (cache_limits c) = (InsertComplete r, p))"
  | (inserted) nf r p where "normalized_new f (length data) = Some nf"
      "fragment_ok (cache_limits c) nf data" "\<not> cache_full (cache_gc c now) key"
      "partial_insert (partial_of (cache_gc c now) key now) nf data (fp_options proc) (fp_option_failures proc)
        (fp_ocs_nonzero proc) (cache_limits c) = (r, p)"
      "(out, c') = store_result (cache_gc c now) key (r, p)"
proof -
  let ?c = "cache_gc c now"
  show thesis
  proof (cases "normalized_new f (length data)")
    case None
    with assms(2) show thesis
      by (intro dropped [of Overlap]) (auto simp: insert_with_options_and_failures_eq Let_def cache_abort_def)
  next
    case (Some nf)
    show thesis
    proof (cases "cache_admits ?c nf")
      case False
      with Some assms(2) show thesis
        by (intro dropped [of LimitExceeded]) (auto simp: insert_with_options_and_failures_eq Let_def cache_abort_def)
    next
      case True
      then have ok: "fragment_ok (cache_limits c) nf data"
        using normalized_new_Some(1) [OF Some] by (simp add: fragment_ok_def cache_admits_def)
      show thesis
      proof (cases "cache_full ?c key")
        case full: True
        obtain r p where rp: "partial_insert (partial_new now) nf data (fp_options proc) (fp_option_failures proc)
            (fp_ocs_nonzero proc) (cache_limits c) = (r, p)" by fastforce
        with Some True full assms(2) ok show thesis
          by (intro unretained [of nf p])
            (auto simp: insert_with_options_and_failures_eq Let_def insert_without_retaining_def cache_full_def
              split: insert_result.splits)
      next
        case full: False
        obtain r p where rp: "partial_insert (partial_of ?c key now) nf data (fp_options proc) (fp_option_failures proc)
            (fp_ocs_nonzero proc) (cache_limits c) = (r, p)" by fastforce
        with Some True full assms(2) ok show thesis
          by (intro inserted [of nf r p]) (auto simp: insert_with_options_and_failures_eq Let_def)
      qed
    qed
  qed
qed

lemma cache_inv_step:
  assumes "cache_inv c" and "insert_with_options_and_failures c key f data proc now = Ok (out, c')"
  shows "cache_inv c'" "cache_limits c' = cache_limits c"
proof -
  let ?c = "cache_gc c now"
  have inv: "cache_inv ?c" by (rule cache_inv_gc [OF assms(1)])
  show "cache_inv c'"
    using assms
  proof (cases rule: insert_cases)
    case (inserted nf r p)
    note pinv = partial_inv_partial_of [OF inv, of key now]
    have pi: "partial_inv (cache_limits c) (partial_of ?c key now)" using pinv by simp
    show ?thesis
    proof (cases r)
      case InsertIncomplete
      have "partial_inv (cache_limits c) p"
        using partial_insert_inv [OF pi inserted(2,4)] InsertIncomplete by simp
      moreover have "terminal_end (partial_of ?c key now) \<noteq> Some (byte_total (partial_of ?c key now))"
        using cache_inv_get [OF inv] by (auto simp: partial_of_def partial_new_def split: option.split)
      then have "terminal_end p \<noteq> Some (byte_total p)"
        using partial_insert_Incomplete [OF pi inserted(2)] inserted(4) InsertIncomplete by blast
      moreover have "hm_get (partials ?c) key \<noteq> None
          \<or> hm_len (partials ?c) < lim_max_pending_partials (cache_limits ?c)"
        using inserted(3) by (auto simp: cache_full_def)
      ultimately show ?thesis
        using inserted(5) InsertIncomplete cache_inv_insert [OF inv, of p key] by (simp add: store_result_def)
    qed (use inserted inv cache_inv_remove in \<open>auto simp: store_result_def\<close>)
  qed (use inv cache_inv_remove in auto)
  show "cache_limits c' = cache_limits c"
    using assms by (cases rule: insert_cases) (auto simp: store_result_def split: insert_result.splits)
qed

lemma insert_frame:
  assumes "cache_inv c" and "insert_with_options_and_failures c key f data proc now = Ok (out, c')" and "k \<noteq> key"
  shows "hm_get (partials c') k = hm_get (partials (cache_gc c now)) k"
proof -
  have "hm_wf (partials (cache_gc c now))" by (rule cache_inv_wf [OF cache_inv_gc [OF assms(1)]])
  with assms(3) show ?thesis
    by (cases rule: insert_cases [OF assms(1,2)])
      (auto simp: store_result_def hm.get_insert hm.get_remove split: insert_result.splits)
qed

lemma insert_Complete:
  assumes "cache_inv c" and "insert_with_options_and_failures c key f data proc now = Ok (Complete r, c')"
  shows "hm_get (partials c') key = None"
    and "8 \<le> unat (c_udp_length r)" and "unat (c_udp_length r) \<le> 8 + length (c_tail r)"
    and "8 + length (c_tail r) \<le> lim_max_reassembled_size (cache_limits c)"
proof -
  let ?c = "cache_gc c now"
  have wf: "hm_wf (partials ?c)" by (rule cache_inv_wf [OF cache_inv_gc [OF assms(1)]])
  have "hm_get (partials c') key = None \<and> (\<exists>p nf p'. partial_inv (cache_limits c) p \<and> fragment_ok (cache_limits c) nf data
      \<and> partial_insert p nf data (fp_options proc) (fp_option_failures proc) (fp_ocs_nonzero proc) (cache_limits c)
        = (InsertComplete r, p'))"
    using assms
  proof (cases rule: insert_cases)
    case (unretained nf p)
    then show ?thesis using partial_inv_new by blast
  next
    case (inserted nf r' p')
    have "partial_inv (cache_limits c) (partial_of ?c key now)"
      using partial_inv_partial_of [OF cache_inv_gc [OF assms(1)], of now key now] by simp
    moreover have "r' = InsertComplete r" "hm_get (partials c') key = None"
      using inserted(5) wf by (auto simp: store_result_def hm.get_remove split: insert_result.splits)
    ultimately show ?thesis using inserted by blast
  qed simp
  then obtain p nf p' where gone: "hm_get (partials c') key = None" and
    i: "partial_inv (cache_limits c) p" "fragment_ok (cache_limits c) nf data"
      "partial_insert p nf data (fp_options proc) (fp_option_failures proc) (fp_ocs_nonzero proc) (cache_limits c)
        = (InsertComplete r, p')" by blast
  note pc = partial_insert_Complete [OF i]
  then obtain u where "p_udp_length p' = Some u" by (auto simp: partial_inv_def)
  then show "hm_get (partials c') key = None" "8 \<le> unat (c_udp_length r)" "unat (c_udp_length r) \<le> 8 + length (c_tail r)"
    "8 + length (c_tail r) \<le> lim_max_reassembled_size (cache_limits c)"
    using gone pc length_completed_tail [OF pc(1)] by (auto simp: completed_of_def partial_inv_def)
qed

section \<open>Properties\<close>

text \<open>A cache for the witnesses, which holds one reassembly with one segment, started at instant 0.\<close>

definition sample_key :: "u32 \<Rightarrow> frag_key" where
  "sample_key i =
     \<lparr>key_src = Ipv4Addr 10 0 0 1, key_dst = Ipv4Addr 10 0 0 2, key_src_port = 1, key_dst_port = 2, key_identification = i\<rparr>"

definition sample_partial :: partial where
  "sample_partial =
     (partial_new 0)\<lparr>segments := [\<lparr>seg_start = 0, seg_end = 2, seg_data = [1, 2], seg_options = [], seg_option_failures = []\<rparr>],
                     fragment_count := 1, byte_total := 2\<rparr>"

definition sample_cache :: reassembly_cache where
  "sample_cache = cache_new\<lparr>partials := hm_insert hm_new (sample_key 9) sample_partial\<rparr>"

lemma sample_cache_inv: "cache_inv sample_cache"
proof -
  have "partial_inv default_limits sample_partial"
    by (simp add: sample_partial_def partial_inv_def partial_new_def default_limits_def MRDS_DEFAULT_IPV4_def MIN_REASSEMBLY_SEGMENTS_def)
  then have "cache_inv ((cache_with_limits default_limits)\<lparr>partials :=
      hm_insert (partials (cache_with_limits default_limits)) (sample_key 9) sample_partial\<rparr>)"
    by (intro cache_inv_insert cache_inv_with_limits)
      (simp_all add: sample_partial_def cache_with_limits_def partial_new_def default_limits_def hm_new_def hm_len_def
        REASSEMBLY_MAX_PENDING_PARTIALS_def)
  then show ?thesis by (simp add: sample_cache_def cache_new_def cache_with_limits_def)
qed

lemma sample_cache_get: "hm_get (partials sample_cache) (sample_key 9) = Some sample_partial"
  by (simp add: sample_cache_def hm_get_insert_same)

text \<open>
  C16: Reassemblies do not interfere: a fragment for one key leaves every other key as the collection of expired
  reassemblies leaves it: untouched until its timeout has passed since its first fragment, then gone.
\<close>

theorem reassembly_isolation:
  assumes "cache_inv c" and "insert_with_options_and_failures c key f data proc now = (Ok (out, c') :: (_, 'e) res)"
    and "k \<noteq> key"
  shows "hm_get (partials c') k =
    (case hm_get (partials c) k of
       None \<Rightarrow> None
     | Some p \<Rightarrow> if now - received_at p \<ge> min (lim_timeout (cache_limits c)) REASSEMBLY_TIMEOUT_MAX then None else Some p)"
  using insert_frame [OF assms] hm_get_gc [OF cache_inv_wf [OF assms(1)], of now k]
  by (auto simp: is_expired_def split: option.split)

theorem reassembly_isolation_witness:
  "(\<exists>out c'. (insert_with_options_and_failures sample_cache (sample_key 7)
        \<lparr>frag_start = 20, identification = 7, frag_offset = 8, rdos = None\<rparr> [1, 2]
        \<lparr>fp_options = [], fp_option_failures = [], fp_ocs_nonzero = Some True\<rparr> 5 :: (_, unit) res) = Ok (out, c')
      \<and> hm_get (partials c') (sample_key 9) = Some sample_partial)
   \<and> (\<exists>out c'. (insert_with_options_and_failures sample_cache (sample_key 7)
        \<lparr>frag_start = 20, identification = 7, frag_offset = 8, rdos = None\<rparr> [1, 2]
        \<lparr>fp_options = [], fp_option_failures = [], fp_ocs_nonzero = Some True\<rparr> REASSEMBLY_TIMEOUT_MAX :: (_, unit) res) = Ok (out, c')
      \<and> hm_get (partials c') (sample_key 9) = None)"
proof -
  let ?f = "\<lparr>frag_start = 20, identification = 7, frag_offset = 8, rdos = None\<rparr>"
  let ?proc = "\<lparr>fp_options = [], fp_option_failures = [], fp_ocs_nonzero = Some True\<rparr>"
  obtain out c1 where 1: "(insert_with_options_and_failures sample_cache (sample_key 7) ?f [1, 2] ?proc 5 :: (_, unit) res) = Ok (out, c1)"
    using insert_total by blast
  obtain out' c2 where 2: "(insert_with_options_and_failures sample_cache (sample_key 7) ?f [1, 2] ?proc REASSEMBLY_TIMEOUT_MAX
      :: (_, unit) res) = Ok (out', c2)"
    using insert_total by blast
  have k: "sample_key 9 \<noteq> sample_key 7" by (simp add: sample_key_def)
  have "received_at sample_partial = 0" "\<not> min (lim_timeout (cache_limits sample_cache)) REASSEMBLY_TIMEOUT_MAX \<le> 5"
    by (simp_all add: min_le_iff_disj sample_partial_def partial_new_def sample_cache_def cache_new_def cache_with_limits_def default_limits_def
        REASSEMBLY_TIMEOUT_MAX_def)
  then have "hm_get (partials c1) (sample_key 9) = Some sample_partial" "hm_get (partials c2) (sample_key 9) = None"
    using reassembly_isolation [OF sample_cache_inv 1 k] reassembly_isolation [OF sample_cache_inv 2 k]
    by (simp_all add: sample_cache_get)
  then show ?thesis using 1 2 by blast
qed

text \<open>
  C15: Accepting a fragment always returns, and a completed reassembly is sound: its tail is within the configured size
  and long enough for the UDP length it carries, the cache no longer holds the key, and the cache keeps
  its invariant and its limits.
\<close>

theorem reassembly_completes_soundly:
  assumes "cache_inv c"
  shows "\<exists>out c'. insert_with_options_and_failures c key f data proc now = (Ok (out, c') :: (_, 'e) res)
    \<and> cache_inv c' \<and> cache_limits c' = cache_limits c
    \<and> (case out of
         Complete r \<Rightarrow> hm_get (partials c') key = None \<and> 8 \<le> unat (c_udp_length r)
           \<and> unat (c_udp_length r) \<le> 8 + length (c_tail r)
           \<and> 8 + length (c_tail r) \<le> lim_max_reassembled_size (cache_limits c)
       | Abort reason \<Rightarrow> hm_get (partials c') key = None
       | Incomplete \<Rightarrow> hm_get (partials c') key \<noteq> None)"
proof -
  obtain out c' where i: "(insert_with_options_and_failures c key f data proc now :: (_, 'e) res) = Ok (out, c')"
    using insert_total by blast
  have "case out of Complete r \<Rightarrow> True | Abort reason \<Rightarrow> hm_get (partials c') key = None
      | Incomplete \<Rightarrow> hm_get (partials c') key \<noteq> None"
    using assms i
  proof (cases rule: insert_cases)
    case (dropped reason)
    then show ?thesis using cache_inv_wf [OF cache_inv_gc [OF assms]] by (simp add: hm.get_remove)
  next
    case (unretained nf p)
    then show ?thesis by (auto split: reassembly_outcome.split)
  next
    case (inserted nf r p)
    then show ?thesis
      using cache_inv_wf [OF cache_inv_gc [OF assms]]
      by (auto simp: store_result_def hm.get_remove hm_get_insert_same split: insert_result.splits)
  qed
  then show ?thesis
    using i cache_inv_step [OF assms i] insert_Complete [OF assms, of key f data proc now]
    by (cases out) auto
qed

theorem reassembly_completes_soundly_witness:
  "\<exists>out c'. (insert_with_options_and_failures cache_new
      \<lparr>key_src = Ipv4Addr 10 0 0 1, key_dst = Ipv4Addr 10 0 0 2, key_src_port = 1, key_dst_port = 2, key_identification = 9\<rparr>
      \<lparr>frag_start = 20, identification = 9, frag_offset = 8, rdos = None\<rparr> [1, 2]
      \<lparr>fp_options = [], fp_option_failures = [], fp_ocs_nonzero = Some True\<rparr> 0 :: (_, unit) res) = Ok (out, c') \<and> cache_inv c'"
  using reassembly_completes_soundly [OF cache_inv_with_limits [of default_limits], where ?'e = unit,
      of "\<lparr>key_src = Ipv4Addr 10 0 0 1, key_dst = Ipv4Addr 10 0 0 2, key_src_port = 1, key_dst_port = 2, key_identification = 9\<rparr>"
      "\<lparr>frag_start = 20, identification = 9, frag_offset = 8, rdos = None\<rparr>" "[1, 2]"
      "\<lparr>fp_options = [], fp_option_failures = [], fp_ocs_nonzero = Some True\<rparr>" 0]
  by (auto simp: cache_new_def)

lemma segs_ok_disjoint:
  "segs_ok lo ss \<Longrightarrow> s \<in> set ss \<Longrightarrow> t \<in> set ss \<Longrightarrow> seg_start t < seg_end s \<Longrightarrow> seg_start s < seg_end t \<Longrightarrow> s = t"
proof (induction ss arbitrary: lo)
  case (Cons u ss)
  have "seg_end u \<le> seg_start v" if "v \<in> set ss" for v
    using segs_ok_bounds [of "seg_end u" ss v] that Cons.prems(1) by simp
  then show ?case using Cons by fastforce
qed simp

text \<open>A fragment repeats a held segment: the same range, data, options and failures, and the same end of the datagram.\<close>

definition repeats :: "partial \<Rightarrow> segment \<Rightarrow> normalized_fragment \<Rightarrow> bytes \<Rightarrow> fragment_processing \<Rightarrow> bool" where
  "repeats p s nf data proc \<longleftrightarrow>
     seg_start s = nf_start nf \<and> seg_end s = nf_end nf \<and> seg_data s = data
     \<and> seg_options s = fp_options proc \<and> seg_option_failures s = fp_option_failures proc
     \<and> (nf_udp_length nf = None \<or> p_udp_length p = nf_udp_length nf \<and> terminal_end p = Some (nf_end nf))"

lemma is_exact_duplicate_overlap:
  assumes "segs_ok 0 (segments p)" and "s \<in> set (segments p)" and "nf_start nf < seg_end s" and "seg_start s < nf_end nf"
    and "data \<noteq> []"
  shows "is_exact_duplicate p nf data (fp_options proc) (fp_option_failures proc) \<longleftrightarrow> repeats p s nf data proc"
proof -
  have "t = s" if "t \<in> set (segments p)" "seg_start t = nf_start nf" "seg_end t = nf_end nf" for t
    using segs_ok_disjoint [OF assms(1) that(1) assms(2)] assms(3,4) that(2,3) by simp
  then show ?thesis
    using assms(2,5) by (auto simp: is_exact_duplicate_def repeats_def Let_def split: option.split)
qed

text \<open>
  C11: Overlaps poison a reassembly: a fragment that overlaps a segment already held aborts and discards the whole
  reassembly, unless it repeats this segment exactly, in range, data, per-fragment options and their
  failures, and in the UDP length if it is terminal. A repetition is absorbed: the reassembly stays as it is, but
  for the record of whether a fragment carried a non-zero option checksum, which the repetition enters.
\<close>

theorem overlap_discards:
  assumes "cache_inv c" and "hm_get (partials (cache_gc c now)) key = Some p"
    and "normalized_new f (length data) = Some nf" and "cache_admits c nf"
    and "s \<in> set (segments p)" and "nf_start nf < nf_end nf" and "nf_start nf < seg_end s" and "seg_start s < nf_end nf"
  shows "\<exists>out c'. insert_with_options_and_failures c key f data proc now = (Ok (out, c') :: (_, 'e) res)
    \<and> (if seg_start s = nf_start nf \<and> seg_end s = nf_end nf \<and> seg_data s = data
          \<and> seg_options s = fp_options proc \<and> seg_option_failures s = fp_option_failures proc
          \<and> (rdos f = None \<or> p_udp_length p = rdos f \<and> terminal_end p = Some (nf_end nf))
       then out = Incomplete
         \<and> hm_get (partials c') key = Some (p\<lparr>p_fragment_ocs_nonzero :=
              (case (p_fragment_ocs_nonzero p, fp_ocs_nonzero proc) of (Some a, Some b) \<Rightarrow> Some (a \<or> b) | _ \<Rightarrow> None)\<rparr>)
       else out = Abort (if fragment_count p < lim_max_segments (cache_limits c)
                            \<and> byte_total p + length data + 8 \<le> lim_max_reassembled_size (cache_limits c)
                            \<and> byte_total p + length data + 8 \<le> usize_max \<and> fragment_count p + 1 \<le> usize_max
                         then Overlap else LimitExceeded)
         \<and> hm_get (partials c') key = None)"
proof -
  obtain ok p1 where t: "observe_terminal p nf data (fp_options proc) (fp_option_failures proc) = (ok, p1)" by force
  have o: "overlaps p (nf_start nf) (nf_end nf)" using assms(5-8) by (auto simp: overlaps_def)
  have n: "nf_udp_length nf = rdos f" "nf_end nf = nf_start nf + length data"
    using assms(3) by (auto simp: normalized_new_def checked_add_def split: option.splits if_splits)
  have "segs_ok 0 (segments p)"
    using cache_inv_get [OF cache_inv_gc [OF assms(1)] assms(2)] by (simp add: partial_inv_def)
  note dup = is_exact_duplicate_overlap [OF this assms(5,7,8), of data proc, unfolded repeats_def n(1)]
  have "data \<noteq> []" using n(2) assms(6) by auto
  note dup = dup [OF this]
  have "cache_admits (cache_gc c now) nf" using assms(4) by (simp add: cache_admits_def)
  moreover have "\<not> cache_full (cache_gc c now) key" "partial_of (cache_gc c now) key now = p"
    using assms(2) by (simp_all add: cache_full_def partial_of_def)
  ultimately have "insert_with_options_and_failures c key f data proc now =
      (Ok (store_result (cache_gc c now) key (partial_insert p nf data (fp_options proc) (fp_option_failures proc)
        (fp_ocs_nonzero proc) (cache_limits c))) :: (_, 'e) res)"
    by (simp add: insert_with_options_and_failures_eq assms(3) Let_def)
  then show ?thesis
    using cache_inv_wf [OF cache_inv_gc [OF assms(1)]] o
    unfolding partial_insert_eq [OF t] dup
    by (auto simp: store_result_def hm.get_remove hm_get_insert_same observe_fragment_ocs_def over_limit_def)
qed

theorem overlap_discards_witness:
  "\<exists>c'. (insert_with_options_and_failures sample_cache (sample_key 9)
      \<lparr>frag_start = 20, identification = 9, frag_offset = 9, rdos = None\<rparr> [7]
      \<lparr>fp_options = [], fp_option_failures = [], fp_ocs_nonzero = Some True\<rparr> 5 :: (_, unit) res) = Ok (Abort Overlap, c')
    \<and> hm_get (partials c') (sample_key 9) = None"
proof -
  let ?f = "\<lparr>frag_start = 20, identification = 9, frag_offset = 9, rdos = None\<rparr>"
  let ?nf = "\<lparr>nf_start = 1, nf_end = 2, nf_udp_length = None\<rparr>"
  let ?proc = "\<lparr>fp_options = [], fp_option_failures = [], fp_ocs_nonzero = Some True\<rparr>"
  have l: "cache_limits sample_cache = default_limits"
    by (simp add: sample_cache_def cache_new_def cache_with_limits_def)
  have p: "received_at sample_partial = 0" "fragment_count sample_partial = 1" "byte_total sample_partial = 2"
    "segments sample_partial = [\<lparr>seg_start = 0, seg_end = 2, seg_data = [1, 2], seg_options = [], seg_option_failures = []\<rparr>]"
    by (simp_all add: sample_partial_def partial_new_def)
  have get: "hm_get (partials (cache_gc sample_cache 5)) (sample_key 9) = Some sample_partial"
    using hm_get_gc [OF cache_inv_wf [OF sample_cache_inv], of 5 "sample_key 9"]
    by (simp add: sample_cache_get is_expired_def p) (simp add: l default_limits_def REASSEMBLY_TIMEOUT_MAX_def)
  have n: "normalized_new ?f (length [7 :: byte]) = Some ?nf"
    by (simp add: normalized_new_eq usize_max_def)
  have a: "cache_admits sample_cache ?nf"
    by (simp add: cache_admits_def l default_limits_def MRDS_DEFAULT_IPV4_def usize_max_def)
  from overlap_discards [OF sample_cache_inv get n a, of "hd (segments sample_partial)" ?proc, where ?'e = unit] show ?thesis
    by (simp add: l p default_limits_def MRDS_DEFAULT_IPV4_def MIN_REASSEMBLY_SEGMENTS_def usize_max_def)
qed

end
