(* ===== verification/Ocs.thy ===== *)
theory Ocs
  imports Checksum Errors
begin

text \<open>
  The Option Checksum (\<open>src/options/ocs.rs\<close>): \<open>compute\<close> back-patches it into an OCS-led body,
  \<open>validate\<close> gives the disposition of a stored one, \<open>check_pad\<close> checks the alignment byte. A body
  validates exactly when it is a fixed point of \<open>compute\<close>.
\<close>

section \<open>Computation and validation\<close>

definition OCS_LEN :: usize where "OCS_LEN = 2"

datatype ocs_check = Valid | Unused | IgnoreOptions | OcsError parse_error

definition ocs_compute :: "bytes \<Rightarrow> u16 \<Rightarrow> (bytes, 'e) res" where
  "ocs_compute body surplus_len =
     and_then (assert_that (length body \<ge> OCS_LEN)) (\<lambda>_.
     and_then (put_slice body 0 (replicate OCS_LEN 0)) (\<lambda>body.
     let checksum = add_u16 (add_slice checksum_new body) surplus_len;
         ocs = checksum_finish checksum;
         ocs = (if ocs = 0 then 0xffff else ocs)
     in put_slice body 0 (u16_to_be_bytes ocs)))"

definition ocs_validate :: "bytes \<Rightarrow> u16 \<Rightarrow> u16 \<Rightarrow> (ocs_check, 'e) res" where
  "ocs_validate body surplus_len udp_checksum_field =
     (if length body < OCS_LEN then Ok (OcsError (Overrun 0)) else
      and_then (idx body 0) (\<lambda>b0. and_then (idx body 1) (\<lambda>b1.
      let ocs = u16_from_be_bytes b0 b1 in
      if ocs = 0 then Ok (if udp_checksum_field = 0 then Unused else IgnoreOptions)
      else
        let checksum = add_u16 (add_slice checksum_new body) surplus_len in
        Ok (if checksum_sum checksum = 0xffff then Valid else OcsError OcsMismatch))))"

definition check_pad :: "byte \<Rightarrow> bool \<Rightarrow> (unit, parse_error) res" where
  "check_pad pad needs_pad = (if needs_pad \<and> pad \<noteq> 0 then Err NonZeroPad else Ok ())"

section \<open>The stored value\<close>

text \<open>The checksum of the options behind the two-byte field, never zero.\<close>

definition ocs_value :: "bytes \<Rightarrow> u16 \<Rightarrow> u16" where
  "ocs_value opts n = nonzero_or_ones (checksum_finish (add_u16 (add_slice checksum_new (0 # 0 # opts)) n))"

lemma ocs_value_neq_0 [simp]: "ocs_value opts n \<noteq> 0"
  by (simp add: ocs_value_def nonzero_or_ones_def)

lemma unat_nonzero_or_ones: "unat (nonzero_or_ones w) = (if unat w = 0 then 65535 else unat w)"
  by (simp add: nonzero_or_ones_def word_unat_eq_iff)

lemma ocs_compute_Ok: "ocs_compute (a # b # opts) n = Ok (u16_to_be_bytes (ocs_value opts n) @ opts)"
  by (simp add: ocs_compute_def OCS_LEN_def Let_def ocs_value_def nonzero_or_ones_def numeral_2_eq_2)

lemma ocs_compute_Panic_iff: "ocs_compute body n = Panic \<longleftrightarrow> length body < 2"
proof (cases "length body < 2")
  case False
  then obtain a b opts where "body = a # b # opts"
    by (cases body; cases "tl body") auto
  then show ?thesis by (simp add: ocs_compute_Ok)
qed (simp add: ocs_compute_def OCS_LEN_def)

lemma ocs_validate_no_panic [panic_free]: "ocs_validate body n u \<noteq> Panic"
  by (auto simp: ocs_validate_def OCS_LEN_def Let_def panic_iffs ok_iffs split: if_splits)

lemma checksum_sum_ocs:
  "checksum_sum (add_u16 (add_slice checksum_new (a # b # opts)) n) =
   checksum_sum (add_u16 (add_u16 (add_slice checksum_new (0 # 0 # opts)) n) (u16_from_be_bytes a b))"
  by (simp add: word_unat_eq_iff cs.total_val cs.val_laws cs.inv_laws ones_fold_adds
      unat_u16_from_be_bytes ac_simps)

lemma ocs_validate_eq:
  "ocs_validate (a # b # opts) n u = Ok (
     if u16_from_be_bytes a b = 0 then (if u = 0 then Unused else IgnoreOptions)
     else if u16_from_be_bytes a b = ocs_value opts n then Valid
     else OcsError OcsMismatch)"
proof -
  let ?c = "add_u16 (add_slice checksum_new (0 # 0 # opts)) n" and ?w = "u16_from_be_bytes a b"
  have "checksum_sum (add_u16 (add_slice checksum_new (a # b # opts)) n) = 0xffff \<longleftrightarrow>
      ?w = checksum_finish ?c \<or> (?w = 0xffff \<and> checksum_finish ?c = 0)"
    unfolding checksum_sum_ocs by (rule cs.accept_iff) (intro cs.inv_laws)
  then have "?w \<noteq> 0 \<Longrightarrow> checksum_sum (add_u16 (add_slice checksum_new (a # b # opts)) n) = 0xffff
      \<longleftrightarrow> ?w = ocs_value opts n"
    unfolding ocs_value_def nonzero_or_ones_def by argo
  then show ?thesis by (simp add: ocs_validate_def OCS_LEN_def Let_def del: add_slice.simps)
qed

lemma ocs_validate_computed: "ocs_validate (u16_to_be_bytes (ocs_value opts n) @ opts) n u = Ok Valid"
  using u16_from_be_bytes_inverse [of "ocs_value opts n"]
  by (simp add: u16_to_be_bytes_def ocs_validate_eq)

section \<open>Corruption\<close>

lemma ones_fold_word_change:
  fixes v w :: u16
  assumes "ones_fold (m + unat v) = ones_fold (m + unat w)" and "v \<noteq> w"
  shows "{v, w} = {0, 0xffff}"
proof -
  have eq: "(m + unat v) mod 65535 = (m + unat w) mod 65535" using assms(1) by (simp add: ones_fold_eq_iff)
  have dvd: "unat w < unat v \<Longrightarrow> 65535 dvd unat v - unat w" "unat v < unat w \<Longrightarrow> 65535 dvd unat w - unat v"
    using mod_eq_dvd_iff_nat [of "m + unat w" "m + unat v" 65535] mod_eq_dvd_iff_nat [of "m + unat v" "m + unat w" 65535] eq
    by simp_all
  have bound: "unat v \<le> 65535" "unat w \<le> 65535"
    using unat_u16_less [of v] unat_u16_less [of w] by linarith+
  show ?thesis
  proof (cases "unat w < unat v")
    case True
    with dvd(1) bound have "unat v - unat w = 65535" using dvd_imp_le [of 65535 "unat v - unat w"] by linarith
    with bound have "unat v = 65535" "unat w = 0" by linarith+
    then show ?thesis by (auto simp: word_unat_eq_iff)
  next
    case False
    with assms(2) have "unat v < unat w" by (simp add: word_unat_eq_iff)
    with dvd(2) bound have "unat w - unat v = 65535" using dvd_imp_le [of 65535 "unat w - unat v"] by linarith
    with bound have "unat w = 65535" "unat v = 0" by linarith+
    then show ?thesis by (auto simp: word_unat_eq_iff)
  qed
qed

lemma ocs_value_word_change:
  fixes v w :: u16
  assumes "even (length xs)" and "v \<noteq> w" and "{v, w} \<noteq> {0, 0xffff}"
  shows "ocs_value (xs @ u16_to_be_bytes v @ ys) n \<noteq> ocs_value (xs @ u16_to_be_bytes w @ ys) n"
proof
  define m where "m = words_total xs + words_total ys + unat n"
  assume eq: "ocs_value (xs @ u16_to_be_bytes v @ ys) n = ocs_value (xs @ u16_to_be_bytes w @ ys) n"
  have fin: "unat (checksum_finish (add_u16 (add_slice checksum_new (0 # 0 # xs @ u16_to_be_bytes z @ ys)) n)) =
      65535 - ones_fold (m + unat z)" for z
    using assms(1) by (simp add: cs.unat_fin cs.val_laws cs.inv_laws words_total_append unat_u16_from_be_bytes
        ones_fold_adds m_def ac_simps)
  define f g where "f = ones_fold (m + unat v)" and "g = ones_fold (m + unat w)"
  have le: "f \<le> 65535" "g \<le> 65535"
    using ones_fold_less [of "m + unat v"] ones_fold_less [of "m + unat w"] unfolding f_def g_def by linarith+
  have val: "unat (ocs_value (xs @ u16_to_be_bytes z @ ys) n) =
      (if ones_fold (m + unat z) = 65535 then 65535 else 65535 - ones_fold (m + unat z))" for z
  proof -
    have "65535 - ones_fold (m + unat z) = 0 \<longleftrightarrow> ones_fold (m + unat z) = 65535"
      using ones_fold_less [of "m + unat z"] by linarith
    then show ?thesis by (simp only: ocs_value_def unat_nonzero_or_ones fin)
  qed
  from eq have "f = g \<or> (f = 65535 \<and> g = 0) \<or> (f = 0 \<and> g = 65535)"
    using val [of v] val [of w] le unfolding f_def [symmetric] g_def [symmetric]
    by (simp split: if_splits)
  then show False
  proof (elim disjE)
    assume "f = g"
    then show False using ones_fold_word_change [of m v w] assms unfolding f_def g_def by blast
  next
    assume "f = 65535 \<and> g = 0"
    then have "m = 0" "unat w = 0" by (simp_all add: f_def g_def)
    moreover from this \<open>f = 65535 \<and> g = 0\<close> have "unat v = 65535" by (simp add: f_def)
    ultimately have "unat w = 0" "unat v = 65535" by blast+
    then show False using assms(3) by (auto simp: word_unat_eq_iff)
  next
    assume "f = 0 \<and> g = 65535"
    then have "m = 0" "unat v = 0" by (simp_all add: f_def g_def)
    moreover from this \<open>f = 0 \<and> g = 65535\<close> have "unat w = 65535" by (simp add: g_def)
    ultimately have "unat v = 0" "unat w = 65535" by blast+
    then show False using assms(3) by (auto simp: word_unat_eq_iff)
  qed
qed

section \<open>Properties\<close>

lemma ocs_word_change_detected:
  fixes v w :: u16
  assumes "even (length xs)" and "v \<noteq> w" and "{v, w} \<noteq> {0, 0xffff}"
  shows "(ocs_validate (u16_to_be_bytes (ocs_value (xs @ u16_to_be_bytes v @ ys) n) @ xs @ u16_to_be_bytes w @ ys) n u
    :: (_, 'e) res) = Ok (OcsError OcsMismatch)"
proof -
  let ?o = "ocs_value (xs @ u16_to_be_bytes v @ ys) n"
  obtain a b where ab: "u16_to_be_bytes ?o = [a, b]" by (simp add: u16_to_be_bytes_def)
  then have "u16_from_be_bytes a b = ?o" by (auto simp: u16_to_be_bytes_def)
  then show ?thesis
    using ocs_value_word_change [OF assms, of ys n] by (simp add: ab ocs_validate_eq)
qed

text \<open>
  C23: The option checksum protects the options. Computing it over a body with room for it changes nothing but its two
  bytes, never stores zero, and the result validates, whatever the UDP checksum. After the corruption of any one aligned
  16-bit word of the options it no longer validates, the one exception being a change between the two
  representations of zero in one's-complement arithmetic.
\<close>

theorem ocs_protects_options:
  assumes "2 \<le> length body"
  shows "\<exists>ocs. (ocs_compute body n :: (_, 'e) res) = Ok (u16_to_be_bytes ocs @ drop 2 body) \<and> ocs \<noteq> 0
    \<and> (ocs_validate (u16_to_be_bytes ocs @ drop 2 body) n u :: (_, 'e) res) = Ok Valid
    \<and> (\<forall>xs ys v w. drop 2 body = xs @ u16_to_be_bytes v @ ys \<and> even (length xs) \<and> v \<noteq> w \<and> {v, w} \<noteq> {0, 0xffff} \<longrightarrow>
        (ocs_validate (u16_to_be_bytes ocs @ xs @ u16_to_be_bytes w @ ys) n u :: (_, 'e) res) = Ok (OcsError OcsMismatch))"
proof -
  obtain a b opts where body: "body = a # b # opts" using assms by (metis Suc_le_length_iff numeral_2_eq_2)
  let ?o = "ocs_value opts n"
  have "(ocs_validate (u16_to_be_bytes ?o @ xs @ u16_to_be_bytes w @ ys) n u :: (_, 'e) res) = Ok (OcsError OcsMismatch)"
    if "opts = xs @ u16_to_be_bytes v @ ys" "even (length xs)" "v \<noteq> w" "{v, w} \<noteq> {0, 0xffff}" for xs ys v w
    using ocs_word_change_detected [OF that(2-4), of ys n u, where 'e = 'e] that(1) by simp
  then show ?thesis by (intro exI [of _ ?o]) (auto simp: body ocs_compute_Ok ocs_validate_computed)
qed

theorem ocs_protects_options_witness:
  "\<exists>ocs. (ocs_compute [0, 0, 4, 4, 5, 220, 0, 0] 8 :: (_, unit) res) = Ok (u16_to_be_bytes ocs @ [4, 4, 5, 220, 0, 0])
    \<and> (ocs_validate (u16_to_be_bytes ocs @ [4, 4, 5, 220, 0, 0]) 8 99 :: (_, unit) res) = Ok Valid
    \<and> (ocs_validate (u16_to_be_bytes ocs @ [4, 4, 35, 40, 0, 0]) 8 99 :: (_, unit) res) = Ok (OcsError OcsMismatch)"
proof -
  have w: "u16_to_be_bytes 1500 = [5, 220]" "u16_to_be_bytes 9000 = [35, 40]" by code_simp+
  obtain ocs where o: "(ocs_compute [0, 0, 4, 4, 5, 220, 0, 0] 8 :: (_, unit) res) = Ok (u16_to_be_bytes ocs @ [4, 4, 5, 220, 0, 0])"
    "(ocs_validate (u16_to_be_bytes ocs @ [4, 4, 5, 220, 0, 0]) 8 99 :: (_, unit) res) = Ok Valid"
    "\<And>xs ys v w. [4, 4, 5, 220, 0, 0] = xs @ u16_to_be_bytes v @ ys \<Longrightarrow> even (length xs) \<Longrightarrow> v \<noteq> w \<Longrightarrow> {v, w} \<noteq> {0, 0xffff} \<Longrightarrow>
      (ocs_validate (u16_to_be_bytes ocs @ xs @ u16_to_be_bytes w @ ys) 8 99 :: (_, unit) res) = Ok (OcsError OcsMismatch)"
    using ocs_protects_options [of "[0, 0, 4, 4, 5, 220, 0, 0]" 8 99, where ?'e = unit] by auto
  moreover have "(ocs_validate (u16_to_be_bytes ocs @ [4, 4, 35, 40, 0, 0]) 8 99 :: (_, unit) res) = Ok (OcsError OcsMismatch)"
    using o(3) [of "[4, 4]" 1500 "[0, 0]" 9000] by (simp add: w doubleton_eq_iff)
  ultimately show ?thesis by blast
qed

end
