(* ===== verification/Udp_Header.thy ===== *)
theory Udp_Header
  imports Ip_Header
begin

text \<open>
  The UDP header and its checksum (\<open>src/wire/udp.rs\<close>): \<open>UdpHeader::parse\<close>, \<open>write\<close> and
  \<open>compute_checksum\<close>, with the round trip of the eight bytes and the law that a computed checksum is
  never zero and verifies on the receiver's side.
\<close>

section \<open>The header\<close>

definition HEADER_LEN :: usize where
  "HEADER_LEN = unat length_UDP_HEADER"

record udp_header =
  src_port :: u16
  dst_port :: u16
  udp_length :: u16
  udp_checksum :: u16

definition udp_parse :: "bytes \<Rightarrow> (udp_header, header_error) res" where
  "udp_parse bs =
     (if length bs < HEADER_LEN then Err (UdpTruncated (length bs)) else
      and_then (idx bs 4) (\<lambda>b4. and_then (idx bs 5) (\<lambda>b5.
      let len = u16_from_be_bytes b4 b5 in
      if unat len < HEADER_LEN then Err (UdpLengthInvalid len) else
      and_then (idx bs 0) (\<lambda>b0. and_then (idx bs 1) (\<lambda>b1.
      and_then (idx bs 2) (\<lambda>b2. and_then (idx bs 3) (\<lambda>b3.
      and_then (idx bs 6) (\<lambda>b6. and_then (idx bs 7) (\<lambda>b7.
      Ok \<lparr>src_port = u16_from_be_bytes b0 b1, dst_port = u16_from_be_bytes b2 b3,
          udp_length = len, udp_checksum = u16_from_be_bytes b6 b7\<rparr>)))))))))"

definition udp_write :: "udp_header \<Rightarrow> bytes \<Rightarrow> (bytes, 'e) res" where
  "udp_write h out =
     and_then (put_slice out 0 (u16_to_be_bytes (src_port h))) (\<lambda>out.
     and_then (put_slice out 2 (u16_to_be_bytes (dst_port h))) (\<lambda>out.
     and_then (put_slice out 4 (u16_to_be_bytes (udp_length h))) (\<lambda>out.
     put_slice out 6 (u16_to_be_bytes (udp_checksum h)))))"

definition compute_checksum :: "udp_header \<Rightarrow> ip_repr \<Rightarrow> bytes \<Rightarrow> (u16, 'e) res" where
  "compute_checksum h ip data =
     and_then (assert_that (unat (udp_length h) = HEADER_LEN + length data)) (\<lambda>_.
     let sum = pseudo_header_sum ip (udp_length h);
         sum = add_u16 sum (src_port h);
         sum = add_u16 sum (dst_port h);
         sum = add_u16 sum (udp_length h);
         sum = add_slice sum data
     in Ok (if checksum_finish sum = 0 then 0xffff else checksum_finish sum))"

section \<open>Reading and writing\<close>

text \<open>The eight bytes of a header, in network byte order.\<close>

definition udp_header_bytes :: "udp_header \<Rightarrow> bytes" where
  "udp_header_bytes h =
     u16_to_be_bytes (src_port h) @ u16_to_be_bytes (dst_port h)
     @ u16_to_be_bytes (udp_length h) @ u16_to_be_bytes (udp_checksum h)"

lemma HEADER_LEN_eq [simp, wire_simps]: "HEADER_LEN = 8"
  by (simp add: HEADER_LEN_def)

lemma length_udp_header_bytes [simp, wire_simps]: "length (udp_header_bytes h) = 8"
  by (simp add: udp_header_bytes_def)

lemma udp_write_Ok: "8 \<le> length out \<Longrightarrow> udp_write h out = Ok (udp_header_bytes h @ drop 8 out)"
  by (simp add: udp_write_def udp_header_bytes_def min_def drop_append take_append)

lemma udp_write_Panic: "length out < 8 \<Longrightarrow> udp_write h out = Panic"
  by (auto simp: udp_write_def panic_iffs ok_iffs not_le)

lemma udp_parse_no_panic [panic_free]: "udp_parse bs \<noteq> Panic"
  by (auto simp: udp_parse_def Let_def panic_iffs ok_iffs split: if_splits)

lemma udp_parse_Ok_iff:
  "udp_parse bs = Ok h \<longleftrightarrow> 8 \<le> unat (udp_length h) \<and> (\<exists>rest. bs = udp_header_bytes h @ rest)"
proof
  assume ok: "udp_parse bs = Ok h"
  then have "8 \<le> length bs" by (auto simp: udp_parse_def split: if_splits)
  then obtain b0 b1 b2 b3 b4 b5 b6 b7 rest where bs: "bs = b0 # b1 # b2 # b3 # b4 # b5 # b6 # b7 # rest"
    by (auto simp: numeral_eq_Suc Suc_le_length_iff)
  from ok show "8 \<le> unat (udp_length h) \<and> (\<exists>rest. bs = udp_header_bytes h @ rest)"
    unfolding bs by (auto simp: udp_parse_def udp_header_bytes_def Let_def split: if_splits)
next
  assume "8 \<le> unat (udp_length h) \<and> (\<exists>rest. bs = udp_header_bytes h @ rest)"
  then show "udp_parse bs = Ok h"
    by (auto simp: udp_parse_def udp_header_bytes_def u16_to_be_bytes_def)
qed

lemma udp_parse_written: "8 \<le> unat (udp_length h) \<Longrightarrow> udp_parse (udp_header_bytes h @ rest) = Ok h"
  by (auto simp: udp_parse_Ok_iff)

section \<open>The checksum\<close>

text \<open>The regions the receiver sums: pseudo-header, header with its stored checksum, user data.\<close>

definition udp_verify_sum :: "udp_header \<Rightarrow> ip_repr \<Rightarrow> bytes \<Rightarrow> checksum" where
  "udp_verify_sum h ip data =
     add_slice (add_slice (pseudo_header_sum ip (udp_length h)) (udp_header_bytes h)) data"

lemma pseudo_header_sum_inv [simp]: "checksum_inv (pseudo_header_sum ip n)"
  by (simp add: pseudo_header_sum_def cs.inv_laws)

lemma words_total_udp_header_bytes:
  "words_total (udp_header_bytes h) =
     unat (src_port h) + unat (dst_port h) + unat (udp_length h) + unat (udp_checksum h)"
  by (simp add: udp_header_bytes_def words_total_append)

lemma udp_verify_sum_split:
  "checksum_sum (udp_verify_sum h ip data) =
     checksum_sum (add_u16 (add_slice (add_u16 (add_u16 (add_u16 (pseudo_header_sum ip (udp_length h))
       (src_port h)) (dst_port h)) (udp_length h)) data) (udp_checksum h))"
  by (simp add: word_unat_eq_iff udp_verify_sum_def cs.total_val cs.val_laws cs.inv_laws
      ones_fold_add ones_fold_add_right words_total_udp_header_bytes ac_simps)

lemma compute_checksum_eq:
  "compute_checksum h ip data =
     (if unat (udp_length h) = 8 + length data
      then Ok (nonzero_or_ones (checksum_finish (add_slice (add_u16 (add_u16 (add_u16
             (pseudo_header_sum ip (udp_length h)) (src_port h)) (dst_port h)) (udp_length h)) data)))
      else Panic)"
  by (simp add: compute_checksum_def Let_def nonzero_or_ones_def)

lemma compute_checksum_ignores_stored:
  "compute_checksum (h\<lparr>udp_checksum := c\<rparr>) ip data = compute_checksum h ip data"
  by (simp add: compute_checksum_def)

lemma compute_checksum_total:
  "unat (udp_length h) = 8 + length data \<Longrightarrow> \<exists>c. compute_checksum h ip data = Ok c \<and> c \<noteq> 0"
  by (simp add: compute_checksum_eq nonzero_or_ones_def)

lemma stored_checksum_verifies:
  assumes "compute_checksum h ip data = Ok c"
  shows "checksum_sum (udp_verify_sum h ip data) = 0xffff \<longleftrightarrow>
     udp_checksum h = c \<or> (c = 0xffff \<and> udp_checksum h = 0
       \<and> checksum_finish (udp_verify_sum (h\<lparr>udp_checksum := 0\<rparr>) ip data) = 0)"
proof -
  let ?c = "add_slice (add_u16 (add_u16 (add_u16 (pseudo_header_sum ip (udp_length h))
       (src_port h)) (dst_port h)) (udp_length h)) data"
  have "checksum_finish (udp_verify_sum (h\<lparr>udp_checksum := 0\<rparr>) ip data) = checksum_finish ?c"
    by (simp add: cs.fin_total udp_verify_sum_split)
      (simp add: word_unat_eq_iff cs.total_val cs.val_laws cs.inv_laws ones_fold_add ones_fold_add_right)
  then show ?thesis
    using assms cs.accept_iff [of ?c "udp_checksum h"]
    by (auto simp: compute_checksum_eq udp_verify_sum_split cs.inv_laws nonzero_or_ones_def split: if_splits)
qed

section \<open>Properties\<close>

lemma udp_parse_inverts_write:
  "udp_parse bs = Ok h \<longleftrightarrow> 8 \<le> unat (udp_length h) \<and> udp_write h bs = (Ok bs :: (_, 'e) res)"
proof (cases "8 \<le> length bs")
  case True
  have "(\<exists>rest. bs = udp_header_bytes h @ rest) \<longleftrightarrow> udp_header_bytes h @ drop 8 bs = bs"
    by (metis append_eq_conv_conj length_udp_header_bytes)
  then show ?thesis using True by (simp add: udp_parse_Ok_iff udp_write_Ok)
next
  case False
  then have "\<nexists>rest. bs = udp_header_bytes h @ rest" by auto
  then show ?thesis using False by (simp add: udp_parse_Ok_iff udp_write_Panic)
qed

text \<open>
  C37: The UDP header codec. The parser accepts exactly what the writer writes with a Length of at least eight: it returns
  a header if and only if writing this header over the bytes changes nothing. The checksum is computed whenever the
  Length field matches the data, is never zero (zero means unused), does not depend on the checksum field, and a
  header that carries it passes the receiver's sum.
\<close>

theorem udp_header_codec:
  assumes "unat (udp_length h) = 8 + length data"
  shows "(\<forall>bs g. udp_parse bs = Ok g \<longleftrightarrow> 8 \<le> unat (udp_length g) \<and> udp_write g bs = (Ok bs :: (_, 'e) res))
    \<and> (\<exists>c. compute_checksum h ip data = (Ok c :: (_, 'e) res) \<and> c \<noteq> 0
         \<and> compute_checksum (h\<lparr>udp_checksum := c\<rparr>) ip data = (Ok c :: (_, 'e) res)
         \<and> checksum_sum (udp_verify_sum (h\<lparr>udp_checksum := c\<rparr>) ip data) = 0xffff)"
proof -
  obtain c where c: "compute_checksum h ip data = (Ok c :: (_, 'e) res)" "c \<noteq> 0"
    using compute_checksum_total [OF assms] by blast
  then have "compute_checksum (h\<lparr>udp_checksum := c\<rparr>) ip data = (Ok c :: (_, 'e) res)" by (simp add: compute_checksum_ignores_stored)
  from stored_checksum_verifies [OF this] c this udp_parse_inverts_write show ?thesis by auto
qed

theorem udp_header_codec_witness:
  "\<exists>c. compute_checksum \<lparr>src_port = 1, dst_port = 2, udp_length = 10, udp_checksum = 0\<rparr>
      \<lparr>ip_src = Ipv4Addr 10 0 0 1, ip_dst = Ipv4Addr 10 0 0 2, ihl = 5, total_len = 30\<rparr> [1, 2] = (Ok c :: (_, unit) res) \<and> c \<noteq> 0
    \<and> checksum_sum (udp_verify_sum \<lparr>src_port = 1, dst_port = 2, udp_length = 10, udp_checksum = c\<rparr>
      \<lparr>ip_src = Ipv4Addr 10 0 0 1, ip_dst = Ipv4Addr 10 0 0 2, ihl = 5, total_len = 30\<rparr> [1, 2]) = 0xffff"
  using udp_header_codec [of "\<lparr>src_port = 1, dst_port = 2, udp_length = 10, udp_checksum = 0\<rparr>" "[1, 2]"
      "\<lparr>ip_src = Ipv4Addr 10 0 0 1, ip_dst = Ipv4Addr 10 0 0 2, ihl = 5, total_len = 30\<rparr>", where ?'e = unit]
  by auto

end
