(* ===== verification/Surplus.thy ===== *)
theory Surplus
  imports Udp_Header
begin

text \<open>
  Locating the surplus area (\<open>src/wire/surplus.rs\<close>): the bytes of the IP transport payload past the
  UDP Length, with the pad byte that aligns the Option Checksum to an even offset.
\<close>

record surplus_layout =
  starts_at :: usize
  needs_pad :: bool
  surplus_len :: usize

definition ocs_at :: "surplus_layout \<Rightarrow> usize" where
  "ocs_at l = starts_at l + of_bool (needs_pad l)"

definition surplus_range :: "surplus_layout \<Rightarrow> usize \<times> usize" where
  "surplus_range l = (starts_at l, starts_at l + surplus_len l)"

definition locate_surplus :: "ip_repr \<Rightarrow> udp_header \<Rightarrow> surplus_layout option" where
  "locate_surplus ip udp =
     (case checked_sub (transport_payload_len ip) (unat (udp_length udp)) of
        None \<Rightarrow> None
      | Some surplus \<Rightarrow>
          if surplus = 0 then None else
          let natural_start = header_len ip + unat (udp_length udp);
              pad = (natural_start mod 2 = 1) in
          if surplus < of_bool pad + unat length_OCS then None
          else Some \<lparr>starts_at = natural_start, needs_pad = pad, surplus_len = surplus\<rparr>)"

text \<open>What a located area promises its users: it is the tail of the IP datagram past the UDP datagram,
  and the aligned two-byte Option Checksum lies inside it.\<close>

definition surplus_ok :: "ip_repr \<Rightarrow> udp_header \<Rightarrow> surplus_layout \<Rightarrow> bool" where
  "surplus_ok ip udp l \<longleftrightarrow>
     starts_at l = header_len ip + unat (udp_length udp)
     \<and> starts_at l + surplus_len l = unat (total_len ip)
     \<and> even (ocs_at l) \<and> ocs_at l + 2 \<le> unat (total_len ip)
     \<and> (needs_pad l \<longleftrightarrow> odd (starts_at l))"

lemma locate_surplus_Some_iff:
  "locate_surplus ip udp = Some l \<longleftrightarrow> surplus_ok ip udp l"
proof -
  let ?n = "header_len ip + unat (udp_length udp)"
  have odd: "odd k \<longleftrightarrow> k mod 2 = 1" for k :: nat by (simp add: odd_iff_mod_2_eq_one)
  have tpl: "transport_payload_len ip = unat (total_len ip) - header_len ip"
    by (simp add: transport_payload_len_def header_len_def)
  show ?thesis
    by (cases l; cases "odd ?n")
      (auto simp: locate_surplus_def surplus_ok_def Let_def ocs_at_def tpl odd split: option.split)
qed

lemma locate_surplus_None_iff:
  "locate_surplus ip udp = None \<longleftrightarrow>
     unat (total_len ip) < header_len ip + unat (udp_length udp) + 2
        + of_bool (odd (header_len ip + unat (udp_length udp)))"
  by (auto simp: locate_surplus_def Let_def transport_payload_len_def header_len_def
      odd_iff_mod_2_eq_one split: option.split)

section \<open>Properties\<close>

text \<open>
  C39: The surplus area is located exactly: the layout found starts where the UDP Length ends, reaches to the IP Total
  Length, asks for a pad byte exactly when it starts at an odd offset and leaves room for an aligned
  option checksum; and none is found exactly when there is no room for pad and checksum.
\<close>

theorem locate_surplus_exact:
  "(locate_surplus ip udp = Some l \<longleftrightarrow>
     starts_at l = header_len ip + unat (udp_length udp)
     \<and> starts_at l + surplus_len l = unat (total_len ip)
     \<and> even (ocs_at l) \<and> ocs_at l + 2 \<le> unat (total_len ip)
     \<and> (needs_pad l \<longleftrightarrow> odd (starts_at l)))
   \<and> (locate_surplus ip udp = None \<longleftrightarrow>
     unat (total_len ip) < header_len ip + unat (udp_length udp) + 2
        + of_bool (odd (header_len ip + unat (udp_length udp))))"
  using locate_surplus_Some_iff locate_surplus_None_iff by (simp add: surplus_ok_def)

end
