(* ===== verification/Pipeline.thy ===== *)
theory Pipeline
  imports Recv_Options Reassembly Ocs Surplus
begin

text \<open>
  The receive pipeline (\<open>process_datagram\<close> in \<open>src/recv/pipeline.rs\<close>): headers and UDP checksum,
  surplus area and Option Checksum, options, then delivery, buffering, reassembly with one more pass,
  or a drop. \<open>process_datagram_inner\<close> is cut at its early returns: \<open>recv_headers\<close>, \<open>recv_surplus\<close>,
  \<open>process_fragment\<close> and \<open>process_parsed\<close> are consecutive parts of the function. The pipeline is
  total: no input makes it panic.
\<close>

section \<open>Sampled warnings\<close>

definition WARN_SAMPLE_INTERVAL :: u64 where "WARN_SAMPLE_INTERVAL = 64"

text \<open>The counter after \<open>fetch_add\<close> and the sample to log, if any.\<close>

definition should_log_sampled :: "u64 \<Rightarrow> (u64 option, 'e) res \<times> u64" where
  "should_log_sampled counter =
     (if counter = - 1 then Panic
      else let sample = counter + 1 in
        Ok (if sample = 1 \<or> sample mod WARN_SAMPLE_INTERVAL = 0 then Some sample else None),
      counter + 1)"

section \<open>Deliveries\<close>

datatype ocs_status = OcsAbsent | OcsValid | OcsUnused | OcsFailed | OcsInvalidZero | OcsUnobserved

record ocs_report =
  ocs_rep_status :: ocs_status
  ocs_rep_source :: option_source

record payload =
  pl_data :: bytes
  pl_options :: "raw_option list"
  pl_option_bearing :: bool
  pl_reports :: "option_report list"
  pl_ocs_reports :: "ocs_report list"

datatype delivery = Payload payload | Buffered | Dropped

definition datagram_ocs :: "ocs_status \<Rightarrow> ocs_report list" where
  "datagram_ocs status = [\<lparr>ocs_rep_status = status, ocs_rep_source = SourceDatagram\<rparr>]"

definition deliver_without_options :: "bytes \<Rightarrow> bool \<Rightarrow> ocs_status \<Rightarrow> delivery" where
  "deliver_without_options user_data bearing status =
     Payload \<lparr>pl_data = user_data, pl_options = [], pl_option_bearing = bearing, pl_reports = [],
              pl_ocs_reports = datagram_ocs status\<rparr>"

section \<open>Headers\<close>

record parsed_headers =
  rh_ip :: ip_repr
  rh_udp_at :: usize
  rh_ip_end :: usize
  rh_datagram :: bytes
  rh_udp :: udp_header
  rh_user_data :: bytes

definition recv_headers :: "bytes \<Rightarrow> (parsed_headers, recv_error) res" where
  "recv_headers ip_datagram =
     and_then (map_err RecvHeader (ip_parse ip_datagram)) (\<lambda>(ip, udp_at).
     let ip_end = header_len ip + transport_payload_len ip in
     and_then (slice ip_datagram 0 ip_end) (\<lambda>datagram.
     and_then (slice datagram udp_at (length datagram)) (\<lambda>rest.
     and_then (map_err RecvHeader (udp_parse rest)) (\<lambda>udp.
     let udp_len = unat (udp_length udp) in
     if udp_len > transport_payload_len ip
     then Err (UdpLengthExceedsIpPayload (udp_length udp) (transport_payload_len ip))
     else
       let user_data_at = udp_at + HEADER_LEN; surplus_start = udp_at + udp_len in
       and_then (slice datagram user_data_at surplus_start) (\<lambda>user_data.
       and_then
         (if udp_checksum udp \<noteq> 0 then
            and_then (compute_checksum (udp\<lparr>udp_checksum := 0\<rparr>) ip user_data) (\<lambda>expected.
            if expected \<noteq> udp_checksum udp then Err (UdpChecksumMismatch expected (udp_checksum udp))
            else Ok ())
          else Ok ()) (\<lambda>_.
       Ok \<lparr>rh_ip = ip, rh_udp_at = udp_at, rh_ip_end = ip_end, rh_datagram = datagram, rh_udp = udp,
           rh_user_data = user_data\<rparr>))))))"

section \<open>Surplus area\<close>

datatype surplus_verdict = NoOptions bool ocs_status | OptionsAt ocs_status bytes usize

definition recv_surplus :: "parsed_headers \<Rightarrow> (surplus_verdict, recv_error) res" where
  "recv_surplus h =
     (case locate_surplus (rh_ip h) (rh_udp h) of
        None \<Rightarrow> Ok (NoOptions False OcsAbsent)
      | Some layout \<Rightarrow>
          and_then (idx (rh_datagram h) (starts_at layout)) (\<lambda>pad.
          case check_pad pad (needs_pad layout) of
            Panic \<Rightarrow> Panic
          | Err e \<Rightarrow> Ok (NoOptions True OcsFailed)
          | Ok _ \<Rightarrow>
              and_then (slice (rh_datagram h) (ocs_at layout) (rh_ip_end h)) (\<lambda>body.
              and_then (ocs_validate body (word_of_nat (surplus_len layout)) (udp_checksum (rh_udp h))) (\<lambda>check.
              let go = (\<lambda>status.
                and_then (expect_some (checked_sub (ocs_at layout + unat length_OCS) (rh_udp_at h))) (\<lambda>offset.
                and_then (slice body (unat length_OCS) (length body)) (\<lambda>opts.
                Ok (OptionsAt status opts offset))))
              in case check of
                Valid \<Rightarrow> go OcsValid
              | Unused \<Rightarrow> go OcsUnused
              | IgnoreOptions \<Rightarrow> Ok (NoOptions True OcsInvalidZero)
              | OcsError e \<Rightarrow> Ok (NoOptions True OcsFailed)))))"

section \<open>Fragments\<close>

definition frag_key_of :: "ip_repr \<Rightarrow> udp_header \<Rightarrow> frag \<Rightarrow> frag_key" where
  "frag_key_of ip udp f =
     \<lparr>key_src = ip_src ip, key_dst = ip_dst ip, key_src_port = src_port udp, key_dst_port = dst_port udp,
      key_identification = identification f\<rparr>"

definition merge_fragment_options ::
  "raw_option list \<Rightarrow> option_kind list \<Rightarrow> raw_option list \<Rightarrow> raw_option list" where
  "merge_fragment_options fragment_options failures datagram_options =
     filter (\<lambda>opt. opt_kind opt \<notin> set failures) fragment_options @ datagram_options"

fun merge_report_loop :: "option_report list \<Rightarrow> raw_option list \<Rightarrow> option_report list" where
  "merge_report_loop reports [] = reports"
| "merge_report_loop reports (opt # opts) =
     merge_report_loop
       (if \<exists>r \<in> set reports. rep_kind r = opt_kind opt then reports
        else reports @ [\<lparr>rep_kind = opt_kind opt, rep_status = Success, rep_source = FragmentSet\<rparr>]) opts"

definition merge_fragment_reports ::
  "raw_option list \<Rightarrow> option_kind list \<Rightarrow> option_report list \<Rightarrow> option_report list" where
  "merge_fragment_reports fragment_options failures datagram_reports =
     merge_report_loop
       (map (\<lambda>k. \<lparr>rep_kind = k, rep_status = Failed, rep_source = FragmentSet\<rparr>) failures) fragment_options
     @ datagram_reports"

fun failures_loop :: "option_kind list \<Rightarrow> option_report list \<Rightarrow> option_kind list" where
  "failures_loop failures [] = failures"
| "failures_loop failures (r # rs) =
     failures_loop
       (if rep_status r = Failed \<and> rep_kind r \<notin> set failures then failures @ [rep_kind r] else failures) rs"

definition fragment_option_failures :: "option_report list \<Rightarrow> option_kind list" where
  "fragment_option_failures reports = failures_loop [] reports"

text \<open>\<open>reassembled_datagram\<close>; \<open>Ok None\<close> is its \<open>None\<close>.\<close>

definition reassembled_datagram ::
  "ip_repr \<Rightarrow> udp_header \<Rightarrow> u16 \<Rightarrow> bytes \<Rightarrow> (bytes option, 'e) res" where
  "reassembled_datagram ip udp len tail =
     (case checked_sub (unat len) HEADER_LEN of
        None \<Rightarrow> Ok None
      | Some user_len \<Rightarrow>
          if length tail < user_len then Ok None
          else
            (case checked_add (20 + HEADER_LEN) (length tail) of
               None \<Rightarrow> Ok None
             | Some n \<Rightarrow>
                 (case u16_try_from n of
                    None \<Rightarrow> Ok None
                  | Some tlen \<Rightarrow>
                      let rip = \<lparr>ip_src = ip_src ip, ip_dst = ip_dst ip, ihl = 5, total_len = tlen\<rparr>;
                          rudp = \<lparr>src_port = src_port udp, dst_port = dst_port udp, udp_length = len,
                                  udp_checksum = 0\<rparr>;
                          datagram = replicate (unat tlen) 0 in
                      and_then (slice datagram 0 20) (\<lambda>d0.
                      and_then (ip_write rip d0) (\<lambda>d0.
                      and_then (put_slice datagram 0 d0) (\<lambda>datagram.
                      and_then (slice datagram 20 (20 + HEADER_LEN)) (\<lambda>d1.
                      and_then (udp_write rudp d1) (\<lambda>d1.
                      and_then (put_slice datagram 20 d1) (\<lambda>datagram.
                      and_then (assert_that (length datagram - (20 + HEADER_LEN) = length tail)) (\<lambda>_.
                      and_then (put_slice datagram (20 + HEADER_LEN) tail) (\<lambda>datagram.
                      Ok (Some datagram))))))))))))"

section \<open>Processing\<close>

text \<open>What one pass ends with: a delivery, or a reassembled datagram that is processed once more.\<close>

datatype verdict = Done delivery | Reprocess bytes completed

definition process_fragment ::
  "parsed_headers \<Rightarrow> frag \<Rightarrow> parsed_options \<Rightarrow> ocs_status \<Rightarrow> reassembly_cache \<Rightarrow> instant
     \<Rightarrow> (verdict, recv_error) res \<times> reassembly_cache" where
  "process_fragment h f parsed status c now =
     (let key = frag_key_of (rh_ip h) (rh_udp h) f;
          fragment_data_at = rh_udp_at h + unat (frag_start f) in
      if fragment_data_at > rh_ip_end h \<or> rh_ip_end h > length (rh_datagram h)
      then (Ok (Done Dropped), cache_discard c key)
      else
        let fragment_data = take (rh_ip_end h - fragment_data_at) (drop fragment_data_at (rh_datagram h)) in
        case insert_with_options_and_failures c key f fragment_data
               \<lparr>fp_options = po_options parsed,
                fp_option_failures = fragment_option_failures (po_reports parsed),
                fp_ocs_nonzero = Some (status = OcsValid)\<rparr> now of
          Panic \<Rightarrow> (Panic, c)
        | Err e \<Rightarrow> (Err e, c)
        | Ok (Incomplete, c) \<Rightarrow> (Ok (Done Buffered), c)
        | Ok (Abort reason, c) \<Rightarrow> (Ok (Done Dropped), c)
        | Ok (Complete r, c) \<Rightarrow>
            (case reassembled_datagram (rh_ip h) (rh_udp h) (c_udp_length r) (c_tail r) of
               Panic \<Rightarrow> (Panic, c)
             | Err e \<Rightarrow> (Err e, c)
             | Ok None \<Rightarrow> (Ok (Done Dropped), c)
             | Ok (Some datagram) \<Rightarrow> (Ok (Reprocess datagram r), c)))"

definition process_parsed ::
  "parsed_headers \<Rightarrow> parsed_options \<Rightarrow> ocs_status \<Rightarrow> reassembly_cache \<Rightarrow> instant \<Rightarrow> bool
     \<Rightarrow> (verdict, recv_error) res \<times> reassembly_cache" where
  "process_parsed h parsed status c now reassembly_allowed =
     (let user_data = rh_user_data h; fr = po_frag parsed in
      if fr \<noteq> None \<and> user_data \<noteq> []
      then (Ok (Done (deliver_without_options user_data True status)), c)
      else
        let key = (if user_data = [] then map_option (frag_key_of (rh_ip h) (rh_udp h)) fr else None) in
        if po_fragment_failed parsed \<or> (key \<noteq> None \<and> po_unsupported_unsafe_seen parsed)
        then (Ok (Done Dropped), (case key of Some k \<Rightarrow> cache_discard c k | None \<Rightarrow> c))
        else if po_unsupported_unsafe_seen parsed
        then (Ok (Done (Payload
               \<lparr>pl_data = [], pl_options = [], pl_option_bearing = True, pl_reports = po_reports parsed,
                pl_ocs_reports = datagram_ocs status\<rparr>)), c)
        else
          (case (if user_data = [] then fr else None) of
             Some f \<Rightarrow>
               if \<not> reassembly_allowed then (Ok (Done Dropped), c)
               else process_fragment h f parsed status c now
           | None \<Rightarrow>
               (Ok (Done (Payload
                  \<lparr>pl_data = user_data, pl_options = po_options parsed, pl_option_bearing = True,
                   pl_reports = po_reports parsed, pl_ocs_reports = datagram_ocs status\<rparr>)), c)))"

definition process_once ::
  "(bytes \<Rightarrow> u32) \<Rightarrow> bytes \<Rightarrow> reassembly_cache \<Rightarrow> instant \<Rightarrow> bool
     \<Rightarrow> (verdict, recv_error) res \<times> reassembly_cache" where
  "process_once crc ip_datagram c now reassembly_allowed =
     (case recv_headers ip_datagram of
        Panic \<Rightarrow> (Panic, c)
      | Err e \<Rightarrow> (Err e, c)
      | Ok h \<Rightarrow>
          (case recv_surplus h of
             Panic \<Rightarrow> (Panic, c)
           | Err e \<Rightarrow> (Err e, c)
           | Ok (NoOptions bearing status) \<Rightarrow>
               (Ok (Done (deliver_without_options (rh_user_data h) bearing status)), c)
           | Ok (OptionsAt status opts offset) \<Rightarrow>
               (case parse_options crc opts (rh_user_data h) offset of
                  Panic \<Rightarrow> (Panic, c)
                | Err e \<Rightarrow> (Ok (Done (deliver_without_options (rh_user_data h) True status)), c)
                | Ok parsed \<Rightarrow> process_parsed h parsed status c now reassembly_allowed)))"

definition fragment_set_ocs :: "bool option \<Rightarrow> ocs_report" where
  "fragment_set_ocs nonzero =
     \<lparr>ocs_rep_status = (case nonzero of Some True \<Rightarrow> OcsValid | Some False \<Rightarrow> OcsUnused | None \<Rightarrow> OcsUnobserved),
      ocs_rep_source = FragmentSet\<rparr>"

definition merge_delivery :: "completed \<Rightarrow> delivery \<Rightarrow> delivery" where
  "merge_delivery r d =
     (case d of
        Payload p \<Rightarrow>
          Payload
            \<lparr>pl_data = pl_data p,
             pl_options = merge_fragment_options (c_fragment_options r) (c_fragment_option_failures r) (pl_options p),
             pl_option_bearing = pl_option_bearing p,
             pl_reports = merge_fragment_reports (c_fragment_options r) (c_fragment_option_failures r) (pl_reports p),
             pl_ocs_reports = fragment_set_ocs (c_fragment_ocs_nonzero r) # pl_ocs_reports p\<rparr>
      | _ \<Rightarrow> d)"

lemma process_once_no_reprocess:
  "process_once crc d c now False \<noteq> (Ok (Reprocess d' r), c')"
  by (auto simp: process_once_def process_parsed_def Let_def split: res.split surplus_verdict.split option.split)

function process_datagram_inner ::
  "(bytes \<Rightarrow> u32) \<Rightarrow> bytes \<Rightarrow> reassembly_cache \<Rightarrow> instant \<Rightarrow> bool
     \<Rightarrow> (delivery, recv_error) res \<times> reassembly_cache" where
  "process_datagram_inner crc ip_datagram c now reassembly_allowed =
     (case process_once crc ip_datagram c now reassembly_allowed of
        (Panic, c) \<Rightarrow> (Panic, c)
      | (Err e, c) \<Rightarrow> (Err e, c)
      | (Ok (Done d), c) \<Rightarrow> (Ok d, c)
      | (Ok (Reprocess reassembled r), c) \<Rightarrow>
          (case process_datagram_inner crc reassembled c now False of
             (Ok d, c) \<Rightarrow> (Ok (merge_delivery r d), c)
           | (Err e, c) \<Rightarrow> (Err e, c)
           | (Panic, c) \<Rightarrow> (Panic, c)))"
  by pat_completeness auto
termination
proof (relation "measure (\<lambda>(_, _, _, _, allowed). if allowed then 1 else 0)", goal_cases)
  case (2 crc d c now allowed v c' w d' r)
  then have "process_once crc d c now allowed = (Ok (Reprocess d' r), c')" by simp
  then have "allowed" using process_once_no_reprocess by (cases allowed) auto
  then show ?case by simp
qed simp

declare process_datagram_inner.simps [simp del]

definition process_datagram ::
  "(bytes \<Rightarrow> u32) \<Rightarrow> bytes \<Rightarrow> reassembly_cache \<Rightarrow> instant
     \<Rightarrow> (delivery, recv_error) res \<times> reassembly_cache" where
  "process_datagram crc ip_datagram c now = process_datagram_inner crc ip_datagram c now True"

section \<open>Accepted headers\<close>

definition headers_ok :: "bytes \<Rightarrow> parsed_headers \<Rightarrow> bool" where
  "headers_ok ip_datagram h \<longleftrightarrow>
     (let ip = rh_ip h; udp = rh_udp h; n = unat (total_len ip) in
      rh_udp_at h = header_len ip \<and> 20 \<le> header_len ip \<and> n \<le> length ip_datagram
      \<and> rh_ip_end h = n \<and> rh_datagram h = take n ip_datagram
      \<and> 8 \<le> unat (udp_length udp) \<and> header_len ip + unat (udp_length udp) \<le> n
      \<and> rh_user_data h = take (unat (udp_length udp) - 8) (drop (header_len ip + 8) ip_datagram)
      \<and> (udp_checksum udp = 0 \<or> compute_checksum udp ip (rh_user_data h) = (Ok (udp_checksum udp) :: (_, recv_error) res)))"

text \<open>What follows the UDP header, once the IP header has been accepted.\<close>

definition headers_tail :: "ip_repr \<Rightarrow> bytes \<Rightarrow> udp_header \<Rightarrow> (parsed_headers, recv_error) res" where
  "headers_tail ip ip_datagram udp =
     (if unat (udp_length udp) > transport_payload_len ip
      then Err (UdpLengthExceedsIpPayload (udp_length udp) (transport_payload_len ip))
      else
        let user_data = take (unat (udp_length udp) - 8) (drop (header_len ip + 8) ip_datagram) in
        and_then
          (if udp_checksum udp \<noteq> 0 then
             and_then (compute_checksum (udp\<lparr>udp_checksum := 0\<rparr>) ip user_data) (\<lambda>expected.
             if expected \<noteq> udp_checksum udp then Err (UdpChecksumMismatch expected (udp_checksum udp)) else Ok ())
           else Ok ()) (\<lambda>_.
        Ok \<lparr>rh_ip = ip, rh_udp_at = header_len ip, rh_ip_end = unat (total_len ip),
            rh_datagram = take (unat (total_len ip)) ip_datagram, rh_udp = udp, rh_user_data = user_data\<rparr>))"

lemma recv_headers_eq:
  assumes "ip_parse ip_datagram = Ok (ip, udp_at)"
  shows "recv_headers ip_datagram =
    and_then (map_err RecvHeader (udp_parse (drop (header_len ip) (take (unat (total_len ip)) ip_datagram))))
      (headers_tail ip ip_datagram)" (is "_ = ?rhs")
proof -
  note ip = ip_parse_Ok_D [OF assms]
  have total: "header_len ip + transport_payload_len ip = unat (total_len ip)"
    using ip(1,3) by (simp add: transport_payload_len_def header_len_def)
  let ?d = "take (unat (total_len ip)) ip_datagram"
  have hl: "udp_at = header_len ip" and len: "length ?d = unat (total_len ip)" using ip by simp_all
  have user: "(slice ?d (header_len ip + 8) (header_len ip + unat (udp_length udp)) :: (_, recv_error) res) =
      Ok (take (unat (udp_length udp) - 8) (drop (header_len ip + 8) ip_datagram))"
    if "8 \<le> unat (udp_length udp)" "\<not> unat (udp_length udp) > transport_payload_len ip" for udp :: udp_header
  proof -
    have "header_len ip + unat (udp_length udp) \<le> unat (total_len ip)" using that(2) total by linarith
    then show ?thesis using that(1) len by (simp add: drop_take min_def)
  qed
  have "recv_headers ip_datagram =
    and_then (map_err RecvHeader (udp_parse (drop (header_len ip) ?d))) (\<lambda>udp.
    if unat (udp_length udp) > transport_payload_len ip
    then Err (UdpLengthExceedsIpPayload (udp_length udp) (transport_payload_len ip))
    else and_then (slice ?d (header_len ip + 8) (header_len ip + unat (udp_length udp))) (\<lambda>user_data.
      and_then
        (if udp_checksum udp \<noteq> 0 then
           and_then (compute_checksum (udp\<lparr>udp_checksum := 0\<rparr>) ip user_data) (\<lambda>expected.
           if expected \<noteq> udp_checksum udp then Err (UdpChecksumMismatch expected (udp_checksum udp)) else Ok ())
         else Ok ()) (\<lambda>_.
      Ok \<lparr>rh_ip = ip, rh_udp_at = header_len ip, rh_ip_end = unat (total_len ip), rh_datagram = ?d,
          rh_udp = udp, rh_user_data = user_data\<rparr>)))"
    using assms ip len total unfolding hl by (simp add: recv_headers_def Let_def cong: if_cong)
  also have "\<dots> = ?rhs"
  proof (rule and_then_cong [OF refl])
    fix udp assume "map_err RecvHeader (udp_parse (drop (header_len ip) ?d)) = Ok udp"
    then have "8 \<le> unat (udp_length udp)" by (simp add: udp_parse_Ok_iff)
    from user [OF this]
    show "(if unat (udp_length udp) > transport_payload_len ip
      then Err (UdpLengthExceedsIpPayload (udp_length udp) (transport_payload_len ip))
      else and_then (slice ?d (header_len ip + 8) (header_len ip + unat (udp_length udp))) (\<lambda>user_data.
        and_then
          (if udp_checksum udp \<noteq> 0 then
             and_then (compute_checksum (udp\<lparr>udp_checksum := 0\<rparr>) ip user_data) (\<lambda>expected.
             if expected \<noteq> udp_checksum udp then Err (UdpChecksumMismatch expected (udp_checksum udp)) else Ok ())
           else Ok ()) (\<lambda>_.
        Ok \<lparr>rh_ip = ip, rh_udp_at = header_len ip, rh_ip_end = unat (total_len ip), rh_datagram = ?d,
            rh_udp = udp, rh_user_data = user_data\<rparr>))) = headers_tail ip ip_datagram udp"
      by (simp add: headers_tail_def Let_def)
  qed
  finally show ?thesis .
qed

lemma headers_tail_cases:
  assumes "8 \<le> unat (udp_length udp)" and "header_len ip \<le> unat (total_len ip)" and "unat (total_len ip) \<le> length d"
  shows "headers_tail ip d udp \<noteq> Panic"
    and "headers_tail ip d udp = Ok h \<Longrightarrow>
      rh_ip h = ip \<and> rh_udp h = udp \<and> rh_udp_at h = header_len ip \<and> rh_ip_end h = unat (total_len ip)
      \<and> rh_datagram h = take (unat (total_len ip)) d
      \<and> header_len ip + unat (udp_length udp) \<le> unat (total_len ip)
      \<and> rh_user_data h = take (unat (udp_length udp) - 8) (drop (header_len ip + 8) d)
      \<and> (udp_checksum udp = 0
          \<or> compute_checksum udp ip (rh_user_data h) = (Ok (udp_checksum udp) :: (_, recv_error) res))"
proof -
  let ?u = "take (unat (udp_length udp) - 8) (drop (header_len ip + 8) d)"
  have tpl: "transport_payload_len ip = unat (total_len ip) - header_len ip"
    by (simp add: transport_payload_len_def header_len_def)
  have len: "unat (udp_length udp) = 8 + length ?u" if "\<not> unat (udp_length udp) > transport_payload_len ip"
  proof -
    have "unat (udp_length udp) - 8 \<le> length d - (header_len ip + 8)" using that assms tpl by linarith
    then show ?thesis using assms(1) by (simp add: min_def)
  qed
  have cs: "compute_checksum (udp\<lparr>udp_checksum := 0\<rparr>) ip ?u = compute_checksum udp ip ?u"
    by (rule compute_checksum_ignores_stored)
  show "headers_tail ip d udp \<noteq> Panic"
    using len by (auto simp: headers_tail_def Let_def cs and_then_eq_Panic compute_checksum_eq)
  assume ok: "headers_tail ip d udp = Ok h"
  then have "\<not> unat (udp_length udp) > transport_payload_len ip" by (auto simp: headers_tail_def split: if_splits)
  then show "rh_ip h = ip \<and> rh_udp h = udp \<and> rh_udp_at h = header_len ip \<and> rh_ip_end h = unat (total_len ip)
      \<and> rh_datagram h = take (unat (total_len ip)) d
      \<and> header_len ip + unat (udp_length udp) \<le> unat (total_len ip)
      \<and> rh_user_data h = take (unat (udp_length udp) - 8) (drop (header_len ip + 8) d)
      \<and> (udp_checksum udp = 0
          \<or> compute_checksum udp ip (rh_user_data h) = (Ok (udp_checksum udp) :: (_, recv_error) res))"
    using ok tpl assms(2) by (auto simp: headers_tail_def Let_def cs and_then_eq_Ok split: if_splits)
qed

lemma recv_headers_no_panic [panic_free]: "recv_headers d \<noteq> Panic"
proof (cases "ip_parse d")
  case (Ok p)
  obtain ip udp_at where p: "p = (ip, udp_at)" by (cases p)
  note ip = ip_parse_Ok_D [OF Ok [unfolded p]]
  show ?thesis
    using ip headers_tail_cases(1) [of _ ip d]
    by (auto simp: recv_headers_eq [OF Ok [unfolded p]] and_then_eq_Panic udp_parse_no_panic udp_parse_Ok_iff)
qed (simp_all add: recv_headers_def ip_parse_no_panic)

lemma recv_headers_Ok:
  assumes "recv_headers d = Ok h"
  shows "headers_ok d h" and "ip_parse d = Ok (rh_ip h, header_len (rh_ip h))"
    and "udp_parse (drop (header_len (rh_ip h)) (take (unat (total_len (rh_ip h))) d)) = Ok (rh_udp h)"
proof -
  obtain ip udp_at where ok: "ip_parse d = Ok (ip, udp_at)"
    using assms by (cases "ip_parse d") (auto simp: recv_headers_def)
  note ip = ip_parse_Ok_D [OF ok]
  obtain udp where udp: "udp_parse (drop (header_len ip) (take (unat (total_len ip)) d)) = Ok udp"
    and tail: "headers_tail ip d udp = Ok h"
    using assms by (auto simp: recv_headers_eq [OF ok] and_then_eq_Ok)
  have "8 \<le> unat (udp_length udp)" using udp by (simp add: udp_parse_Ok_iff)
  note t = headers_tail_cases(2) [OF this _ _ tail]
  show "headers_ok d h" using t ip \<open>8 \<le> unat (udp_length udp)\<close> by (auto simp: headers_ok_def Let_def)
  show "ip_parse d = Ok (rh_ip h, header_len (rh_ip h))" using t ip ok by simp
  show "udp_parse (drop (header_len (rh_ip h)) (take (unat (total_len (rh_ip h))) d)) = Ok (rh_udp h)"
    using t ip udp by simp
qed

lemma recv_surplus_no_panic [panic_free]:
  assumes "headers_ok d h"
  shows "recv_surplus h \<noteq> Panic"
proof (cases "locate_surplus (rh_ip h) (rh_udp h)")
  case None
  then show ?thesis by (simp add: recv_surplus_def)
next
  case (Some l)
  then have "surplus_ok (rh_ip h) (rh_udp h) l" by (simp add: locate_surplus_Some_iff)
  then have b: "starts_at l < unat (total_len (rh_ip h))" "ocs_at l + 2 \<le> unat (total_len (rh_ip h))"
    "header_len (rh_ip h) \<le> ocs_at l"
    by (auto simp: surplus_ok_def ocs_at_def)
  have h: "length (rh_datagram h) = rh_ip_end h" "rh_ip_end h = unat (total_len (rh_ip h))" "rh_udp_at h = header_len (rh_ip h)"
    using assms by (auto simp: headers_ok_def Let_def)
  then show ?thesis
    using Some b
    by (auto simp: recv_surplus_def check_pad_def Let_def and_then_eq_Panic ocs_validate_no_panic idx_eq_Panic slice_eq_Panic
        slice_eq_Ok checked_sub_def split: ocs_check.split)
qed

section \<open>The reassembled datagram\<close>

definition reassembled_bytes :: "ip_repr \<Rightarrow> udp_header \<Rightarrow> u16 \<Rightarrow> bytes \<Rightarrow> bytes" where
  "reassembled_bytes ip udp len tail =
     ip_header_bytes \<lparr>ip_src = ip_src ip, ip_dst = ip_dst ip, ihl = 5, total_len = word_of_nat (28 + length tail)\<rparr>
     @ udp_header_bytes \<lparr>src_port = src_port udp, dst_port = dst_port udp, udp_length = len, udp_checksum = 0\<rparr>
     @ tail"

lemma reassembled_datagram_eq:
  "reassembled_datagram ip udp len tail =
     (Ok (if 8 \<le> unat len \<and> unat len \<le> 8 + length tail \<and> 28 + length tail \<le> u16_max
          then Some (reassembled_bytes ip udp len tail) else None) :: (_, 'e) res)"
proof (cases "8 \<le> unat len \<and> unat len \<le> 8 + length tail \<and> 28 + length tail \<le> u16_max")
  case True
  let ?w = "word_of_nat (28 + length tail) :: u16"
  let ?ip = "\<lparr>ip_src = ip_src ip, ip_dst = ip_dst ip, ihl = 5, total_len = ?w\<rparr>"
  let ?udp = "\<lparr>src_port = src_port udp, dst_port = dst_port udp, udp_length = len, udp_checksum = 0\<rparr>"
  have w: "unat ?w = 28 + length tail" using True by (intro unat_of_nat_u16) simp
  have rep: "replicate (28 + length tail) 0 = replicate 20 0 @ replicate 8 (0 :: byte) @ replicate (length tail) 0"
    by (simp add: replicate_add [symmetric])
  have iw: "ip_write ?ip (replicate 20 0) = (Ok (ip_header_bytes ?ip) :: (_, 'e) res)"
    by (subst ip_write_Ok) simp_all
  have uw: "udp_write ?udp (replicate 8 0) = (Ok (udp_header_bytes ?udp) :: (_, 'e) res)"
    by (subst udp_write_Ok) simp_all
  have "28 + length tail \<le> usize_max" "\<not> length tail < unat len - 8"
    using True u16_max_less_usize_max by linarith+
  then show ?thesis
    using True w iw uw
    by (simp add: reassembled_datagram_def checked_sub_def checked_add_def u16_try_from_def Let_def rep
        reassembled_bytes_def min_def del: of_nat_add replicate_add)
next
  case False
  then show ?thesis
    by (auto simp: reassembled_datagram_def checked_sub_def checked_add_def u16_try_from_def)
qed

lemma reassembled_datagram_no_panic [panic_free]: "reassembled_datagram ip udp len tail \<noteq> Panic"
  by (simp add: reassembled_datagram_eq)

section \<open>Totality\<close>

lemma process_fragment_total:
  "fst (process_fragment h f parsed status c now) \<noteq> Panic"
  "fst (process_fragment h f parsed status c now) \<noteq> Err e"
proof -
  obtain out c' where "(insert_with_options_and_failures c (frag_key_of (rh_ip h) (rh_udp h) f) f
      (take (rh_ip_end h - (rh_udp_at h + unat (frag_start f))) (drop (rh_udp_at h + unat (frag_start f)) (rh_datagram h)))
      \<lparr>fp_options = po_options parsed, fp_option_failures = fragment_option_failures (po_reports parsed),
       fp_ocs_nonzero = Some (status = OcsValid)\<rparr> now :: (_, recv_error) res) = Ok (out, c')"
    using insert_total by blast
  then show "fst (process_fragment h f parsed status c now) \<noteq> Panic"
    "fst (process_fragment h f parsed status c now) \<noteq> Err e"
    by (auto simp: process_fragment_def Let_def reassembled_datagram_eq split: reassembly_outcome.split)
qed

lemma process_parsed_total:
  "fst (process_parsed h parsed status c now allowed) \<noteq> Panic"
  "fst (process_parsed h parsed status c now allowed) \<noteq> Err e"
  by (auto simp: process_parsed_def Let_def process_fragment_total split: option.split)

lemma recv_surplus_not_Err [simp]: "recv_surplus h \<noteq> Err e"
proof -
  have "ocs_validate b n u \<noteq> (Err e :: (_, recv_error) res)" for b n u e by (auto simp: ocs_validate_def Let_def and_then_eq_Err)
  then show ?thesis
    by (auto simp: recv_surplus_def and_then_eq_Err expect_some_def check_pad_def Let_def
        split: option.splits ocs_check.splits if_splits)
qed

lemma process_once_total: "fst (process_once crc d c now allowed) \<noteq> Panic"
proof (cases "recv_headers d")
  case (Ok h)
  then show ?thesis
    using recv_surplus_no_panic [OF recv_headers_Ok(1) [OF Ok]]
    by (auto simp: process_once_def process_parsed_total parse_options_no_panic split: res.split surplus_verdict.split)
qed (simp_all add: process_once_def recv_headers_no_panic)

lemma process_once_Err_iff: "fst (process_once crc d c now allowed) = Err e \<longleftrightarrow> recv_headers d = Err e"
proof (cases "recv_headers d")
  case (Ok h)
  then show ?thesis
    by (auto simp: process_once_def process_parsed_total split: res.split surplus_verdict.split)
qed (simp_all add: process_once_def)

lemma process_inner_total: "fst (process_datagram_inner crc d c now allowed) \<noteq> Panic"
proof (induction crc d c now allowed rule: process_datagram_inner.induct)
  case (1 crc d c now allowed)
  have IH: "process_once crc d c now allowed = (Ok (Reprocess d' r), c') \<Longrightarrow>
      fst (process_datagram_inner crc d' c' now False) \<noteq> Panic" for d' r c'
    using 1 [OF prod.collapse] by simp
  show ?case
    using process_once_total [of crc d c now allowed] IH
    by (subst process_datagram_inner.simps) (fastforce split: prod.splits res.splits verdict.splits)
qed

section \<open>Written datagrams\<close>

text \<open>A datagram as a sender lays it out, and the surplus area of an OCS value and its options.\<close>

definition wire_datagram :: "ip_repr \<Rightarrow> udp_header \<Rightarrow> bytes \<Rightarrow> bytes \<Rightarrow> bytes" where
  "wire_datagram ip udp user_data surplus = ip_header_bytes ip @ udp_header_bytes udp @ user_data @ surplus"

definition surplus_bytes :: "bytes \<Rightarrow> u16 \<Rightarrow> bytes \<Rightarrow> bytes" where
  "surplus_bytes user_data ocs opts = replicate (of_bool (odd (length user_data))) 0 @ u16_to_be_bytes ocs @ opts"

definition wire_ok :: "ip_repr \<Rightarrow> udp_header \<Rightarrow> bytes \<Rightarrow> bytes \<Rightarrow> bool" where
  "wire_ok ip udp user_data surplus \<longleftrightarrow>
     ihl ip = 5 \<and> unat (total_len ip) = 28 + length user_data + length surplus
     \<and> unat (udp_length udp) = 8 + length user_data
     \<and> (udp_checksum udp = 0 \<or> compute_checksum udp ip user_data = (Ok (udp_checksum udp) :: (_, recv_error) res))"

definition wire_headers :: "ip_repr \<Rightarrow> udp_header \<Rightarrow> bytes \<Rightarrow> bytes \<Rightarrow> parsed_headers" where
  "wire_headers ip udp user_data surplus =
     \<lparr>rh_ip = ip, rh_udp_at = 20, rh_ip_end = unat (total_len ip),
      rh_datagram = wire_datagram ip udp user_data surplus, rh_udp = udp, rh_user_data = user_data\<rparr>"

lemma length_wire_datagram [simp]:
  "length (wire_datagram ip udp user_data surplus) = 28 + length user_data + length surplus"
  by (simp add: wire_datagram_def)

lemma length_surplus_bytes [simp]:
  "length (surplus_bytes user_data ocs opts) = of_bool (odd (length user_data)) + 2 + length opts"
  by (simp add: surplus_bytes_def)

lemma header_len_20: "ihl ip = 5 \<Longrightarrow> header_len ip = 20"
  by (simp add: header_len_def)

lemma recv_headers_written:
  assumes "wire_ok ip udp user_data surplus"
  shows "recv_headers (wire_datagram ip udp user_data surplus) = Ok (wire_headers ip udp user_data surplus)"
proof -
  let ?d = "wire_datagram ip udp user_data surplus"
  have w: "ihl ip = 5" "unat (total_len ip) = 28 + length user_data + length surplus"
    "unat (udp_length udp) = 8 + length user_data"
    using assms by (auto simp: wire_ok_def)
  have ip: "ip_parse ?d = Ok (ip, 20)"
    unfolding wire_datagram_def by (rule ip_parse_written) (simp_all add: w)
  have hl: "header_len ip = 20" using w(1) by (rule header_len_20)
  have rest: "drop 20 (take (unat (total_len ip)) ?d) = udp_header_bytes udp @ user_data @ surplus"
    using w(2) by (simp add: wire_datagram_def)
  have udp: "udp_parse (udp_header_bytes udp @ user_data @ surplus) = Ok udp"
    by (rule udp_parse_written) (simp add: w)
  have user: "take (unat (udp_length udp) - 8) (drop 28 ?d) = user_data"
    using w(3) by (simp add: wire_datagram_def)
  have tpl: "transport_payload_len ip = 8 + length user_data + length surplus"
    using w(1,2) by (simp add: transport_payload_len_def)
  have "headers_tail ip ?d udp = Ok (wire_headers ip udp user_data surplus)"
    using assms w tpl user
    by (auto simp: headers_tail_def Let_def hl wire_ok_def compute_checksum_ignores_stored wire_headers_def)
  then show ?thesis
    by (simp add: recv_headers_eq [OF ip] hl rest udp)
qed

lemma locate_surplus_written:
  assumes "wire_ok ip udp user_data surplus"
  shows "locate_surplus ip udp =
    (if length surplus < 2 + of_bool (odd (length user_data)) then None
     else Some \<lparr>starts_at = 28 + length user_data, needs_pad = odd (length user_data), surplus_len = length surplus\<rparr>)"
proof -
  have w: "header_len ip = 20" "unat (total_len ip) = 28 + length user_data + length surplus"
    "unat (udp_length udp) = 8 + length user_data"
    using assms header_len_20 by (auto simp: wire_ok_def)
  show ?thesis
    using w by (auto simp: locate_surplus_None_iff locate_surplus_Some_iff surplus_ok_def ocs_at_def)
qed

lemma recv_surplus_none:
  assumes "wire_ok ip udp user_data []"
  shows "recv_surplus (wire_headers ip udp user_data []) = Ok (NoOptions False OcsAbsent)"
  by (simp add: recv_surplus_def wire_headers_def locate_surplus_written [OF assms])

definition ocs_disposition :: "u16 \<Rightarrow> u16 \<Rightarrow> u16 \<Rightarrow> bytes \<Rightarrow> usize \<Rightarrow> surplus_verdict" where
  "ocs_disposition ocs expected udp_checksum_field opts offset =
     (if ocs = 0 then (if udp_checksum_field = 0 then OptionsAt OcsUnused opts offset else NoOptions True OcsInvalidZero)
      else if ocs = expected then OptionsAt OcsValid opts offset
      else NoOptions True OcsFailed)"

lemma recv_surplus_eq:
  assumes "locate_surplus (rh_ip h) (rh_udp h) = Some l"
    and "idx (rh_datagram h) (starts_at l) = (Ok pad :: (_, recv_error) res)" and "needs_pad l \<Longrightarrow> pad = 0"
    and "slice (rh_datagram h) (ocs_at l) (rh_ip_end h) = (Ok (a # b # opts) :: (_, recv_error) res)"
    and "rh_udp_at h \<le> ocs_at l + 2"
  shows "recv_surplus h =
    Ok (ocs_disposition (u16_from_be_bytes a b) (ocs_value opts (word_of_nat (surplus_len l)))
          (udp_checksum (rh_udp h)) opts (ocs_at l + 2 - rh_udp_at h))"
proof -
  have pad: "check_pad pad (needs_pad l) = Ok ()" using assms(3) by (auto simp: check_pad_def)
  have off: "checked_sub (ocs_at l + 2) (rh_udp_at h) = Some (ocs_at l + 2 - rh_udp_at h)"
    using assms(5) by (simp add: checked_sub_def)
  show ?thesis
    by (simp add: recv_surplus_def assms(1,2,4) pad off ocs_validate_eq ocs_disposition_def del: add_2_eq_Suc')
qed

lemma recv_surplus_written:
  assumes "wire_ok ip udp user_data (surplus_bytes user_data ocs opts)"
  shows "recv_surplus (wire_headers ip udp user_data (surplus_bytes user_data ocs opts)) =
    Ok (ocs_disposition ocs (ocs_value opts (word_of_nat (length (surplus_bytes user_data ocs opts))))
          (udp_checksum udp) opts (10 + length user_data + of_bool (odd (length user_data))))"
proof -
  let ?s = "surplus_bytes user_data ocs opts" and ?n = "length user_data"
  let ?d = "wire_datagram ip udp user_data ?s"
  let ?l = "\<lparr>starts_at = 28 + ?n, needs_pad = odd ?n, surplus_len = length ?s\<rparr>"
  obtain a b where ab: "u16_to_be_bytes ocs = [a, b]" by (simp add: u16_to_be_bytes_def)
  then have w: "u16_from_be_bytes a b = ocs" using u16_from_be_bytes_inverse [of ocs] by (simp add: u16_to_be_bytes_def)
  have total: "unat (total_len ip) = length ?d" using assms by (simp add: wire_ok_def)
  have body: "drop (28 + ?n + of_bool (odd ?n)) ?d = a # b # opts"
    by (simp add: wire_datagram_def surplus_bytes_def ab)
  have pad: "?d ! (28 + ?n) = 0" if "odd ?n"
    using that by (simp add: wire_datagram_def surplus_bytes_def nth_append)
  have "recv_surplus (wire_headers ip udp user_data ?s) =
    Ok (ocs_disposition (u16_from_be_bytes a b) (ocs_value opts (word_of_nat (surplus_len ?l)))
          (udp_checksum (rh_udp (wire_headers ip udp user_data ?s))) opts
          (ocs_at ?l + 2 - rh_udp_at (wire_headers ip udp user_data ?s)))"
    using body total pad
    by (intro recv_surplus_eq [where pad = "?d ! (28 + ?n)"])
      (simp_all add: wire_headers_def locate_surplus_written [OF assms] ocs_at_def slice_eq_Ok)
  then show ?thesis by (simp add: w ocs_at_def wire_headers_def)
qed

section \<open>The second pass\<close>

text \<open>A reassembled datagram is well formed, so the second pass never fails and never fragments again.\<close>

lemma reassembled_wire:
  assumes "8 \<le> unat len" and "unat len \<le> 8 + length tail" and "28 + length tail \<le> u16_max"
  shows "\<exists>rip rudp. reassembled_bytes ip udp len tail =
      wire_datagram rip rudp (take (unat len - 8) tail) (drop (unat len - 8) tail)
    \<and> wire_ok rip rudp (take (unat len - 8) tail) (drop (unat len - 8) tail)
    \<and> udp_checksum rudp = 0 \<and> ip_src rip = ip_src ip \<and> ip_dst rip = ip_dst ip
    \<and> src_port rudp = src_port udp \<and> dst_port rudp = dst_port udp"
  using assms
  by (intro exI [where x = "\<lparr>ip_src = ip_src ip, ip_dst = ip_dst ip, ihl = 5, total_len = word_of_nat (28 + length tail)\<rparr>"]
      exI [where x = "\<lparr>src_port = src_port udp, dst_port = dst_port udp, udp_length = len, udp_checksum = 0\<rparr>"])
    (simp add: reassembled_bytes_def wire_datagram_def wire_ok_def min_def unat_of_nat_u16 del: of_nat_add,
      arith)

lemma process_fragment_Reprocess:
  assumes "process_fragment h f parsed status c now = (Ok (Reprocess d r), c')"
  shows "\<exists>len. len = c_udp_length r \<and> d = reassembled_bytes (rh_ip h) (rh_udp h) len (c_tail r)
    \<and> 8 \<le> unat len \<and> unat len \<le> 8 + length (c_tail r) \<and> 28 + length (c_tail r) \<le> u16_max"
  using assms
  by (auto simp: process_fragment_def Let_def reassembled_datagram_eq
      split: if_splits res.splits reassembly_outcome.splits prod.splits)

lemma process_once_Reprocess:
  assumes "process_once crc d c now allowed = (Ok (Reprocess d' r), c')"
  obtains h where "recv_headers d = Ok h" "d' = reassembled_bytes (rh_ip h) (rh_udp h) (c_udp_length r) (c_tail r)"
    "8 \<le> unat (c_udp_length r)" "unat (c_udp_length r) \<le> 8 + length (c_tail r)" "28 + length (c_tail r) \<le> u16_max"
proof -
  obtain h where h: "recv_headers d = Ok h" using assms by (auto simp: process_once_def split: res.splits)
  then obtain f parsed status where "process_fragment h f parsed status c now = (Ok (Reprocess d' r), c')"
    using assms
    by (auto simp: process_once_def process_parsed_def Let_def
        split: res.splits surplus_verdict.splits if_splits option.splits)
  from process_fragment_Reprocess [OF this] show ?thesis using h that by blast
qed

lemma second_pass_headers:
  assumes "process_once crc d c now allowed = (Ok (Reprocess d' r), c')"
  obtains rip rudp where
    "d' = wire_datagram rip rudp (take (unat (c_udp_length r) - 8) (c_tail r)) (drop (unat (c_udp_length r) - 8) (c_tail r))"
    "wire_ok rip rudp (take (unat (c_udp_length r) - 8) (c_tail r)) (drop (unat (c_udp_length r) - 8) (c_tail r))"
    "udp_checksum rudp = 0"
  using assms by (rule process_once_Reprocess) (metis reassembled_wire)

lemma process_datagram_unfold:
  "process_datagram crc d c now =
     (case process_once crc d c now True of
        (Panic, c) \<Rightarrow> (Panic, c)
      | (Err e, c) \<Rightarrow> (Err e, c)
      | (Ok (Done x), c) \<Rightarrow> (Ok x, c)
      | (Ok (Reprocess d' r), c) \<Rightarrow>
          (case process_once crc d' c now False of
             (Ok (Done x), c) \<Rightarrow> (Ok (merge_delivery r x), c)
           | (_, c) \<Rightarrow> (Panic, c)))"
proof (cases "\<exists>d' r c'. process_once crc d c now True = (Ok (Reprocess d' r), c')")
  case True
  then obtain d' r c' where once: "process_once crc d c now True = (Ok (Reprocess d' r), c')" by blast
  from second_pass_headers [OF once] have ok: "\<exists>h. recv_headers d' = Ok h" by (metis recv_headers_written)
  obtain v c2 where second: "process_once crc d' c' now False = (v, c2)" by force
  have "v \<noteq> Panic" "v \<noteq> Err e" "v \<noteq> Ok (Reprocess x y)" for e x y
    using process_once_total [of crc d' c' now False] process_once_Err_iff [of crc d' c' now False e] ok
      process_once_no_reprocess [of crc d' c' now x y c2]
    by (auto simp: second)
  then obtain x where "v = Ok (Done x)" by (metis res.exhaust verdict.exhaust)
  then show ?thesis
    by (simp add: process_datagram_def process_datagram_inner.simps [of crc d]
        process_datagram_inner.simps [of crc d'] once second)
next
  case False
  then show ?thesis
    by (auto simp: process_datagram_def process_datagram_inner.simps [of crc d] split: prod.split res.split verdict.split)
qed

lemma process_datagram_Err_iff:
  "fst (process_datagram crc d c now) = Err e \<longleftrightarrow> recv_headers d = Err e"
  unfolding process_once_Err_iff [of crc d c now True e, symmetric] process_datagram_unfold
  by (auto split: prod.splits res.splits verdict.splits)

section \<open>The cache across the pipeline\<close>

lemma cache_inv_discard: "cache_inv c \<Longrightarrow> cache_inv (cache_discard c key)"
  by (simp add: cache_discard_def cache_inv_remove)

lemma cache_limits_discard [simp]: "cache_limits (cache_discard c key) = cache_limits c"
  by (simp add: cache_discard_def)

lemma process_fragment_inv:
  assumes "cache_inv c" and "process_fragment h f parsed status c now = (v, c')"
  shows "cache_inv c' \<and> cache_limits c' = cache_limits c"
proof -
  let ?at = "rh_udp_at h + unat (frag_start f)"
  let ?key = "frag_key_of (rh_ip h) (rh_udp h) f"
  obtain out c1 where ins: "(insert_with_options_and_failures c ?key f
      (take (rh_ip_end h - ?at) (drop ?at (rh_datagram h)))
      \<lparr>fp_options = po_options parsed, fp_option_failures = fragment_option_failures (po_reports parsed),
       fp_ocs_nonzero = Some (status = OcsValid)\<rparr> now :: (_, recv_error) res) = Ok (out, c1)"
    using insert_total by blast
  have "c' = cache_discard c ?key \<or> c' = c1"
    using assms(2) ins
    by (auto simp: process_fragment_def Let_def reassembled_datagram_eq split: if_splits reassembly_outcome.splits)
  then show ?thesis using assms(1) cache_inv_step [OF assms(1) ins] cache_inv_discard by auto
qed

lemma process_once_inv:
  assumes "cache_inv c" and "process_once crc d c now allowed = (v, c')"
  shows "cache_inv c' \<and> cache_limits c' = cache_limits c"
proof (cases "c' = c \<or> (\<exists>key. c' = cache_discard c key)")
  case True
  then show ?thesis using assms(1) cache_inv_discard by auto
next
  case False
  then have "\<exists>h f parsed status. process_fragment h f parsed status c now = (v, c')"
    using assms(2)
    by (auto simp: process_once_def process_parsed_def Let_def
        split: res.splits surplus_verdict.splits if_splits option.splits)
  then show ?thesis using process_fragment_inv [OF assms(1)] by blast
qed

lemma process_datagram_inv:
  assumes "cache_inv c" and "process_datagram crc d c now = (v, c')"
  shows "cache_inv c' \<and> cache_limits c' = cache_limits c"
proof -
  obtain v1 c1 where once: "process_once crc d c now True = (v1, c1)" by force
  note one = process_once_inv [OF assms(1) once]
  show ?thesis
  proof (cases "\<exists>d' r. v1 = Ok (Reprocess d' r)")
    case True
    then obtain d' r where v1: "v1 = Ok (Reprocess d' r)" by blast
    obtain v2 c2 where two: "process_once crc d' c1 now False = (v2, c2)" by force
    have "c' = c2" using assms(2) by (auto simp: process_datagram_unfold once v1 two split: res.splits verdict.splits)
    then show ?thesis using process_once_inv [OF _ two] one by auto
  next
    case False
    then have "c' = c1" using assms(2) by (auto simp: process_datagram_unfold once split: res.splits verdict.splits)
    then show ?thesis using one by simp
  qed
qed

text \<open>A receiver's run: datagrams with their times, one after the other through one cache.\<close>

inductive receives :: "(bytes \<Rightarrow> u32) \<Rightarrow> reassembly_cache \<Rightarrow> reassembly_cache \<Rightarrow> bool" for crc where
  receives_none: "receives crc c c"
| receives_datagram: "receives crc c c' \<Longrightarrow> receives crc c (snd (process_datagram crc d c' now))"
| receives_gc: "receives crc c c' \<Longrightarrow> receives crc c (cache_gc c' now)"

lemma receives_inv:
  assumes "receives crc c c'" and "cache_inv c"
  shows "cache_inv c' \<and> cache_limits c' = cache_limits c"
  using assms
proof (induction rule: receives.induct)
  case (receives_datagram c c' d now)
  then show ?case using process_datagram_inv [of c' crc d now] by (metis prod.collapse)
qed (auto intro: cache_inv_gc)

end
