(* ===== verification/Raw_Socket.thy ===== *)
theory Raw_Socket
  imports Pipeline
begin

text \<open>
  The raw-socket layer (\<open>src/socket/\<close>): \<open>assemble_datagram\<close> lays out a complete IPv4 datagram,
  \<open>filter_datagram\<close> is the demultiplexing decision, \<open>recv\<close> and \<open>recv_with_deadline\<close> are the receive
  loop. The kernel is a parameter: the clock reading, the result of \<open>set_read_timeout\<close> and the result
  of the socket's \<open>recv\<close> are given for each turn of the loop, and a list of turns that is used up
  stands for a call that still blocks.
\<close>

section \<open>Sending\<close>

definition assemble_datagram ::
  "ipv4_addr \<Rightarrow> ipv4_addr \<Rightarrow> u16 \<Rightarrow> u16 \<Rightarrow> bytes \<Rightarrow> bytes \<Rightarrow> (bytes, 'e) res" where
  "assemble_datagram src dst sport dport user_data options_body =
     and_then (assert_that (options_body = [] \<or> length options_body \<ge> unat length_OCS)) (\<lambda>_.
     and_then (expect_some (checked_add HEADER_LEN (length user_data))) (\<lambda>udp_len.
     and_then (expect_some (u16_try_from udp_len)) (\<lambda>udp_len.
     let natural_start = unat length_UDP_HEADER + 20 + length user_data;
         pad = (options_body \<noteq> [] \<and> natural_start mod 2 = 1) in
     and_then (if options_body = [] then Ok 0
               else expect_some (checked_add (of_bool pad) (length options_body))) (\<lambda>surplus_n.
     and_then (expect_some (u16_try_from surplus_n)) (\<lambda>surplus_n_u16.
     and_then (expect_some (case checked_add 20 (unat udp_len) of
                              None \<Rightarrow> None
                            | Some len \<Rightarrow> checked_add len surplus_n)) (\<lambda>total_n.
     and_then (expect_some (u16_try_from total_n)) (\<lambda>total_n_u16.
     let ip = \<lparr>ip_src = src, ip_dst = dst, ihl = 5, total_len = total_n_u16\<rparr>;
         datagram = replicate total_n 0 in
     and_then (slice datagram 0 20) (\<lambda>out.
     and_then (ip_write ip out) (\<lambda>out.
     and_then (put_slice datagram 0 out) (\<lambda>datagram.
     let udp = \<lparr>src_port = sport, dst_port = dport, udp_length = udp_len, udp_checksum = 0\<rparr> in
     and_then (compute_checksum udp ip user_data) (\<lambda>cs.
     let udp = udp\<lparr>udp_checksum := cs\<rparr> in
     and_then (slice datagram 20 (20 + HEADER_LEN)) (\<lambda>out.
     and_then (udp_write udp out) (\<lambda>out.
     and_then (put_slice datagram 20 out) (\<lambda>datagram.
     let user_at = 20 + HEADER_LEN in
     and_then (put_slice datagram user_at user_data) (\<lambda>datagram.
     let at = natural_start + of_bool pad in
     and_then
       (if options_body \<noteq> [] then
          and_then (put_slice datagram at options_body) (\<lambda>datagram.
          and_then (slice datagram at (at + length options_body)) (\<lambda>body.
          and_then (ocs_compute body surplus_n_u16) (\<lambda>body.
          put_slice datagram at body)))
        else Ok datagram) (\<lambda>datagram.
     and_then (assert_that (length datagram = unat (total_len ip))) (\<lambda>_.
     and_then (assert_that (transport_payload_len ip = unat udp_len + surplus_n)) (\<lambda>_.
     and_then (assert_that (if options_body = [] then unat udp_len = transport_payload_len ip
                            else unat udp_len < transport_payload_len ip)) (\<lambda>_.
     Ok datagram)))))))))))))))))))"

text \<open>The datagram that \<open>assemble_datagram\<close> is meant to build, and when it can.\<close>

definition surplus_of :: "bytes \<Rightarrow> bytes \<Rightarrow> bytes" where
  "surplus_of user_data body =
     (if body = [] then []
      else surplus_bytes user_data
        (ocs_value (drop 2 body) (word_of_nat (of_bool (odd (length user_data)) + length body))) (drop 2 body))"

definition assembled_len :: "bytes \<Rightarrow> bytes \<Rightarrow> usize" where
  "assembled_len user_data body =
     28 + length user_data + (if body = [] then 0 else of_bool (odd (length user_data)) + length body)"

definition assembled_ip :: "ipv4_addr \<Rightarrow> ipv4_addr \<Rightarrow> bytes \<Rightarrow> bytes \<Rightarrow> ip_repr" where
  "assembled_ip src dst user_data body =
     \<lparr>ip_src = src, ip_dst = dst, ihl = 5, total_len = word_of_nat (assembled_len user_data body)\<rparr>"

definition assembled_udp :: "ip_repr \<Rightarrow> u16 \<Rightarrow> u16 \<Rightarrow> bytes \<Rightarrow> udp_header" where
  "assembled_udp ip sport dport user_data =
     (let udp = \<lparr>src_port = sport, dst_port = dport, udp_length = word_of_nat (8 + length user_data), udp_checksum = 0\<rparr> in
      udp\<lparr>udp_checksum := (case compute_checksum udp ip user_data :: (_, unit) res of Ok cs \<Rightarrow> cs | _ \<Rightarrow> 0)\<rparr>)"

definition assembled :: "ipv4_addr \<Rightarrow> ipv4_addr \<Rightarrow> u16 \<Rightarrow> u16 \<Rightarrow> bytes \<Rightarrow> bytes \<Rightarrow> bytes" where
  "assembled src dst sport dport user_data body =
     (let ip = assembled_ip src dst user_data body in
      wire_datagram ip (assembled_udp ip sport dport user_data) user_data (surplus_of user_data body))"

lemma length_surplus_of [simp]:
  "body = [] \<or> 2 \<le> length body \<Longrightarrow>
     length (surplus_of user_data body) = (if body = [] then 0 else of_bool (odd (length user_data)) + length body)"
  by (auto simp: surplus_of_def)

lemma length_assembled:
  "body = [] \<or> 2 \<le> length body \<Longrightarrow>
     length (assembled src dst sport dport user_data body) = assembled_len user_data body"
  by (simp add: assembled_def Let_def assembled_len_def)

lemma assembled_udp_simps [simp]:
  "udp_length (assembled_udp ip sport dport user_data) = word_of_nat (8 + length user_data)"
  "src_port (assembled_udp ip sport dport user_data) = sport"
  "dst_port (assembled_udp ip sport dport user_data) = dport"
  by (simp_all add: assembled_udp_def Let_def)

lemma assembled_ip_simps [simp]:
  "ihl (assembled_ip src dst user_data body) = 5"
  "ip_src (assembled_ip src dst user_data body) = src" "ip_dst (assembled_ip src dst user_data body) = dst"
  "total_len (assembled_ip src dst user_data body) = word_of_nat (assembled_len user_data body)"
  by (simp_all add: assembled_ip_def)

lemma assembled_udp_checksum:
  assumes "8 + length user_data \<le> u16_max"
  shows "compute_checksum (assembled_udp ip sport dport user_data) ip user_data =
      (Ok (udp_checksum (assembled_udp ip sport dport user_data)) :: (u16, 'e) res)"
    and "udp_checksum (assembled_udp ip sport dport user_data) \<noteq> 0"
proof -
  let ?u = "\<lparr>src_port = sport, dst_port = dport, udp_length = word_of_nat (8 + length user_data), udp_checksum = 0\<rparr>"
  have n: "unat (udp_length ?u) = 8 + length user_data" using assms by (simp add: unat_of_nat_u16 del: of_nat_add)
  show "compute_checksum (assembled_udp ip sport dport user_data) ip user_data =
      (Ok (udp_checksum (assembled_udp ip sport dport user_data)) :: (u16, 'e) res)"
    "udp_checksum (assembled_udp ip sport dport user_data) \<noteq> 0"
    using n by (simp_all add: assembled_udp_def Let_def compute_checksum_ignores_stored compute_checksum_eq
        nonzero_or_ones_def del: of_nat_add)
qed

lemma assembled_wire_ok:
  assumes "body = [] \<or> 2 \<le> length body" and "assembled_len user_data body \<le> u16_max"
  shows "let ip = assembled_ip src dst user_data body in
    wire_ok ip (assembled_udp ip sport dport user_data) user_data (surplus_of user_data body)"
proof -
  have n: "8 + length user_data \<le> u16_max" using assms(2) by (simp add: assembled_len_def split: if_splits)
  have u: "unat (word_of_nat (8 + length user_data) :: u16) = 8 + length user_data" using n by (rule unat_of_nat_u16)
  have t: "unat (word_of_nat (assembled_len user_data body) :: u16) = assembled_len user_data body"
    using assms(2) by (rule unat_of_nat_u16)
  show ?thesis
    using assms(1) u t
    by (simp add: wire_ok_def Let_def assembled_udp_checksum(1) [OF n] del: of_nat_add) (simp add: assembled_len_def)
qed

lemma assembled_ip_eq:
  "\<lparr>ip_src = src, ip_dst = dst, ihl = 5, total_len = word_of_nat (assembled_len user_data body)\<rparr> =
     assembled_ip src dst user_data body"
  by (simp add: assembled_ip_def)

lemma assembled_udp_eq:
  assumes "compute_checksum \<lparr>src_port = sport, dst_port = dport, udp_length = word_of_nat (8 + length user_data),
      udp_checksum = 0\<rparr> ip user_data = (Ok cs :: (_, 'e) res)"
  shows "\<lparr>src_port = sport, dst_port = dport, udp_length = word_of_nat (8 + length user_data), udp_checksum = cs\<rparr> =
     assembled_udp ip sport dport user_data"
  using assms by (auto simp: assembled_udp_def Let_def compute_checksum_eq split: if_splits)

text \<open>Filling a zeroed buffer from the front, one region after the other.\<close>

lemma put_slice_fill:
  "k = length xs \<Longrightarrow> n = length src \<Longrightarrow>
     put_slice (xs @ replicate n 0 @ rest) k src = Ok (xs @ src @ rest)"
  by simp

lemma fill_options:
  assumes "body = [] \<or> 2 \<le> length body" and "length xs = 28 + length user_data"
    and s: "s = (if body = [] then 0 else of_bool (odd (length user_data)) + length body)"
    and at: "at = 8 + 20 + length user_data + of_bool (body \<noteq> [] \<and> (8 + 20 + length user_data) mod 2 = 1)"
  shows "(if body \<noteq> [] then
          and_then (put_slice (xs @ replicate s 0) at body) (\<lambda>datagram.
          and_then (slice datagram at (at + length body)) (\<lambda>body.
          and_then (ocs_compute body (word_of_nat s)) (\<lambda>body.
          put_slice datagram at body)))
        else Ok (xs @ replicate s 0)) = (Ok (xs @ surplus_of user_data body) :: (_, 'e) res)"
proof (cases "body = []")
  case False
  then obtain a b opts where body: "body = a # b # opts" using assms(1) by (cases body; cases "tl body") auto
  let ?p = "of_bool (odd (length user_data)) :: nat"
  have at: "at = length xs + ?p" using at assms(2) False by (simp add: mod_2_odd)
  have fill: "(put_slice (xs @ replicate s 0) at zs :: (_, 'e) res) = Ok (xs @ replicate ?p 0 @ zs)"
    if "length zs = length body" for zs
    using that False by (simp add: at s replicate_add)
  have refill: "(put_slice (xs @ replicate ?p 0 @ ys) at zs :: (_, 'e) res) = Ok (xs @ replicate ?p 0 @ zs)"
    if "length zs = length ys" for ys zs :: bytes
    using that by (simp add: at)
  have "(slice (xs @ replicate ?p 0 @ body) at (at + length body) :: (_, 'e) res) = Ok body" by (simp add: at)
  moreover have "ocs_compute body (word_of_nat s) =
      (Ok (u16_to_be_bytes (ocs_value (drop 2 body) (word_of_nat s)) @ drop 2 body) :: (_, 'e) res)"
    by (simp add: body ocs_compute_Ok)
  moreover have "length (u16_to_be_bytes (ocs_value (drop 2 body) (word_of_nat s)) @ drop 2 body) = length body"
    by (simp add: body)
  ultimately have "and_then (put_slice (xs @ replicate s 0) at body) (\<lambda>datagram.
          and_then (slice datagram at (at + length body)) (\<lambda>body.
          and_then (ocs_compute body (word_of_nat s)) (\<lambda>body.
          put_slice datagram at body))) =
      (Ok (xs @ replicate ?p 0 @ u16_to_be_bytes (ocs_value (drop 2 body) (word_of_nat s)) @ drop 2 body) :: (_, 'e) res)"
    by (simp only: fill refill and_then.simps)
  with False show ?thesis by (simp only: surplus_of_def surplus_bytes_def s if_False not_False_eq_True if_True)
qed (simp add: surplus_of_def s)

lemma assemble_datagram_eq:
  assumes "body = [] \<or> 2 \<le> length body" and "assembled_len user_data body \<le> u16_max"
  shows "assemble_datagram src dst sport dport user_data body =
    (Ok (assembled src dst sport dport user_data body) :: (_, 'e) res)"
proof -
  let ?n = "length user_data" and ?m = "length body"
  define s where "s = (if body = [] then 0 else of_bool (odd ?n) + ?m)"
  define w :: u16 where "w = word_of_nat (8 + ?n)"
  let ?ip = "assembled_ip src dst user_data body"
  let ?hdr = "\<lparr>src_port = sport, dst_port = dport, udp_length = w, udp_checksum = 0\<rparr>"
  let ?udp = "assembled_udp ?ip sport dport user_data"
  define t where "t = assembled_len user_data body"
  have t: "t = 28 + ?n + s" by (simp add: t_def assembled_len_def s_def)
  have max: "8 + ?n \<le> u16_max" "s \<le> u16_max" "t \<le> u16_max" "t \<le> usize_max" "8 + ?n \<le> usize_max" "s \<le> usize_max"
    using assms(2) u16_max_less_usize_max t unfolding t_def [symmetric] by linarith+
  have un: "unat w = 8 + ?n" using max(1) unfolding w_def by (rule unat_of_nat_u16)
  have ut: "unat (word_of_nat t :: u16) = t" using max(3) by (rule unat_of_nat_u16)
  have nums: "checked_add 8 ?n = Some (8 + ?n)" "u16_try_from (8 + ?n) = Some w"
    "checked_add 20 (8 + ?n) = Some (28 + ?n)" "checked_add (28 + ?n) s = Some t"
    "u16_try_from t = Some (word_of_nat t)" "u16_try_from s = Some (word_of_nat s)"
    using max t by (simp_all add: checked_add_def u16_try_from_def w_def)
  have surplus: "(if body = [] then Ok 0 else expect_some (checked_add (of_bool (body \<noteq> [] \<and> (8 + 20 + ?n) mod 2 = 1)) ?m)) =
      (Ok s :: (_, 'e) res)"
    using max(6) by (auto simp: s_def checked_add_def mod_2_odd split: if_splits)
  obtain cs where cs: "compute_checksum ?hdr ?ip user_data = (Ok cs :: (_, 'e) res)"
    using un by (simp add: compute_checksum_eq)
  have udp: "?hdr\<lparr>udp_checksum := cs\<rparr> = ?udp" using assembled_udp_eq [OF cs [unfolded w_def]] by (simp add: w_def)
  let ?z = "\<lambda>n. replicate n (0 :: byte)"
  have buf: "?z t = ?z 20 @ ?z 8 @ ?z ?n @ ?z s" by (simp add: t replicate_add [symmetric] add.assoc)
  have iw: "ip_write ?ip (?z 20) = (Ok (ip_header_bytes ?ip) :: (_, 'e) res)" by (simp add: ip_write_Ok)
  have uw: "udp_write ?udp (?z 8) = (Ok (udp_header_bytes ?udp) :: (_, 'e) res)" by (simp add: udp_write_Ok)
  let ?xs = "(ip_header_bytes ?ip @ udp_header_bytes ?udp) @ user_data"
  have len: "length ?xs = 28 + ?n" by simp
  have ip: "\<lparr>ip_src = src, ip_dst = dst, ihl = 5, total_len = word_of_nat t\<rparr> = ?ip"
    by (simp add: t_def assembled_ip_eq)
  have steps: "slice (?z t) 0 20 = (Ok (?z 20) :: (_, 'e) res)"
    "put_slice (?z t) 0 (ip_header_bytes ?ip) = (Ok (ip_header_bytes ?ip @ ?z 8 @ ?z ?n @ ?z s) :: (_, 'e) res)"
    "slice (ip_header_bytes ?ip @ ?z 8 @ ?z ?n @ ?z s) 20 (20 + 8) = (Ok (?z 8) :: (_, 'e) res)"
    "put_slice (ip_header_bytes ?ip @ ?z 8 @ ?z ?n @ ?z s) 20 (udp_header_bytes ?udp) =
      (Ok ((ip_header_bytes ?ip @ udp_header_bytes ?udp) @ ?z ?n @ ?z s) :: (_, 'e) res)"
    "put_slice ((ip_header_bytes ?ip @ udp_header_bytes ?udp) @ ?z ?n @ ?z s) (20 + 8) user_data =
      (Ok (?xs @ ?z s) :: (_, 'e) res)"
    unfolding buf by simp_all
  have payload: "transport_payload_len ?ip = 8 + ?n + s"
    using ut by (simp add: transport_payload_len_def t_def [symmetric]) (simp add: t)
  have asserts: "(body = [] \<or> length body \<ge> 2) = True"
    "(length (?xs @ surplus_of user_data body) = unat (total_len ?ip)) = True"
    "(transport_payload_len ?ip = 8 + ?n + s) = True"
    "(if body = [] then 8 + ?n = transport_payload_len ?ip else 8 + ?n < transport_payload_len ?ip) = True"
    using assms(1) ut t payload by (auto simp: t_def [symmetric] s_def)
  show ?thesis
    unfolding assemble_datagram_def Let_def HEADER_LEN_eq unat_length_UDP_HEADER surplus unat_length_OCS
    by (simp only: and_then.simps nums expect_some_simps un surplus option.case ip steps cs udp iw uw
        fill_options [OF assms(1) len s_def refl] asserts assert_that_simps)
      (simp add: assembled_def Let_def wire_datagram_def)
qed

section \<open>Receiving\<close>

definition map_socket_error :: "io_error \<Rightarrow> socket_error" where
  "map_socket_error e = (if raw_os_error e = Some 1 \<or> raw_os_error e = Some 13 then PermissionDenied else SocketIo e)"

datatype filter_verdict = Deliver usize | DemuxFiltered

definition filter_datagram ::
  "bytes \<Rightarrow> u16 \<Rightarrow> u16 option \<Rightarrow> ipv4_addr option \<Rightarrow> (filter_verdict, 'e) res" where
  "filter_datagram data dport sport own_src =
     (case ip_parse data of
        Panic \<Rightarrow> Panic
      | Err _ \<Rightarrow> Ok DemuxFiltered
      | Ok (ip, udp_at) \<Rightarrow>
          and_then (slice data udp_at (length data)) (\<lambda>rest.
          case udp_parse rest of
            Panic \<Rightarrow> Panic
          | Err _ \<Rightarrow> Ok DemuxFiltered
          | Ok udp \<Rightarrow>
              if own_src = Some (ip_src ip) then Ok DemuxFiltered
              else if dst_port udp \<noteq> dport then Ok DemuxFiltered
              else if (case sport of None \<Rightarrow> False | Some p \<Rightarrow> src_port udp \<noteq> p) then Ok DemuxFiltered
              else Ok (Deliver (unat (total_len ip)))))"

definition MIN_READ_TIMEOUT :: duration where "MIN_READ_TIMEOUT = 1000000"

record raw_receiver =
  rcv_dst_port :: u16
  rcv_src_port :: "u16 option"
  rcv_own_src :: "ipv4_addr option"

text \<open>What the kernel does in one turn: the clock, the error of \<open>set_read_timeout\<close> if any, and \<open>recv\<close>.\<close>

record turn =
  t_now :: instant
  t_set :: "io_error option"
  t_recv :: "io_error + bytes"

text \<open>The check before each read: \<open>None\<close> when the deadline has passed, else the timeout now armed.\<close>

definition arm_timeout ::
  "instant option \<Rightarrow> duration option \<Rightarrow> turn \<Rightarrow> (duration option option, socket_error) res" where
  "arm_timeout deadline timeout t =
     (case deadline of
        None \<Rightarrow> Ok (Some timeout)
      | Some dl \<Rightarrow>
          let remaining = dl - t_now t in
          if remaining = 0 then Ok None
          else
            (case t_set t of
               None \<Rightarrow> Ok (Some (Some (max remaining MIN_READ_TIMEOUT)))
             | Some e \<Rightarrow> Err (map_socket_error e)))"

text \<open>The loop; the socket's current \<open>SO_RCVTIMEO\<close> is its state. No value: the call still blocks.\<close>

fun recv_with_deadline ::
  "raw_receiver \<Rightarrow> instant option \<Rightarrow> duration option \<Rightarrow> turn list
     \<Rightarrow> ((bytes option, socket_error) res \<times> duration option) option" where
  "recv_with_deadline r deadline timeout [] = None"
| "recv_with_deadline r deadline timeout (t # ts) =
     (case arm_timeout deadline timeout t of
        Panic \<Rightarrow> Some (Panic, timeout)
      | Err e \<Rightarrow> Some (Err e, timeout)
      | Ok None \<Rightarrow> Some (Ok None, timeout)
      | Ok (Some timeout) \<Rightarrow>
          (case t_recv t of
             Inl e \<Rightarrow>
               if io_kind e = WouldBlock \<or> io_kind e = TimedOut then Some (Ok None, timeout)
               else Some (Err (map_socket_error e), timeout)
           | Inr data \<Rightarrow>
               (case filter_datagram data (rcv_dst_port r) (rcv_src_port r) (rcv_own_src r) of
                  Panic \<Rightarrow> Some (Panic, timeout)
                | Err e \<Rightarrow> Some (Err e, timeout)
                | Ok (Deliver len) \<Rightarrow> Some (and_then (slice data 0 len) (\<lambda>d. Ok (Some d)), timeout)
                | Ok DemuxFiltered \<Rightarrow> recv_with_deadline r deadline timeout ts)))"

text \<open>\<open>recv\<close>: \<open>read_error\<close> and \<open>restore_error\<close> are the failures, if any, of reading and of restoring the
  configured timeout; \<open>now_checked_add\<close> is \<open>Instant::now().checked_add\<close>.\<close>

definition raw_recv ::
  "raw_receiver \<Rightarrow> duration option \<Rightarrow> io_error option \<Rightarrow> (duration \<Rightarrow> instant option) \<Rightarrow> io_error option
     \<Rightarrow> turn list \<Rightarrow> ((bytes option, socket_error) res \<times> duration option) option" where
  "raw_recv r timeout read_error now_checked_add restore_error ts =
     (case read_error of
        Some e \<Rightarrow> Some (Err (map_socket_error e), timeout)
      | None \<Rightarrow>
          (case Option.bind timeout now_checked_add of
             None \<Rightarrow> recv_with_deadline r None timeout ts
           | Some deadline \<Rightarrow>
               (case recv_with_deadline r (Some deadline) timeout ts of
                  None \<Rightarrow> None
                | Some (result, current) \<Rightarrow>
                    Some (case restore_error of
                            None \<Rightarrow> (result, timeout)
                          | Some e \<Rightarrow>
                              (case result of
                                 Ok _ \<Rightarrow> Err (map_socket_error e)
                               | _ \<Rightarrow> result, current)))))"

lemma filter_datagram_no_panic [panic_free, simp]: "filter_datagram data dport sport own_src \<noteq> Panic"
proof (cases "ip_parse data")
  case (Ok p)
  moreover obtain ip at where p: "p = (ip, at)" by (cases p)
  moreover have "at \<le> length data" using ip_parse_Ok_D [OF Ok [unfolded p]] by linarith
  ultimately show ?thesis
    by (auto simp: filter_datagram_def udp_parse_no_panic split: res.split option.splits prod.split)
qed (simp_all add: filter_datagram_def ip_parse_no_panic)

lemma filter_datagram_not_Err [simp]: "filter_datagram data dport sport own_src \<noteq> Err e"
  by (auto simp: filter_datagram_def and_then_eq_Err split: res.split option.splits)

lemma filter_datagram_Deliver:
  assumes "filter_datagram data dport sport own_src = Ok (Deliver len)"
  shows "\<exists>ip udp. ip_parse data = Ok (ip, header_len ip) \<and> udp_parse (drop (header_len ip) data) = Ok udp
    \<and> len = unat (total_len ip) \<and> len \<le> length data \<and> own_src \<noteq> Some (ip_src ip) \<and> dst_port udp = dport
    \<and> (\<forall>p. sport = Some p \<longrightarrow> src_port udp = p)"
  using assms ip_parse_Ok_D [of data]
  by (fastforce simp: filter_datagram_def and_then_eq_Ok slice_eq_Ok split: res.splits option.splits if_splits)

text \<open>A turn that the loop passes over: a datagram was read in time and is not for this receiver.\<close>

definition skipped :: "raw_receiver \<Rightarrow> instant option \<Rightarrow> turn \<Rightarrow> bool" where
  "skipped r deadline t \<longleftrightarrow>
     (\<forall>dl. deadline = Some dl \<longrightarrow> t_now t < dl)
     \<and> (case t_recv t of
          Inl e \<Rightarrow> False
        | Inr data \<Rightarrow>
            filter_datagram data (rcv_dst_port r) (rcv_src_port r) (rcv_own_src r) = (Ok DemuxFiltered :: (_, socket_error) res))"

definition delivers :: "raw_receiver \<Rightarrow> instant option \<Rightarrow> turn \<Rightarrow> bytes \<Rightarrow> bool" where
  "delivers r deadline t d \<longleftrightarrow>
     (\<forall>dl. deadline = Some dl \<longrightarrow> t_now t < dl)
     \<and> (\<exists>data len. t_recv t = Inr data \<and> d = take len data \<and> len \<le> length data
          \<and> filter_datagram data (rcv_dst_port r) (rcv_src_port r) (rcv_own_src r) = (Ok (Deliver len) :: (_, socket_error) res))"

lemma arm_timeout_Ok: "arm_timeout deadline timeout t = Ok (Some timeout') \<Longrightarrow> deadline = Some dl \<Longrightarrow> t_now t < dl"
  by (auto simp: arm_timeout_def Let_def split: option.splits if_splits)

lemma recv_with_deadline_no_panic: "recv_with_deadline r deadline timeout ts \<noteq> Some (Panic, timeout')"
proof (induction r deadline timeout ts rule: recv_with_deadline.induct)
  case (2 r deadline timeout t ts)
  have "arm_timeout deadline timeout t \<noteq> Panic"
    by (auto simp: arm_timeout_def Let_def split: option.splits)
  then show ?case
    using 2
    by (auto simp: and_then_eq_Panic slice_eq_Panic dest: filter_datagram_Deliver
        split: res.split option.split sum.split filter_verdict.split)
qed simp

section \<open>Properties\<close>

lemma recv_surplus_assembled:
  assumes "body = [] \<or> 2 \<le> length body"
    and "wire_ok ip udp user_data (surplus_of user_data body)"
  shows "recv_surplus (wire_headers ip udp user_data (surplus_of user_data body)) =
    Ok (if body = [] then NoOptions False OcsAbsent
        else OptionsAt OcsValid (drop 2 body) (10 + length user_data + of_bool (odd (length user_data))))"
proof (cases "body = []")
  case True
  then have "surplus_of user_data body = []" by (simp add: surplus_of_def)
  then show ?thesis using recv_surplus_none assms(2) True by simp
next
  case False
  then have "2 \<le> length body" using assms(1) by simp
  define ocs where "ocs = ocs_value (drop 2 body) (word_of_nat (of_bool (odd (length user_data)) + length body))"
  have s: "surplus_of user_data body = surplus_bytes user_data ocs (drop 2 body)"
    using False by (simp add: surplus_of_def ocs_def Let_def)
  have n: "length (surplus_bytes user_data ocs (drop 2 body)) = of_bool (odd (length user_data)) + length body"
    using \<open>2 \<le> length body\<close> by simp
  have "ocs \<noteq> 0" by (simp add: ocs_def)
  then show ?thesis
    using recv_surplus_written [OF assms(2) [unfolded s]] False unfolding s n by (simp add: ocs_disposition_def ocs_def)
qed

text \<open>
  C18: Assembling a datagram from any user data and options body that fit never panics, and the receiver reads back what was
  put in: addresses, ports and user data pass the header checks, and the surplus holds the given options
  under a valid option checksum, or is absent when there are none.
\<close>

theorem assemble_datagram_received:
  assumes "body = [] \<or> 2 \<le> length body" and "assembled_len user_data body \<le> u16_max"
  shows "\<exists>d h. assemble_datagram src dst sport dport user_data body = (Ok d :: (_, 'e) res)
    \<and> length d = assembled_len user_data body \<and> recv_headers d = Ok h \<and> rh_user_data h = user_data
    \<and> ip_src (rh_ip h) = src \<and> ip_dst (rh_ip h) = dst \<and> src_port (rh_udp h) = sport \<and> dst_port (rh_udp h) = dport
    \<and> recv_surplus h =
        Ok (if body = [] then NoOptions False OcsAbsent
            else OptionsAt OcsValid (drop 2 body) (10 + length user_data + of_bool (odd (length user_data))))"
proof -
  let ?ip = "assembled_ip src dst user_data body"
  let ?udp = "assembled_udp ?ip sport dport user_data"
  have wire: "wire_ok ?ip ?udp user_data (surplus_of user_data body)"
    using assembled_wire_ok [OF assms] by (simp add: Let_def)
  let ?d = "assembled src dst sport dport user_data body" and ?h = "wire_headers ?ip ?udp user_data (surplus_of user_data body)"
  have "recv_headers ?d = Ok ?h" using recv_headers_written [OF wire] by (simp add: assembled_def Let_def)
  moreover have "rh_user_data ?h = user_data" "rh_ip ?h = ?ip" "rh_udp ?h = ?udp" by (simp_all add: wire_headers_def)
  ultimately show ?thesis
    using recv_surplus_assembled [OF assms(1) wire] assemble_datagram_eq [OF assms] length_assembled [OF assms(1)]
    by (intro exI [of _ ?d] exI [of _ ?h]) simp
qed

theorem assemble_datagram_received_witness:
  "\<exists>d h. assemble_datagram (Ipv4Addr 10 0 0 1) (Ipv4Addr 10 0 0 2) 1 2 [7, 8, 9] [0, 0, 4, 4, 5, 220, 0, 0] = (Ok d :: (_, unit) res)
    \<and> recv_headers d = Ok h \<and> recv_surplus h = Ok (OptionsAt OcsValid [4, 4, 5, 220, 0, 0] 14)"
  using assemble_datagram_received [of "[0, 0, 4, 4, 5, 220, 0, 0]" "[7, 8, 9]" "Ipv4Addr 10 0 0 1" "Ipv4Addr 10 0 0 2" 1 2,
      where ?'e = unit]
  by (auto simp: assembled_len_def u16_max_def)

text \<open>With a deadline, the read timeout of the turn could be set.\<close>

definition armed :: "instant option \<Rightarrow> turn \<Rightarrow> bool" where
  "armed deadline t \<longleftrightarrow> deadline = None \<or> t_set t = None"

lemma armed_turn:
  assumes "armed deadline t" and "\<forall>dl. deadline = Some dl \<longrightarrow> t_now t < dl"
  shows "\<exists>timeout'. arm_timeout deadline timeout t = Ok (Some timeout')"
  using assms by (auto simp: armed_def arm_timeout_def Let_def split: option.split)

lemma arm_timeout_armed: "arm_timeout deadline timeout t = Ok (Some timeout') \<Longrightarrow> armed deadline t"
  by (auto simp: armed_def arm_timeout_def Let_def split: option.splits if_splits)

lemma recv_loop_delivers:
  assumes "list_all (\<lambda>u. skipped r deadline u \<and> armed deadline u) pre" and "armed deadline t" and "delivers r deadline t d"
  shows "\<exists>timeout'. recv_with_deadline r deadline timeout (pre @ t # post) = Some (Ok (Some d), timeout')"
  using assms(1)
proof (induction pre arbitrary: timeout)
  case Nil
  obtain timeout' where "arm_timeout deadline timeout t = Ok (Some timeout')"
    using armed_turn [OF assms(2)] assms(3) by (auto simp: delivers_def)
  then show ?case using assms(3) by (auto simp: delivers_def)
next
  case (Cons u pre)
  obtain timeout' where "arm_timeout deadline timeout u = Ok (Some timeout')"
    using armed_turn [of deadline u] Cons.prems by (auto simp: skipped_def)
  then show ?case using Cons by (auto simp: skipped_def split: sum.splits)
qed

lemma recv_loop_delivered:
  assumes "recv_with_deadline r deadline timeout ts = Some (Ok (Some d), timeout')"
  shows "\<exists>pre t post. ts = pre @ t # post \<and> list_all (\<lambda>u. skipped r deadline u \<and> armed deadline u) pre
    \<and> armed deadline t \<and> delivers r deadline t d"
  using assms
proof (induction r deadline timeout ts rule: recv_with_deadline.induct)
  case (2 r deadline timeout t ts)
  obtain timeout1 where a: "arm_timeout deadline timeout t = Ok (Some timeout1)"
    using "2.prems" by (auto split: res.splits option.splits)
  obtain data where data: "t_recv t = Inr data" using "2.prems" a by (auto split: sum.splits if_splits)
  note time = arm_timeout_Ok [OF a] and armed = arm_timeout_armed [OF a]
  let ?v = "filter_datagram data (rcv_dst_port r) (rcv_src_port r) (rcv_own_src r) :: (_, socket_error) res"
  show ?case
  proof (cases "\<exists>len. ?v = Ok (Deliver len)")
    case True
    then obtain len where len: "?v = Ok (Deliver len)" by blast
    then have "len \<le> length data" using filter_datagram_Deliver by blast
    then have "delivers r deadline t d" using "2.prems" a data len time by (auto simp: delivers_def)
    then show ?thesis using armed by (intro exI [of _ "[]"]) auto
  next
    case False
    then have v: "?v = Ok DemuxFiltered" by (metis filter_datagram_no_panic filter_datagram_not_Err filter_verdict.exhaust res.exhaust)
    then have "recv_with_deadline r deadline timeout1 ts = Some (Ok (Some d), timeout')" using "2.prems" a data by simp
    from "2.IH" [OF a refl data v refl this] obtain pre u post where
      "ts = pre @ u # post" "list_all (\<lambda>u. skipped r deadline u \<and> armed deadline u) pre" "armed deadline u" "delivers r deadline u d"
      by blast
    moreover have "skipped r deadline t" using time data v by (auto simp: skipped_def)
    ultimately show ?thesis using armed by (intro exI [of _ "t # pre"]) auto
  qed
qed simp

lemma recv_loop_timeout: "recv_with_deadline r None timeout ts = Some (res, timeout') \<Longrightarrow> timeout' = timeout"
  by (induction ts) (auto simp: arm_timeout_def split: sum.splits res.splits filter_verdict.splits if_splits)

text \<open>
  C17: The receive loop returns a datagram exactly when one for this receiver arrives in time: it delivers the first
  datagram that passes the port and address filter before the deadline, cut to its Total Length, after
  passing over only datagrams that fail the filter; it never panics, and the socket's read timeout is
  restored.
\<close>

theorem receive_loop_correct:
  "((\<exists>current. recv_with_deadline r deadline timeout ts = Some (Ok (Some d), current)) \<longleftrightarrow>
     (\<exists>pre t post. ts = pre @ t # post \<and> list_all (\<lambda>u. skipped r deadline u \<and> armed deadline u) pre
        \<and> armed deadline t \<and> delivers r deadline t d))
   \<and> recv_with_deadline r deadline timeout ts \<noteq> Some (Panic, current)
   \<and> map_option snd (raw_recv r timeout read_error clock None ts) \<in> {None, Some timeout}"
proof (intro conjI)
  show "(\<exists>current. recv_with_deadline r deadline timeout ts = Some (Ok (Some d), current)) \<longleftrightarrow>
     (\<exists>pre t post. ts = pre @ t # post \<and> list_all (\<lambda>u. skipped r deadline u \<and> armed deadline u) pre
        \<and> armed deadline t \<and> delivers r deadline t d)"
    using recv_loop_delivers recv_loop_delivered by blast
  show "recv_with_deadline r deadline timeout ts \<noteq> Some (Panic, current)" by (rule recv_with_deadline_no_panic)
  show "map_option snd (raw_recv r timeout read_error clock None ts) \<in> {None, Some timeout}"
    using recv_loop_timeout [of r timeout ts]
    by (cases "recv_with_deadline r None timeout ts")
      (auto simp: raw_recv_def split: option.split)
qed

end
