(* ===== verification/Api.thy ===== *)
theory Api
  imports Raw_Socket Frag_Split "HOL-Library.Multiset"
begin

text \<open>
  The public interface (\<open>src/api/mod.rs\<close>): building the datagrams of one send, with the validation of
  configuration and options, the choice between one datagram and fragments, and the identification
  generator of a peer; decoding one datagram under a receive policy; and the calls of \<open>Peer\<close>. The
  sockets are parameters of the \<open>Peer\<close> operations: the results of the kernel's send calls, and what
  the receive loop returned.
\<close>

section \<open>Data\<close>

definition API_IPV4_HEADER_LEN :: usize where "API_IPV4_HEADER_LEN = 20"
definition UDP_HEADER_LEN :: usize where "UDP_HEADER_LEN = unat length_UDP_HEADER"
definition IPV4_DATAGRAM_LEN_MAX :: usize where "IPV4_DATAGRAM_LEN_MAX = u16_max"
definition DEFAULT_MAX_DATAGRAM_LEN :: usize where "DEFAULT_MAX_DATAGRAM_LEN = 1500"
definition POLICY_WARN_SAMPLE_INTERVAL :: u64 where "POLICY_WARN_SAMPLE_INTERVAL = 64"

record datagram_addrs =
  addr_src :: ipv4_addr
  addr_dst :: ipv4_addr
  addr_src_port :: u16
  addr_dst_port :: u16

datatype fragmentation_mode = Auto | Disabled

record send_options =
  so_raw_options :: "raw_option list"
  so_include_apc :: bool

record send_config =
  max_datagram_len :: usize
  send_peer :: peer_fragment_limits
  fragmentation :: fragmentation_mode
  send_identification :: "u32 option"

definition send_config_default :: send_config where
  "send_config_default =
     \<lparr>max_datagram_len = DEFAULT_MAX_DATAGRAM_LEN, send_peer = default_ipv4, fragmentation = Auto,
      send_identification = None\<rparr>"

record receive_policy =
  rp_required_options :: "option_kind list"
  rp_drop_all_option_bearing :: bool
  rp_ocs_required :: bool

record received_datagram =
  rd_data :: bytes
  rd_options :: "raw_option list"
  rd_reports :: "option_report list"
  rd_ocs_reports :: "ocs_report list"

datatype api_delivery = Received received_datagram | ApiBuffered | ApiDropped | Filtered

record send_outcome =
  out_datagrams :: usize
  out_bytes :: usize

record peer_config =
  pc_addrs :: datagram_addrs
  pc_send :: send_config
  pc_receive :: receive_policy
  pc_read_timeout :: "duration option"

section \<open>Options of one send\<close>

definition send_options_new :: send_options where
  "send_options_new = \<lparr>so_raw_options = [], so_include_apc = False\<rparr>"

definition send_push_raw :: "send_options \<Rightarrow> raw_option \<Rightarrow> send_options" where
  "send_push_raw so opt = so\<lparr>so_raw_options := so_raw_options so @ [opt]\<rparr>"

text \<open>The typed option's \<open>encode\<close> is an argument, as it is a method of the trait \<open>TypedOption\<close>.\<close>

definition raw_from_typed :: "(bytes \<Rightarrow> 't \<Rightarrow> bytes) \<Rightarrow> 't \<Rightarrow> (raw_option, 'e) res" where
  "raw_from_typed encode opt =
     and_then (options_next (options_iter_new (encode [] opt))) (\<lambda>(x, _).
     and_then (expect_some x) (\<lambda>item.
     case item of Inl e \<Rightarrow> Panic | Inr parsed \<Rightarrow> Ok (raw_from_ref parsed)))"

definition send_push_typed ::
  "(bytes \<Rightarrow> 't \<Rightarrow> bytes) \<Rightarrow> send_options \<Rightarrow> 't \<Rightarrow> (send_options, 'e) res" where
  "send_push_typed encode so opt = and_then (raw_from_typed encode opt) (\<lambda>raw. Ok (send_push_raw so raw))"

definition with_apc :: "send_options \<Rightarrow> send_options" where
  "with_apc so = so\<lparr>so_include_apc := True\<rparr>"

section \<open>Receive policy\<close>

definition receive_policy_new :: receive_policy where
  "receive_policy_new =
     \<lparr>rp_required_options = [], rp_drop_all_option_bearing = False, rp_ocs_required = False\<rparr>"

definition is_required_reportable_kind :: "option_kind \<Rightarrow> bool" where
  "is_required_reportable_kind k \<longleftrightarrow> k = Apc \<or> k = Mds \<or> k = Mrds \<or> k = Req \<or> k = Res"

definition require_option :: "receive_policy \<Rightarrow> option_kind \<Rightarrow> (receive_policy, receive_policy_error) res" where
  "require_option rp k =
     (let k = from_byte (to_byte k) in
      if \<not> is_required_reportable_kind k then Err (UnsupportedRequiredOption (to_byte k))
      else if k \<notin> set (rp_required_options rp)
      then Ok (rp\<lparr>rp_required_options := rp_required_options rp @ [k]\<rparr>)
      else Ok rp)"

definition drop_all_option_bearing :: "receive_policy \<Rightarrow> bool \<Rightarrow> receive_policy" where
  "drop_all_option_bearing rp d = rp\<lparr>rp_drop_all_option_bearing := d\<rparr>"

definition require_ocs :: "receive_policy \<Rightarrow> bool \<Rightarrow> receive_policy" where
  "require_ocs rp r = rp\<lparr>rp_ocs_required := r\<rparr>"

definition peer_config_new :: "datagram_addrs \<Rightarrow> peer_config" where
  "peer_config_new addrs =
     \<lparr>pc_addrs = addrs, pc_send = send_config_default, pc_receive = receive_policy_new, pc_read_timeout = None\<rparr>"

section \<open>Validation\<close>

definition validate_send_config :: "send_config \<Rightarrow> (unit, send_error) res" where
  "validate_send_config config =
     (if max_datagram_len config > IPV4_DATAGRAM_LEN_MAX
      then Err (InvalidConfig ''max_datagram_len exceeds IPv4 Total Length'')
      else if max_datagram_len config < API_IPV4_HEADER_LEN + UDP_HEADER_LEN
      then Err (InvalidConfig ''max_datagram_len cannot fit IPv4 and UDP'')
      else Ok ())"

definition raw_options_contain_kind :: "raw_option list \<Rightarrow> byte \<Rightarrow> bool" where
  "raw_options_contain_kind opts k \<longleftrightarrow> (\<exists>opt \<in> set opts. to_byte (opt_kind opt) = k)"

definition is_high_level_unique_kind :: "byte \<Rightarrow> bool" where
  "is_high_level_unique_kind k \<longleftrightarrow>
     k = kind_APC \<or> k = kind_MDS \<or> k = kind_MRDS \<or> k = kind_REQ \<or> k = kind_RES"

text \<open>The loop of \<open>raw_options_contain_duplicate_reportable_kind\<close> with its array of seen Kinds.\<close>

fun duplicate_loop :: "(byte \<Rightarrow> bool) \<Rightarrow> raw_option list \<Rightarrow> bool" where
  "duplicate_loop seen [] = False"
| "duplicate_loop seen (opt # opts) =
     (let k = to_byte (opt_kind opt) in
      if \<not> is_high_level_unique_kind k then duplicate_loop seen opts
      else if seen k then True
      else duplicate_loop (seen(k := True)) opts)"

definition raw_options_contain_duplicate_reportable_kind :: "raw_option list \<Rightarrow> bool" where
  "raw_options_contain_duplicate_reportable_kind opts = duplicate_loop (\<lambda>_. False) opts"

definition validate_send_options :: "send_options \<Rightarrow> (unit, send_error) res" where
  "validate_send_options so =
     (if raw_options_contain_kind (so_raw_options so) kind_FRAG
      then Err (InvalidConfig ''high-level send options cannot include FRAG'')
      else if so_include_apc so \<and> raw_options_contain_kind (so_raw_options so) kind_APC
      then Err (InvalidConfig ''automatic APC cannot be combined with a raw APC option'')
      else if raw_options_contain_duplicate_reportable_kind (so_raw_options so)
      then Err (InvalidConfig ''high-level send options cannot include duplicate reportable options'')
      else Ok ())"

definition validate_low_level_options :: "bytes \<Rightarrow> raw_option list \<Rightarrow> (unit, send_error) res" where
  "validate_low_level_options payload opts =
     (if payload \<noteq> [] \<and> raw_options_contain_kind opts kind_FRAG
      then Err (InvalidConfig ''FRAG requires empty UDP user data'')
      else Ok ())"

definition fragment_surplus_budget :: "send_config \<Rightarrow> (usize, send_error) res" where
  "fragment_surplus_budget config =
     ok_or (InvalidConfig ''max_datagram_len cannot fit a UDP fragment'')
       (checked_sub (max_datagram_len config) (API_IPV4_HEADER_LEN + UDP_HEADER_LEN))"

section \<open>Building datagrams\<close>

definition datagram_len :: "usize \<Rightarrow> usize \<Rightarrow> usize option" where
  "datagram_len payload_len options_body_len =
     Option.bind (checked_add UDP_HEADER_LEN payload_len) (\<lambda>udp_len.
     Option.bind (checked_add API_IPV4_HEADER_LEN udp_len) (\<lambda>natural_start.
     if options_body_len = 0 then Some natural_start
     else
       let pad = (natural_start mod 2 = 1) in
       Option.bind (checked_add natural_start (of_bool pad)) (\<lambda>n. checked_add n options_body_len)))"

definition assemble_checked :: "datagram_addrs \<Rightarrow> bytes \<Rightarrow> bytes \<Rightarrow> usize \<Rightarrow> (bytes, send_error) res" where
  "assemble_checked addrs payload body max_len =
     and_then (ok_or (DatagramTooLarge usize_max max_len) (datagram_len (length payload) (length body))) (\<lambda>len.
     if len > max_len then Err (DatagramTooLarge len max_len)
     else if len > IPV4_DATAGRAM_LEN_MAX then Err (DatagramTooLarge len IPV4_DATAGRAM_LEN_MAX)
     else assemble_datagram (addr_src addrs) (addr_dst addrs) (addr_src_port addrs) (addr_dst_port addrs) payload body)"

definition raw_options_body :: "raw_option list \<Rightarrow> (bytes, send_error) res" where
  "raw_options_body opts =
     (if opts = [] then Ok [] else map_err SendSerialize (builder_finish (extend_raw builder_new opts)))"

definition options_body :: "(bytes \<Rightarrow> u32) \<Rightarrow> bytes \<Rightarrow> send_options \<Rightarrow> (bytes, send_error) res" where
  "options_body crc payload so =
     (if \<not> so_include_apc so \<and> so_raw_options so = [] then Ok []
      else
        let builder = builder_new;
            builder = (if so_include_apc so
                       then builder_push builder Apc (u32_to_be_bytes (crc32c (apc_compute crc payload)))
                       else builder)
        in map_err SendSerialize (builder_finish (extend_raw builder (so_raw_options so))))"

definition build_datagram :: "datagram_addrs \<Rightarrow> bytes \<Rightarrow> raw_option list \<Rightarrow> (bytes, send_error) res" where
  "build_datagram addrs payload opts =
     and_then (validate_low_level_options payload opts) (\<lambda>_.
     and_then (raw_options_body opts) (\<lambda>body.
     assemble_checked addrs payload body IPV4_DATAGRAM_LEN_MAX))"

text \<open>The closing \<open>collect\<close> over the fragments stops at the first error.\<close>

fun assemble_fragments :: "datagram_addrs \<Rightarrow> usize \<Rightarrow> fragment list \<Rightarrow> (bytes list, send_error) res" where
  "assemble_fragments addrs max_len [] = Ok []"
| "assemble_fragments addrs max_len (fr # frs) =
     and_then (assemble_checked addrs [] (fr_surplus_body fr) max_len) (\<lambda>d.
     and_then (assemble_fragments addrs max_len frs) (\<lambda>ds. Ok (d # ds)))"

definition build_outgoing_datagrams ::
  "(bytes \<Rightarrow> u32) \<Rightarrow> datagram_addrs \<Rightarrow> bytes \<Rightarrow> send_options \<Rightarrow> send_config \<Rightarrow> (bytes list, send_error) res" where
  "build_outgoing_datagrams crc addrs payload so config =
     and_then (validate_send_config config) (\<lambda>_.
     and_then (validate_send_options so) (\<lambda>_.
     and_then (options_body crc payload so) (\<lambda>body.
     and_then (ok_or (DatagramTooLarge usize_max (max_datagram_len config))
                (datagram_len (length payload) (length body))) (\<lambda>single_len.
     if single_len \<le> max_datagram_len config
     then and_then (assemble_checked addrs payload body (max_datagram_len config)) (\<lambda>d. Ok [d])
     else if fragmentation config = Disabled
     then Err (DatagramTooLarge single_len (max_datagram_len config))
     else
       and_then (ok_or FragmentIdentificationRequired (send_identification config)) (\<lambda>ident.
       and_then (fragment_surplus_budget config) (\<lambda>budget.
       and_then (map_err SendSplit (split_datagram payload body
                   \<lparr>max_fragment_surplus_len = budget, peer = send_peer config, split_identification = ident\<rparr>))
         (\<lambda>fragments. assemble_fragments addrs (max_datagram_len config) fragments)))))))"

definition take_peer_identification_generator ::
  "send_config \<Rightarrow> (byte \<times> byte \<times> byte \<times> byte, io_error) res
     \<Rightarrow> (identification_generator, socket_error) res \<times> send_config" where
  "take_peer_identification_generator config urandom =
     (case send_identification config of
        Some seed \<Rightarrow> Ok (generator_new seed)
      | None \<Rightarrow> map_err SocketIo (from_os_random urandom),
      config\<lparr>send_identification := None\<rparr>)"

definition build_peer_outgoing_datagrams ::
  "(bytes \<Rightarrow> u32) \<Rightarrow> datagram_addrs \<Rightarrow> bytes \<Rightarrow> send_options \<Rightarrow> send_config \<Rightarrow> identification_generator
     \<Rightarrow> (bytes list, send_error) res \<times> identification_generator" where
  "build_peer_outgoing_datagrams crc addrs payload so config g =
     (let result = build_outgoing_datagrams crc addrs payload so config in
      if result = Err FragmentIdentificationRequired
      then
        (case next_id g of
           (r, g) \<Rightarrow>
             (and_then (map_err SendSplit r) (\<lambda>ident.
              build_outgoing_datagrams crc addrs payload so (config\<lparr>send_identification := Some ident\<rparr>)), g))
      else (result, g))"

section \<open>Decoding\<close>

text \<open>The counter after \<open>fetch_add\<close> and the sample number to log, if any.\<close>

definition warn_policy_sampled :: "u64 \<Rightarrow> (u64 option, 'e) res \<times> u64" where
  "warn_policy_sampled counter =
     (if counter = - 1 then Panic
      else let sample = counter + 1 in
        Ok (if sample = 1 \<or> sample mod POLICY_WARN_SAMPLE_INTERVAL = 0 then Some sample else None),
      counter + 1)"

definition missing_required_option :: "receive_policy \<Rightarrow> option_report list \<Rightarrow> option_kind option" where
  "missing_required_option rp reports =
     List.find (\<lambda>required.
       (\<exists>r \<in> set reports. rep_kind r = required \<and> rep_status r = Failed \<and> rep_source r = FragmentSet)
       \<or> \<not> (\<exists>r \<in> set reports. rep_kind r = required \<and> rep_status r = Success)) (rp_required_options rp)"

definition ocs_requirement_satisfied :: "ocs_report list \<Rightarrow> bool" where
  "ocs_requirement_satisfied reports \<longleftrightarrow>
     \<not> (\<exists>r \<in> set reports. ocs_rep_status r \<in> {OcsFailed, OcsInvalidZero, OcsUnobserved})
     \<and> (\<exists>r \<in> set reports. ocs_rep_status r \<in> {OcsValid, OcsUnused})"

definition wire_option_bearing :: "bytes \<Rightarrow> (bool, recv_error) res" where
  "wire_option_bearing datagram =
     and_then (map_err RecvHeader (ip_parse datagram)) (\<lambda>(ip, udp_at).
     let ip_end = header_len ip + transport_payload_len ip in
     and_then (slice datagram udp_at ip_end) (\<lambda>rest.
     and_then (map_err RecvHeader (udp_parse rest)) (\<lambda>udp.
     let udp_len = unat (udp_length udp) in
     if udp_len > transport_payload_len ip
     then Err (UdpLengthExceedsIpPayload (udp_length udp) (transport_payload_len ip))
     else
       let user_data_at = udp_at + UDP_HEADER_LEN; surplus_start = udp_at + udp_len in
       and_then (slice datagram user_data_at surplus_start) (\<lambda>user_data.
       and_then
         (if udp_checksum udp \<noteq> 0 then
            and_then (compute_checksum (udp\<lparr>udp_checksum := 0\<rparr>) ip user_data) (\<lambda>expected.
            if expected \<noteq> udp_checksum udp then Err (UdpChecksumMismatch expected (udp_checksum udp))
            else Ok ())
          else Ok ()) (\<lambda>_.
       Ok (locate_surplus ip udp \<noteq> None))))))"

definition apply_policy :: "receive_policy \<Rightarrow> payload \<Rightarrow> api_delivery" where
  "apply_policy rp p =
     (if rp_drop_all_option_bearing rp \<and> pl_option_bearing p then Filtered
      else if missing_required_option rp (pl_reports p) \<noteq> None then Filtered
      else if rp_ocs_required rp \<and> \<not> ocs_requirement_satisfied (pl_ocs_reports p) then Filtered
      else Received \<lparr>rd_data = pl_data p, rd_options = pl_options p, rd_reports = pl_reports p,
                     rd_ocs_reports = pl_ocs_reports p\<rparr>)"

definition decode_datagram ::
  "(bytes \<Rightarrow> u32) \<Rightarrow> bytes \<Rightarrow> reassembly_cache \<Rightarrow> instant \<Rightarrow> receive_policy
     \<Rightarrow> (api_delivery, recv_error) res \<times> reassembly_cache" where
  "decode_datagram crc datagram c now rp =
     (case (if rp_drop_all_option_bearing rp then wire_option_bearing datagram else Ok False) of
        Panic \<Rightarrow> (Panic, c)
      | Err e \<Rightarrow> (Err e, c)
      | Ok True \<Rightarrow> (Ok Filtered, c)
      | Ok False \<Rightarrow>
          (case process_datagram crc datagram c now of
             (Panic, c) \<Rightarrow> (Panic, c)
           | (Err e, c) \<Rightarrow> (Err e, c)
           | (Ok (Payload p), c) \<Rightarrow> (Ok (apply_policy rp p), c)
           | (Ok Buffered, c) \<Rightarrow> (Ok ApiBuffered, c)
           | (Ok Dropped, c) \<Rightarrow> (Ok ApiDropped, c)))"

section \<open>Peers\<close>

record peer_state =
  ps_cache :: reassembly_cache
  ps_addrs :: datagram_addrs
  ps_send :: send_config
  ps_receive :: receive_policy
  ps_identifications :: identification_generator

text \<open>The first three arguments of \<open>peer_bind\<close> are the results of opening and configuring the sockets.\<close>

definition peer_bind ::
  "(unit, socket_error) res \<Rightarrow> (unit, socket_error) res \<Rightarrow> (unit, socket_error) res
     \<Rightarrow> (byte \<times> byte \<times> byte \<times> byte, io_error) res \<Rightarrow> peer_config \<Rightarrow> (peer_state, recv_error) res" where
  "peer_bind sender receiver read_timeout urandom config =
     and_then (map_err RecvSocket sender) (\<lambda>_.
     and_then (map_err RecvSocket receiver) (\<lambda>_.
     and_then (map_err RecvSocket read_timeout) (\<lambda>_.
     case take_peer_identification_generator (pc_send config) urandom of
       (r, send) \<Rightarrow>
         and_then (map_err RecvSocket r) (\<lambda>identifications.
         Ok \<lparr>ps_cache = cache_new, ps_addrs = pc_addrs config, ps_send = send, ps_receive = pc_receive config,
             ps_identifications = identifications\<rparr>))))"

text \<open>\<open>sock i d\<close> is the result of the \<open>i\<close>-th call of the socket's send, on the datagram \<open>d\<close>.\<close>

fun send_loop :: "(nat \<Rightarrow> bytes \<Rightarrow> (usize, socket_error) res) \<Rightarrow> nat \<Rightarrow> usize \<Rightarrow> bytes list \<Rightarrow> (usize, send_error) res" where
  "send_loop sock i sent [] = Ok sent"
| "send_loop sock i sent (d # ds) =
     and_then (map_err SendSocket (sock i d)) (\<lambda>n.
     and_then (ok_or (InvalidConfig ''sent byte count overflow'') (checked_add sent n)) (\<lambda>sent.
     send_loop sock (i + 1) sent ds))"

definition peer_send ::
  "(bytes \<Rightarrow> u32) \<Rightarrow> (nat \<Rightarrow> bytes \<Rightarrow> (usize, socket_error) res) \<Rightarrow> peer_state \<Rightarrow> bytes \<Rightarrow> send_options
     \<Rightarrow> (send_outcome, send_error) res \<times> peer_state" where
  "peer_send crc sock p payload so =
     (case build_peer_outgoing_datagrams crc (ps_addrs p) payload so (ps_send p) (ps_identifications p) of
        (r, g) \<Rightarrow>
          (and_then r (\<lambda>datagrams.
           and_then (send_loop sock 0 0 datagrams) (\<lambda>sent.
           Ok \<lparr>out_datagrams = length datagrams, out_bytes = sent\<rparr>)),
           p\<lparr>ps_identifications := g\<rparr>))"

text \<open>\<open>received\<close> is what the receive loop of the raw socket returned.\<close>

definition peer_recv ::
  "(bytes \<Rightarrow> u32) \<Rightarrow> peer_state \<Rightarrow> (bytes option, socket_error) res \<Rightarrow> instant
     \<Rightarrow> (received_datagram option, recv_error) res \<times> peer_state" where
  "peer_recv crc p received now =
     (case received of
        Panic \<Rightarrow> (Panic, p)
      | Err e \<Rightarrow> (Err (RecvSocket e), p)
      | Ok None \<Rightarrow> (Ok None, p)
      | Ok (Some datagram) \<Rightarrow>
          (case decode_datagram crc datagram (ps_cache p) now (ps_receive p) of
             (r, c) \<Rightarrow>
               (case r of
                  Panic \<Rightarrow> Panic
                | Err (RecvSocket e) \<Rightarrow> Err (RecvSocket e)
                | Err _ \<Rightarrow> Ok None
                | Ok (Received d) \<Rightarrow> Ok (Some d)
                | Ok _ \<Rightarrow> Ok None, p\<lparr>ps_cache := c\<rparr>)))"

definition peer_gc :: "peer_state \<Rightarrow> instant \<Rightarrow> peer_state" where
  "peer_gc p now = p\<lparr>ps_cache := cache_gc (ps_cache p) now\<rparr>"

section \<open>Sending: laws\<close>

lemmas api_limits = API_IPV4_HEADER_LEN_def UDP_HEADER_LEN_def IPV4_DATAGRAM_LEN_MAX_def

lemma datagram_len_eq:
  "datagram_len p b =
     (let n = 28 + p + (if b = 0 then 0 else of_bool (odd p) + b) in if n \<le> usize_max then Some n else None)"
  by (auto simp: datagram_len_def api_limits checked_add_def bind_eq_None_conv Let_def mod_2_odd)

lemma datagram_len_assembled:
  "datagram_len (length payload) (length body) =
     (if assembled_len payload body \<le> usize_max then Some (assembled_len payload body) else None)"
  by (simp add: datagram_len_eq assembled_len_def Let_def)

definition addressed :: "datagram_addrs \<Rightarrow> bytes \<Rightarrow> bytes \<Rightarrow> bytes" where
  "addressed addrs payload body =
     assembled (addr_src addrs) (addr_dst addrs) (addr_src_port addrs) (addr_dst_port addrs) payload body"

definition body_ok :: "bytes \<Rightarrow> bool" where
  "body_ok body \<longleftrightarrow> body = [] \<or> 2 \<le> length body"

lemma assemble_checked_eq:
  assumes "body_ok body"
  shows "assemble_checked addrs payload body max_len =
    (let n = assembled_len payload body in
     if n > usize_max then Err (DatagramTooLarge usize_max max_len)
     else if n > max_len then Err (DatagramTooLarge n max_len)
     else if n > u16_max then Err (DatagramTooLarge n u16_max)
     else Ok (addressed addrs payload body))"
  using assms u16_max_less_usize_max
  by (auto simp: assemble_checked_def datagram_len_assembled Let_def addressed_def body_ok_def
      IPV4_DATAGRAM_LEN_MAX_def assemble_datagram_eq)

lemma length_addressed: "body_ok body \<Longrightarrow> length (addressed addrs payload body) = assembled_len payload body"
  by (simp add: addressed_def length_assembled body_ok_def)

lemma duplicate_loop_iff:
  "duplicate_loop seen opts \<longleftrightarrow>
     (\<exists>k. is_high_level_unique_kind k \<and>
        count_list (map (\<lambda>opt. to_byte (opt_kind opt)) opts) k + of_bool (seen k) \<ge> 2)"
proof (induction opts arbitrary: seen)
  case Nil
  then show ?case by simp
next
  case (Cons opt opts)
  let ?k = "to_byte (opt_kind opt)"
  show ?case
  proof (cases "is_high_level_unique_kind ?k")
    case False
    then show ?thesis using Cons by (auto simp: Let_def)
  next
    case True
    show ?thesis
    proof (cases "seen ?k")
      case seen: True
      have "2 \<le> count_list (map (\<lambda>opt. to_byte (opt_kind opt)) (opt # opts)) ?k + of_bool (seen ?k)"
        using seen by simp
      then show ?thesis using True seen by (auto simp: Let_def simp del: count_list.simps)
    next
      case False
      then have eq: "count_list (map (\<lambda>opt. to_byte (opt_kind opt)) (opt # opts)) j + of_bool (seen j) =
          count_list (map (\<lambda>opt. to_byte (opt_kind opt)) opts) j + of_bool ((seen(?k := True)) j)" for j
        by auto
      have "duplicate_loop seen (opt # opts) = duplicate_loop (seen(?k := True)) opts"
        using True False by (simp add: Let_def)
      then show ?thesis by (simp only: eq Cons)
    qed
  qed
qed

lemma contains_duplicate_iff:
  "raw_options_contain_duplicate_reportable_kind opts \<longleftrightarrow>
     (\<exists>k. is_high_level_unique_kind k \<and> count_list (map (\<lambda>opt. to_byte (opt_kind opt)) opts) k \<ge> 2)"
  by (simp add: raw_options_contain_duplicate_reportable_kind_def duplicate_loop_iff)

lemma count_list_mset: "count_list xs x = count (mset xs) x"
  by (induction xs) auto

lemma distinct_iff_count: "distinct xs \<longleftrightarrow> (\<forall>x. count_list xs x < 2)"
proof -
  have "count_list xs x < 2 \<longleftrightarrow> count_list xs x = (if x \<in> set xs then 1 else 0)" for x
    using count_list_0_iff [of xs x] by (cases "x \<in> set xs") auto
  then show ?thesis by (simp add: distinct_count_atmost_1 count_list_mset)
qed

text \<open>The options of one send, in the order the serializer gets them.\<close>

definition sent_options :: "(bytes \<Rightarrow> u32) \<Rightarrow> bytes \<Rightarrow> send_options \<Rightarrow> raw_option list" where
  "sent_options crc payload so =
     (if so_include_apc so then [\<lparr>opt_kind = Apc, opt_value = u32_to_be_bytes (crc payload)\<rparr>] else [])
     @ so_raw_options so"

definition body_of :: "raw_option list \<Rightarrow> bytes" where
  "body_of opts = (if opts = [] then [] else canonical_body (written_options opts))"

lemma body_ok_body_of [simp]: "body_ok (body_of opts)"
  by (simp add: body_of_def body_ok_def canonical_body_def Let_def)

lemma options_body_Ok:
  assumes "options_body crc payload so = Ok body"
  shows "body = body_of (sent_options crc payload so)" and "valid_options (sent_options crc payload so)"
  using assms
  by (auto simp: options_body_def sent_options_def body_of_def builder_finish_Ok_iff Let_def builder_push_def
      extend_raw_def builder_new_def apc_compute_def valid_options_def frag_count_def split: if_splits)

lemma options_body_no_panic [panic_free]: "options_body crc payload so \<noteq> Panic"
  by (simp add: options_body_def Let_def builder_finish_no_panic)

lemma raw_options_body_Ok:
  "raw_options_body opts = Ok body \<Longrightarrow> body = body_of opts \<and> valid_options opts"
  by (auto simp: raw_options_body_def body_of_def builder_finish_Ok_iff extend_raw_def builder_new_def
      valid_options_def frag_count_def split: if_splits)

lemma raw_options_body_no_panic [panic_free]: "raw_options_body opts \<noteq> Panic"
  by (simp add: raw_options_body_def builder_finish_no_panic)

lemma build_datagram_Ok:
  assumes "build_datagram addrs payload opts = Ok d"
  shows "d = addressed addrs payload (body_of opts)" and "valid_options opts"
    and "assembled_len payload (body_of opts) \<le> u16_max"
    and "payload = [] \<or> \<not> raw_options_contain_kind opts kind_FRAG"
  using assms
  by (auto simp: build_datagram_def and_then_eq_Ok assemble_checked_eq Let_def IPV4_DATAGRAM_LEN_MAX_def
      validate_low_level_options_def dest!: raw_options_body_Ok split: if_splits)

lemma build_datagram_no_panic [panic_free]: "build_datagram addrs payload opts \<noteq> Panic"
  by (auto simp: build_datagram_def and_then_eq_Panic raw_options_body_no_panic assemble_checked_eq Let_def
      validate_low_level_options_def dest!: raw_options_body_Ok split: if_splits)

lemma fragment_body_ok:
  assumes "split_datagram payload body config = Ok frs" and "fr \<in> set frs"
  shows "body_ok (fr_surplus_body fr)" and "length (fr_surplus_body fr) \<le> max_fragment_surplus_len config"
proof -
  define tail where "tail = reassembled_tail payload body"
  obtain r ranges where sr: "split_ranges config (length tail) ranges"
    and frs: "frs = map (fragment_of tail (length ranges = 1) r (split_identification config)) ranges"
    using split_datagram_Ok [OF assms(1)] unfolding tail_def .
  then obtain a b t where rng: "(a, b, t) \<in> set ranges"
    and fr: "fr = fragment_of tail (length ranges = 1) r (split_identification config) (a, b, t)"
    using assms(2) by auto
  have m: "14 \<le> max_fragment_surplus_len config"
    and t: "tiles (max_fragment_surplus_len config - 14) (max_fragment_surplus_len config - 12) 0 (length tail) ranges"
    using sr by (auto simp: split_ranges_def)
  have "b - a \<le> max_fragment_surplus_len config - (if t then 14 else 12)" "b \<le> length tail"
    using tiles_bounds [OF t rng] by (auto split: if_splits)
  then show "length (fr_surplus_body fr) \<le> max_fragment_surplus_len config"
    using m by (auto simp: fr fragment_of_def Let_def split: if_splits)
  show "body_ok (fr_surplus_body fr)" by (auto simp: fr fragment_of_def Let_def body_ok_def)
qed

lemma assemble_fragments_Ok_iff:
  assumes "\<forall>fr \<in> set frs. body_ok (fr_surplus_body fr)"
  shows "assemble_fragments addrs max_len frs = Ok ds \<longleftrightarrow>
    ds = map (\<lambda>fr. addressed addrs [] (fr_surplus_body fr)) frs
    \<and> (\<forall>fr \<in> set frs. assembled_len [] (fr_surplus_body fr) \<le> min max_len u16_max)"
  using assms u16_max_less_usize_max
  by (induction frs arbitrary: ds) (auto simp: and_then_eq_Ok assemble_checked_eq Let_def split: if_splits)

lemma assemble_fragments_no_panic:
  "\<forall>fr \<in> set frs. body_ok (fr_surplus_body fr) \<Longrightarrow> assemble_fragments addrs max_len frs \<noteq> Panic"
  by (induction frs) (auto simp: and_then_eq_Panic assemble_checked_eq Let_def)

lemma validate_send_config_Ok_iff:
  "validate_send_config config = Ok () \<longleftrightarrow> 28 \<le> max_datagram_len config \<and> max_datagram_len config \<le> u16_max"
  by (auto simp: validate_send_config_def api_limits)

definition split_config_of :: "send_config \<Rightarrow> u32 \<Rightarrow> split_config" where
  "split_config_of config ident =
     \<lparr>max_fragment_surplus_len = max_datagram_len config - 28, peer = send_peer config, split_identification = ident\<rparr>"

text \<open>A send in one datagram, and a send in fragments.\<close>

lemma build_outgoing_Ok_cases:
  assumes "build_outgoing_datagrams crc addrs payload so config = Ok ds"
  obtains (single) body where "body = body_of (sent_options crc payload so)"
      "assembled_len payload body \<le> max_datagram_len config" "ds = [addressed addrs payload body]"
  | (fragments) body ident frs where "body = body_of (sent_options crc payload so)"
      "max_datagram_len config < assembled_len payload body" "fragmentation config = Auto"
      "send_identification config = Some ident"
      "split_datagram payload body (split_config_of config ident) = Ok frs"
      "ds = map (\<lambda>fr. addressed addrs [] (fr_surplus_body fr)) frs"
proof -
  obtain body where v: "28 \<le> max_datagram_len config" "max_datagram_len config \<le> u16_max"
    and b: "options_body crc payload so = Ok body" "assembled_len payload body \<le> usize_max"
    using assms
    by (auto simp: build_outgoing_datagrams_def and_then_eq_Ok validate_send_config_Ok_iff datagram_len_assembled
        split: if_splits)
  note body = options_body_Ok [OF b(1)]
  have ok: "body_ok body" using body by simp
  show thesis
  proof (cases "assembled_len payload body \<le> max_datagram_len config")
    case True
    then have "ds = [addressed addrs payload body]"
      using assms b v by (auto simp: build_outgoing_datagrams_def and_then_eq_Ok datagram_len_assembled
          assemble_checked_eq [OF ok] Let_def split: if_splits)
    with True body show thesis using single by blast
  next
    case False
    then obtain ident frs where f: "fragmentation config = Auto" "send_identification config = Some ident"
      "split_datagram payload body (split_config_of config ident) = Ok frs"
      "assemble_fragments addrs (max_datagram_len config) frs = Ok ds"
      using assms b v
      by (auto simp: build_outgoing_datagrams_def and_then_eq_Ok datagram_len_assembled split_config_of_def
          fragment_surplus_budget_def api_limits split: if_splits) (metis fragmentation_mode.exhaust)
    then have "\<forall>fr \<in> set frs. body_ok (fr_surplus_body fr)" using fragment_body_ok(1) by blast
    from f(4) [unfolded assemble_fragments_Ok_iff [OF this]] show thesis
      using fragments [OF body(1) _ f(1,2,3)] False by auto
  qed
qed

lemma build_outgoing_no_panic [panic_free]: "build_outgoing_datagrams crc addrs payload so config \<noteq> Panic"
proof -
  have "assemble_fragments addrs max_len frs \<noteq> Panic" if "split_datagram payload body c = Ok frs" for body c frs max_len
    using fragment_body_ok(1) [OF that] by (intro assemble_fragments_no_panic) blast
  moreover have "assemble_checked addrs payload body max_len \<noteq> Panic" if "options_body crc payload so = Ok body" for body max_len
    using options_body_Ok(1) [OF that] by (simp add: assemble_checked_eq Let_def)
  ultimately show ?thesis
    by (auto simp: build_outgoing_datagrams_def and_then_eq_Panic validate_send_config_def validate_send_options_def
        options_body_no_panic split_datagram_no_panic fragment_surplus_budget_def)
qed

lemma build_outgoing_lengths:
  assumes "build_outgoing_datagrams crc addrs payload so config = Ok ds" and "d \<in> set ds"
  shows "28 \<le> length d \<and> length d \<le> max_datagram_len config"
  using assms(1)
proof (cases rule: build_outgoing_Ok_cases)
  case (single body)
  then show ?thesis using assms(2) by (simp add: length_addressed) (simp add: assembled_len_def)
next
  case (fragments body ident frs)
  then obtain fr where fr: "fr \<in> set frs" "d = addressed addrs [] (fr_surplus_body fr)" using assms(2) by auto
  note ok = fragment_body_ok [OF fragments(5) fr(1)]
  have "14 \<le> max_datagram_len config - 28"
    using split_datagram_Ok [OF fragments(5)] by (auto simp: split_ranges_def split_config_of_def)
  then have "28 + length (fr_surplus_body fr) \<le> max_datagram_len config"
    using ok(2) by (simp add: split_config_of_def)
  then show ?thesis using ok(1) by (simp add: fr(2) length_addressed) (simp add: assembled_len_def)
qed

lemma build_peer_outgoing_identification:
  assumes "build_peer_outgoing_datagrams crc addrs payload so config g = (r, g')"
  shows "g' = g \<and> r = build_outgoing_datagrams crc addrs payload so config
       \<and> r \<noteq> Err FragmentIdentificationRequired
    \<or> build_outgoing_datagrams crc addrs payload so config = Err FragmentIdentificationRequired
       \<and> g' = snd (next_id g)
       \<and> r = (case fst (next_id g) of
                Ok ident \<Rightarrow> build_outgoing_datagrams crc addrs payload so (config\<lparr>send_identification := Some ident\<rparr>)
              | Err e \<Rightarrow> Err (SendSplit e)
              | Panic \<Rightarrow> Panic)"
  using assms
  by (auto simp: build_peer_outgoing_datagrams_def Let_def split: if_splits prod.splits res.splits)

section \<open>Receiving: laws\<close>

text \<open>The prefilter looks at the wire through the same checks as the pipeline.\<close>

lemma wire_option_bearing_eq:
  "wire_option_bearing d = and_then (recv_headers d) (\<lambda>h. Ok (locate_surplus (rh_ip h) (rh_udp h) \<noteq> None))"
proof (cases "ip_parse d")
  case (Ok p)
  obtain ip at where p: "p = (ip, at)" by (cases p)
  note ip = ip_parse_Ok_D [OF Ok [unfolded p]]
  have e: "header_len ip + transport_payload_len ip = unat (total_len ip)" and at: "at = header_len ip"
    using ip by (simp_all add: transport_payload_len_def header_len_def)
  have rest: "(slice d (header_len ip) (unat (total_len ip)) :: (_, recv_error) res) =
      Ok (drop (header_len ip) (take (unat (total_len ip)) d))"
    using ip by (simp add: drop_take)
  have "wire_option_bearing d =
    and_then (map_err RecvHeader (udp_parse (drop (header_len ip) (take (unat (total_len ip)) d)))) (\<lambda>udp.
    and_then (headers_tail ip d udp) (\<lambda>h. Ok (locate_surplus (rh_ip h) (rh_udp h) \<noteq> None)))"
  proof -
    have user: "(slice d (header_len ip + UDP_HEADER_LEN) (header_len ip + unat (udp_length udp)) :: (_, recv_error) res) =
        Ok (take (unat (udp_length udp) - 8) (drop (header_len ip + 8) d))"
      if "8 \<le> unat (udp_length udp)" "\<not> transport_payload_len ip < unat (udp_length udp)" for udp
    proof -
      have "header_len ip + unat (udp_length udp) \<le> length d" using that(2) e ip(4) by linarith
      then show ?thesis using that(1) by (simp add: UDP_HEADER_LEN_def)
    qed
    show ?thesis
      unfolding wire_option_bearing_def Ok p at
      using ip
      by (auto simp: Let_def e rest headers_tail_def udp_parse_Ok_iff user and_then_assoc intro!: and_then_cong [OF refl])
  qed
  then show ?thesis by (simp add: recv_headers_eq [OF Ok [unfolded p]] and_then_assoc)
qed (simp_all add: wire_option_bearing_def recv_headers_def)

lemma decode_datagram_eq:
  "decode_datagram crc d c now rp =
     (case recv_headers d of
        Ok h \<Rightarrow>
          if rp_drop_all_option_bearing rp \<and> locate_surplus (rh_ip h) (rh_udp h) \<noteq> None then (Ok Filtered, c)
          else
            (case process_datagram crc d c now of
               (Panic, c) \<Rightarrow> (Panic, c)
             | (Err e, c) \<Rightarrow> (Err e, c)
             | (Ok (Payload p), c) \<Rightarrow> (Ok (apply_policy rp p), c)
             | (Ok Buffered, c) \<Rightarrow> (Ok ApiBuffered, c)
             | (Ok Dropped, c) \<Rightarrow> (Ok ApiDropped, c))
      | Err e \<Rightarrow> (Err e, c)
      | Panic \<Rightarrow> (Panic, c))"
proof (cases "recv_headers d")
  case (Err e)
  then have "process_once crc d c now True = (Err e, c)" by (simp add: process_once_def)
  then have "process_datagram crc d c now = (Err e, c)" by (simp add: process_datagram_unfold)
  with Err show ?thesis by (simp add: decode_datagram_def wire_option_bearing_eq)
qed (auto simp: decode_datagram_def wire_option_bearing_eq recv_headers_no_panic)

lemma decode_datagram_total: "fst (decode_datagram crc d c now rp) \<noteq> Panic"
  using process_inner_total [of crc d c now True]
  by (auto simp: decode_datagram_eq recv_headers_no_panic process_datagram_def split: res.split prod.split delivery.split)

lemma decode_datagram_Err_iff: "fst (decode_datagram crc d c now rp) = Err e \<longleftrightarrow> recv_headers d = Err e"
  using process_datagram_Err_iff [of crc d c now e]
  by (auto simp: decode_datagram_eq split: res.splits prod.split delivery.split)

lemma decode_datagram_inv:
  assumes "cache_inv c" and "decode_datagram crc d c now rp = (r, c')"
  shows "cache_inv c' \<and> cache_limits c' = cache_limits c"
proof -
  have "c' = c \<or> c' = snd (process_datagram crc d c now)"
    using assms(2) by (auto simp: decode_datagram_eq split: res.splits prod.splits delivery.splits if_splits)
  then show ?thesis using assms(1) process_datagram_inv [OF assms(1)] by (metis prod.collapse)
qed

lemma missing_required_option_None:
  "missing_required_option rp reports = None \<longleftrightarrow>
     (\<forall>k \<in> set (rp_required_options rp).
        (\<exists>r \<in> set reports. rep_kind r = k \<and> rep_status r = Success)
        \<and> \<not> (\<exists>r \<in> set reports. rep_kind r = k \<and> rep_status r = Failed \<and> rep_source r = FragmentSet))"
  by (auto simp: missing_required_option_def find_None_iff)

lemma apply_policy_Received:
  "apply_policy rp p = Received rd \<longleftrightarrow>
     \<not> (rp_drop_all_option_bearing rp \<and> pl_option_bearing p)
     \<and> missing_required_option rp (pl_reports p) = None
     \<and> (rp_ocs_required rp \<longrightarrow> ocs_requirement_satisfied (pl_ocs_reports p))
     \<and> rd = \<lparr>rd_data = pl_data p, rd_options = pl_options p, rd_reports = pl_reports p, rd_ocs_reports = pl_ocs_reports p\<rparr>"
  by (auto simp: apply_policy_def)

lemma decode_datagram_Received:
  assumes "decode_datagram crc d c now rp = (Ok (Received rd), c')"
  obtains p where "process_datagram crc d c now = (Ok (Payload p), c')" "apply_policy rp p = Received rd"
  using assms by (auto simp: decode_datagram_eq split: res.splits prod.splits delivery.splits if_splits)

section \<open>Runs of a peer\<close>

text \<open>What a peer does over its life: sends, received datagrams and garbage collections, in any order.\<close>

inductive peer_run :: "(bytes \<Rightarrow> u32) \<Rightarrow> peer_state \<Rightarrow> peer_state \<Rightarrow> bool" for crc where
  peer_run_refl: "peer_run crc p p"
| peer_run_send: "peer_run crc p q \<Longrightarrow> peer_run crc p (snd (peer_send crc sock q payload so))"
| peer_run_recv: "peer_run crc p q \<Longrightarrow> peer_run crc p (snd (peer_recv crc q received now))"
| peer_run_gc: "peer_run crc p q \<Longrightarrow> peer_run crc p (peer_gc q now)"

lemma peer_send_state:
  "snd (peer_send crc sock p payload so) =
     p\<lparr>ps_identifications :=
        snd (build_peer_outgoing_datagrams crc (ps_addrs p) payload so (ps_send p) (ps_identifications p))\<rparr>"
  by (auto simp: peer_send_def split: prod.split)

lemma peer_recv_state:
  "snd (peer_recv crc p received now) = p
   \<or> (\<exists>d. snd (peer_recv crc p received now) =
         p\<lparr>ps_cache := snd (decode_datagram crc d (ps_cache p) now (ps_receive p))\<rparr>)"
  by (auto simp: peer_recv_def split: res.split option.split prod.split) (metis snd_conv)

lemma peer_run_inv:
  assumes "peer_run crc p q" and "cache_inv (ps_cache p)"
  shows "cache_inv (ps_cache q) \<and> cache_limits (ps_cache q) = cache_limits (ps_cache p)
    \<and> ps_addrs q = ps_addrs p \<and> ps_receive q = ps_receive p \<and> ps_send q = ps_send p"
  using assms
proof (induction rule: peer_run.induct)
  case (peer_run_send p q sock payload so)
  then show ?case by (simp add: peer_send_state)
next
  case (peer_run_recv p q received now)
  consider "snd (peer_recv crc q received now) = q"
    | d where "snd (peer_recv crc q received now) =
        q\<lparr>ps_cache := snd (decode_datagram crc d (ps_cache q) now (ps_receive q))\<rparr>"
    using peer_recv_state by blast
  then show ?case
  proof cases
    case (2 d)
    have "cache_inv (snd (decode_datagram crc d (ps_cache q) now (ps_receive q)))
      \<and> cache_limits (snd (decode_datagram crc d (ps_cache q) now (ps_receive q))) = cache_limits (ps_cache q)"
      using peer_run_recv decode_datagram_inv by (metis prod.collapse)
    then show ?thesis using peer_run_recv 2 by simp
  qed (use peer_run_recv in simp)
next
  case (peer_run_gc p q now)
  then show ?case by (simp add: peer_gc_def cache_inv_gc)
qed simp

section \<open>Admissible sends\<close>

text \<open>
  What may be sent: a maximal length that an IPv4 datagram with a UDP header can have, options other than
  FRAG (Kind 3), each supported Kind (2, 4, 5, 6, 7) at most once, an automatic APC included, all of them
  valid for the serializer, in a body that fits the 16-bit length field.
\<close>

definition send_admissible :: "(bytes \<Rightarrow> u32) \<Rightarrow> bytes \<Rightarrow> send_options \<Rightarrow> send_config \<Rightarrow> bool" where
  "send_admissible crc payload so config \<longleftrightarrow>
     (let opts = sent_options crc payload so; kinds = map (\<lambda>opt. to_byte (opt_kind opt)) opts in
      28 \<le> max_datagram_len config \<and> max_datagram_len config \<le> 65535
      \<and> 3 \<notin> set kinds \<and> distinct (filter (\<lambda>k. k \<in> {2, 4, 5, 6, 7}) kinds)
      \<and> valid_options opts \<and> 8 + length (body_of opts) \<le> 65535)"

lemma distinct_unique_iff:
  "distinct (filter (\<lambda>k. k \<in> {2, 4, 5, 6, 7}) ks) \<longleftrightarrow> \<not> (\<exists>k. is_high_level_unique_kind k \<and> count_list ks k \<ge> 2)"
proof -
  have "count_list (filter (\<lambda>k. k \<in> {2, 4, 5, 6, 7}) ks) k = (if is_high_level_unique_kind k then count_list ks k else 0)" for k
    by (auto simp: count_list_mset mset_filter is_high_level_unique_kind_def kind_defs)
  then show ?thesis by (auto simp: distinct_iff_count not_le)
qed

lemma validate_send_options_iff:
  "validate_send_options so = Ok () \<longleftrightarrow>
     (let kinds = map (\<lambda>opt. to_byte (opt_kind opt)) (sent_options crc payload so) in
      3 \<notin> set kinds \<and> distinct (filter (\<lambda>k. k \<in> {2, 4, 5, 6, 7}) kinds))"
proof -
  let ?ks = "map (\<lambda>opt. to_byte (opt_kind opt)) (so_raw_options so)"
  have "validate_send_options so = Ok () \<longleftrightarrow>
      3 \<notin> set ?ks \<and> \<not> (so_include_apc so \<and> 2 \<in> set ?ks) \<and> distinct (filter (\<lambda>k. k \<in> {2, 4, 5, 6, 7}) ?ks)"
    unfolding distinct_unique_iff
    by (auto simp: validate_send_options_def contains_duplicate_iff raw_options_contain_kind_def kind_APC_def kind_FRAG_def image_iff)
  then show ?thesis by (auto simp: sent_options_def Let_def kind_APC_def)
qed

lemma send_admissible_iff:
  "send_admissible crc payload so config \<longleftrightarrow>
     validate_send_config config = Ok () \<and> validate_send_options so = Ok () \<and> valid_options (sent_options crc payload so)
     \<and> 8 + length (body_of (sent_options crc payload so)) \<le> u16_max"
  by (auto simp: send_admissible_def validate_send_config_Ok_iff validate_send_options_iff [of so crc payload] u16_max_def Let_def)

lemma options_body_fits:
  assumes "valid_options (sent_options crc payload so)" and "8 + length (body_of (sent_options crc payload so)) \<le> u16_max"
  shows "options_body crc payload so = Ok (body_of (sent_options crc payload so))"
proof -
  let ?s = "sent_options crc payload so"
  have "length (canonical_body (written_options ?s)) = length (canonical_body (sort_canonical ?s))"
    using assms(1) by (simp add: written_options_def Let_def length_canonical_body_patched valid_options_def)
  then have "builder_finish \<lparr>b_options = ?s\<rparr> = Ok (body_of ?s)" if "?s \<noteq> []"
    using assms that by (simp add: builder_finish_Ok_iff body_of_def)
  then show ?thesis
    by (auto simp: options_body_def sent_options_def Let_def builder_push_def extend_raw_def builder_new_def
        apc_compute_def body_of_def)
qed

lemma options_body_len:
  assumes "options_body crc payload so = Ok body"
  shows "8 + length body \<le> u16_max"
proof (cases "body = []")
  case False
  then obtain b where "builder_finish b = Ok body"
    using assms by (auto simp: options_body_def Let_def split: if_splits)
  then show ?thesis
    by (auto simp: builder_finish_Ok_iff written_options_def Let_def length_canonical_body_patched valid_options_def)
qed (simp add: u16_max_def)

lemma build_outgoing_single:
  assumes "validate_send_config config = Ok ()" and "validate_send_options so = Ok ()"
    and "valid_options (sent_options crc payload so)"
    and "assembled_len payload (body_of (sent_options crc payload so)) \<le> max_datagram_len config"
  shows "build_outgoing_datagrams crc addrs payload so config =
    Ok [addressed addrs payload (body_of (sent_options crc payload so))]"
proof -
  let ?b = "body_of (sent_options crc payload so)"
  have "max_datagram_len config \<le> u16_max" using assms(1) by (simp add: validate_send_config_Ok_iff)
  then have n: "assembled_len payload ?b \<le> u16_max" "assembled_len payload ?b \<le> usize_max"
    using assms(4) u16_max_less_usize_max by linarith+
  then have "8 + length ?b \<le> u16_max" by (auto simp: assembled_len_def split: if_splits)
  then show ?thesis
    using assms n by (simp add: build_outgoing_datagrams_def options_body_fits datagram_len_assembled
        assemble_checked_eq Let_def)
qed

lemma build_outgoing_fragments:
  assumes "validate_send_config config = Ok ()" and "validate_send_options so = Ok ()"
    and "valid_options (sent_options crc payload so)" and "8 + length (body_of (sent_options crc payload so)) \<le> u16_max"
    and "max_datagram_len config < assembled_len payload (body_of (sent_options crc payload so))"
    and "fragmentation config = Auto" and "send_identification config = Some ident"
    and split: "split_datagram payload (body_of (sent_options crc payload so)) (split_config_of config ident) = Ok frs"
  shows "build_outgoing_datagrams crc addrs payload so config =
    Ok (map (\<lambda>fr. addressed addrs [] (fr_surplus_body fr)) frs)"
proof -
  let ?b = "body_of (sent_options crc payload so)" and ?m = "max_datagram_len config"
  have m: "28 \<le> ?m" "?m \<le> u16_max" using assms(1) by (simp_all add: validate_send_config_Ok_iff)
  have "8 + length (reassembled_tail payload ?b) \<le> u16_max"
    using split_datagram_Ok_fits(1) [OF split] order_trans [OF _ unat_u16_le_max] by (auto simp: split_fits_def Let_def)
  then have "length payload \<le> 65535" by (simp add: reassembled_tail_def Let_def u16_max_def)
  then have n: "assembled_len payload ?b \<le> usize_max"
    using assms(4) by (auto simp: assembled_len_def u16_max_def usize_max_def)
  have ok: "\<forall>fr \<in> set frs. body_ok (fr_surplus_body fr)" using fragment_body_ok(1) [OF split] by blast
  moreover have "assembled_len [] (fr_surplus_body fr) \<le> min ?m u16_max" if "fr \<in> set frs" for fr
    using fragment_body_ok(2) [OF split that] m by (auto simp: assembled_len_def split_config_of_def)
  ultimately have "assemble_fragments addrs ?m frs = Ok (map (\<lambda>fr. addressed addrs [] (fr_surplus_body fr)) frs)"
    using assemble_fragments_Ok_iff by blast
  then show ?thesis
    using assms m n by (simp add: build_outgoing_datagrams_def options_body_fits datagram_len_assembled
        fragment_surplus_budget_def api_limits split_config_of_def checked_sub_def)
qed

text \<open>
  C12: A send never panics. It yields datagrams exactly when it is admissible and either the datagram fits the
  configured length or fragmentation is enabled, an identification is at hand and the datagram can be split.
\<close>

theorem build_outgoing_outcome:
  "build_outgoing_datagrams crc addrs payload so config \<noteq> Panic
   \<and> ((\<exists>ds. build_outgoing_datagrams crc addrs payload so config = Ok ds) \<longleftrightarrow>
      (let opts = sent_options crc payload so; body = body_of opts in
       send_admissible crc payload so config
       \<and> (assembled_len payload body \<le> max_datagram_len config
          \<or> fragmentation config = Auto
            \<and> (\<exists>ident. send_identification config = Some ident \<and> split_fits payload body (split_config_of config ident)))))"
  (is "_ \<and> (?ok \<longleftrightarrow> ?fits)")
proof -
  let ?s = "sent_options crc payload so"
  have ?fits if ds: "build_outgoing_datagrams crc addrs payload so config = Ok ds" for ds
  proof -
    from ds obtain body where o: "validate_send_config config = Ok ()" "validate_send_options so = Ok ()"
      "options_body crc payload so = Ok body"
      by (auto simp: build_outgoing_datagrams_def and_then_eq_Ok)
    note s = options_body_Ok [OF o(3)]
    have "8 + length (body_of ?s) \<le> u16_max" using options_body_len [OF o(3)] s(1) by simp
    moreover from ds have "assembled_len payload (body_of ?s) \<le> max_datagram_len config
        \<or> fragmentation config = Auto
          \<and> (\<exists>ident. send_identification config = Some ident \<and> split_fits payload (body_of ?s) (split_config_of config ident))"
      by (cases rule: build_outgoing_Ok_cases) (auto dest: split_datagram_Ok_fits(1))
    ultimately show ?thesis using o s(2) by (simp add: send_admissible_iff Let_def)
  qed
  moreover have ?ok if ?fits
    using that build_outgoing_single [of config so crc payload addrs] build_outgoing_fragments [of config so crc payload]
      split_datagram_fits
    by (simp add: send_admissible_iff Let_def) (metis leI)
  ultimately show ?thesis using build_outgoing_no_panic by blast
qed

lemma raw_options_body_fits:
  assumes "valid_options opts" and "8 + length (body_of opts) \<le> u16_max"
  shows "raw_options_body opts = Ok (body_of opts)"
  using options_body_fits [of "\<lambda>_. 0" "[]" "\<lparr>so_raw_options = opts, so_include_apc = False\<rparr>"] assms
  by (auto simp: raw_options_body_def options_body_def sent_options_def Let_def)

lemma send_checks_errors:
  "options_body crc payload so \<noteq> Err FragmentIdentificationRequired"
  "validate_send_config config \<noteq> Err FragmentIdentificationRequired"
  "validate_send_options so \<noteq> Err FragmentIdentificationRequired"
  by (auto simp: options_body_def validate_send_config_def validate_send_options_def Let_def map_err_eq_Err)

lemma identification_required:
  assumes "build_outgoing_datagrams crc addrs payload so config = Err FragmentIdentificationRequired"
  shows "send_identification config = None"
    and "max_datagram_len config < assembled_len payload (body_of (sent_options crc payload so))"
proof -
  have frs: "assemble_fragments addrs m frs \<noteq> Err FragmentIdentificationRequired"
    if "split_datagram payload body c = Ok frs" for m frs body c
  proof -
    have "\<forall>fr \<in> set frs. body_ok (fr_surplus_body fr)" using fragment_body_ok(1) [OF that] by blast
    then show ?thesis by (induction frs) (auto simp: and_then_eq_Err assemble_checked_eq Let_def)
  qed
  obtain body where b: "options_body crc payload so = Ok body"
    using assms send_checks_errors by (cases "options_body crc payload so") (auto simp: build_outgoing_datagrams_def and_then_eq_Err)
  then have body: "body = body_of (sent_options crc payload so)" by (rule options_body_Ok)
  then have c: "assemble_checked addrs payload body m \<noteq> Err FragmentIdentificationRequired" for m
    by (auto simp: assemble_checked_eq Let_def)
  from assms send_checks_errors b have n: "max_datagram_len config < assembled_len payload body" and i: "send_identification config = None"
    using c frs
    by (auto simp: build_outgoing_datagrams_def and_then_eq_Err datagram_len_assembled fragment_surplus_budget_def
        ok_or_def map_err_eq_Err split: if_splits option.splits)
  show "send_identification config = None" by (rule i)
  show "max_datagram_len config < assembled_len payload (body_of (sent_options crc payload so))" using n body by simp
qed

text \<open>An identification is asked for exactly when a datagram must be fragmented and none is given.\<close>

lemma identification_required_iff:
  "build_outgoing_datagrams crc addrs payload so config = Err FragmentIdentificationRequired \<longleftrightarrow>
     (let n = assembled_len payload (body_of (sent_options crc payload so)) in
      send_admissible crc payload so config \<and> max_datagram_len config < n \<and> n \<le> usize_max
      \<and> fragmentation config = Auto \<and> send_identification config = None)" (is "?required \<longleftrightarrow> ?needed")
proof
  let ?b = "body_of (sent_options crc payload so)"
  assume r: ?required
  note i = identification_required [OF r]
  obtain body where o: "validate_send_config config = Ok ()" "validate_send_options so = Ok ()" "options_body crc payload so = Ok body"
    using r send_checks_errors by (auto simp: build_outgoing_datagrams_def and_then_eq_Err)
  note b = options_body_Ok [OF o(3)] and l = options_body_len [OF o(3)]
  have "fragmentation config = Auto \<and> assembled_len payload ?b \<le> usize_max"
    using r o i(2) b(1)
    by (cases "fragmentation config") (auto simp: build_outgoing_datagrams_def datagram_len_assembled ok_or_def split: if_splits)
  then show ?needed using o b l i by (simp add: send_admissible_iff Let_def)
next
  assume ?needed
  then show ?required
    by (auto simp: build_outgoing_datagrams_def send_admissible_iff options_body_fits datagram_len_assembled ok_or_def Let_def)
qed

text \<open>The generator of identifications only moves forward.\<close>

definition id_bound :: "identification_generator \<Rightarrow> nat" where
  "id_bound g = (case next_value g of None \<Rightarrow> 2 ^ 32 | Some n \<Rightarrow> unat n)"

lemma id_bound_next: "id_bound g \<le> id_bound (snd (next_id g))"
proof -
  have "unat n \<le> unat (n + 1)" if "n \<noteq> - 1" for n :: u32
    using that unatSuc [of n] by (simp add: add.commute add_eq_0_iff)
  moreover have "unat n < 2 ^ LENGTH(32)" for n :: u32 by (rule unsigned_less)
  then have "unat n \<le> 2 ^ 32" for n :: u32 by (simp add: less_imp_le)
  ultimately show ?thesis by (auto simp: id_bound_def next_id_def u32_checked_succ_def split: option.split)
qed

lemma id_bound_send:
  "id_bound (ps_identifications p) \<le> id_bound (ps_identifications (snd (peer_send crc sock p payload so)))"
proof -
  obtain r g where "build_peer_outgoing_datagrams crc (ps_addrs p) payload so (ps_send p) (ps_identifications p) = (r, g)"
    by force
  with build_peer_outgoing_identification [OF this] id_bound_next show ?thesis
    by (auto simp: peer_send_state)
qed

lemma peer_run_ids: "peer_run crc p q \<Longrightarrow> id_bound (ps_identifications p) \<le> id_bound (ps_identifications q)"
proof (induction rule: peer_run.induct)
  case (peer_run_send p q sock payload so)
  then show ?case using id_bound_send order_trans by blast
next
  case (peer_run_recv p q received now)
  then show ?case using peer_recv_state [of crc q received now] by auto
qed (simp_all add: peer_gc_def)

end
