(* ===== verification/Option_Delivery.thy ===== *)
theory Option_Delivery
  imports Recv_Options
begin

text \<open>
  What the receive side makes of options that the serializer wrote: every option of a valid set is
  reported once and in order, the supported ones are handed over unchanged, an APC option exactly when
  its CRC32C matches the user data. A fragment's own FRAG option is read back as the FRAG value, and
  the fragment data behind it is never parsed as options.
\<close>

section \<open>Options of a datagram\<close>

definition reportable :: "option_kind \<Rightarrow> bool" where
  "reportable k \<longleftrightarrow> k = Apc \<or> k = Mds \<or> k = Mrds \<or> k = Req \<or> k = Res"

text \<open>An option as it is parsed back: its Kind is the canonical one of its Kind byte.\<close>

definition canonical :: "raw_option \<Rightarrow> raw_option" where
  "canonical opt = opt\<lparr>opt_kind := from_byte (to_byte (opt_kind opt))\<rparr>"

definition delivered_status :: "(bytes \<Rightarrow> u32) \<Rightarrow> bytes \<Rightarrow> raw_option \<Rightarrow> option_status" where
  "delivered_status crc user_data opt =
     (let k = opt_kind (canonical opt) in
      if k = Apc then (if opt_value opt = u32_to_be_bytes (crc user_data) then Success else Failed)
      else if reportable k then Success
      else Ignored)"

definition delivered_reports :: "(bytes \<Rightarrow> u32) \<Rightarrow> bytes \<Rightarrow> raw_option list \<Rightarrow> option_report list" where
  "delivered_reports crc user_data opts =
     map (\<lambda>opt. report (opt_kind (canonical opt)) (delivered_status crc user_data opt)) opts"

definition delivered_options :: "(bytes \<Rightarrow> u32) \<Rightarrow> bytes \<Rightarrow> raw_option list \<Rightarrow> raw_option list" where
  "delivered_options crc user_data opts =
     map canonical (filter (\<lambda>opt. delivered_status crc user_data opt = Success) opts)"

definition plain_option :: "raw_option \<Rightarrow> bool" where
  "plain_option opt \<longleftrightarrow> valid_option opt \<and> to_byte (opt_kind opt) \<noteq> kind_FRAG"

text \<open>The Kind bytes of the supported options among \<open>opts\<close>; a sender uses each at most once.\<close>

definition reportable_bytes :: "raw_option list \<Rightarrow> byte list" where
  "reportable_bytes opts = filter (\<lambda>b. reportable (from_byte b)) (map (\<lambda>opt. to_byte (opt_kind opt)) opts)"

lemma reportable_from_byte:
  "reportable (from_byte b) \<longleftrightarrow> b = kind_APC \<or> b = kind_MDS \<or> b = kind_MRDS \<or> b = kind_REQ \<or> b = kind_RES"
  by (simp add: reportable_def from_byte_named)

lemma valid_option_reject:
  assumes "valid_option opt"
  shows "reject_sub_minimum \<lparr>ref_kind = from_byte (to_byte (opt_kind opt)), ref_value = opt_value opt, ref_at = a\<rparr> = Ok ()"
proof -
  let ?b = "to_byte (opt_kind opt)"
  have "?b \<noteq> kind_TIME" "?b \<noteq> kind_EXP" "fixed_value_lens ?b = [] \<or> length (opt_value opt) \<in> set (fixed_value_lens ?b)"
    using assms by (auto simp: valid_option_def is_out_of_scope_assigned_safe_kind_def Let_def)
  then show ?thesis
    by (auto simp: reject_sub_minimum_def minimum_known_tlv_len_def fixed_tlv_lengths_def fixed_length_tables
        fixed_value_lens_def FRAG_VALUE_LENS_def length_defs kind_defs PIPELINE_TLV_HEADER_LEN_def Let_def
        split: if_splits)
qed

definition observe :: "(bytes \<Rightarrow> u32) \<Rightarrow> bytes \<Rightarrow> parse_state \<Rightarrow> raw_option \<Rightarrow> parse_state" where
  "observe crc user_data st opt =
     st\<lparr>ps_seen := (\<lambda>b. ps_seen st b \<or> b \<in> set (reportable_bytes [opt])),
        ps_reports := ps_reports st @ delivered_reports crc user_data [opt],
        ps_options := ps_options st @ delivered_options crc user_data [opt]\<rparr>"

lemma valid_reportable_length:
  "valid_option opt \<Longrightarrow> fixed_value_lens (to_byte (opt_kind opt)) \<noteq> [] \<Longrightarrow>
     length (opt_value opt) \<in> set (fixed_value_lens (to_byte (opt_kind opt)))"
  by (auto simp: valid_option_def Let_def)

lemma checked_option_Ok:
  assumes "decoded = Ok t" and "\<not> ps_seen st (to_byte (opt_kind opt))"
    and "from_byte (to_byte (opt_kind opt)) = k" and "reportable k" and "k \<noteq> Apc"
  shows "checked_option st \<lparr>ref_kind = k, ref_value = opt_value opt, ref_at = a\<rparr> decoded =
    Continue (observe crc user_data st opt)"
  using assms
  by (auto simp: checked_option_def mark_seen_once_def observe_def delivered_reports_def delivered_options_def
      delivered_status_def canonical_def raw_from_ref_def reportable_bytes_def Let_def fun_eq_iff)

lemma apc_option_Ok:
  assumes "length (opt_value opt) = 4" and "\<not> ps_seen st (to_byte (opt_kind opt))"
    and "from_byte (to_byte (opt_kind opt)) = Apc"
  shows "apc_option crc False user_data st \<lparr>ref_kind = Apc, ref_value = opt_value opt, ref_at = a\<rparr> =
    Continue (observe crc user_data st opt)"
proof -
  obtain x where x: "apc_decode (opt_value opt) = Ok x"
    using apc_opt.decode_good [of "opt_value opt"] assms(1) by (auto simp: fixed_value_lens_simps)
  have iff: "x = apc_compute crc user_data \<longleftrightarrow> opt_value opt = u32_to_be_bytes (crc user_data)"
    using apc_opt.decode_Ok_iff [of "opt_value opt" x] apc_opt.decode_Ok_iff [of "opt_value opt" "apc_compute crc user_data"]
      x by (auto simp: apc_compute_def)
  have seen: "(ps_seen st)(to_byte (opt_kind opt) := True) = (\<lambda>b. ps_seen st b \<or> b \<in> set (reportable_bytes [opt]))"
    using assms(3) by (auto simp: reportable_bytes_def reportable_def)
  have kb: "to_byte (opt_kind opt) = kind_APC" using assms(3) by (simp add: from_byte_named)
  have canon: "canonical opt = \<lparr>opt_kind = Apc, opt_value = opt_value opt\<rparr>"
    using assms(3) by (cases opt) (simp add: canonical_def)
  have new: "\<not> ps_seen st kind_APC" using assms(2) kb by simp
  show ?thesis
    using seen
    by (auto simp: kb new canon Let_def apc_option_def accepts_apc_def x iff mark_seen_once_def observe_def
        delivered_reports_def delivered_options_def delivered_status_def raw_from_ref_def)
qed

lemma parse_step_plain:
  assumes "plain_option opt" and "\<forall>b \<in> set (reportable_bytes [opt]). \<not> ps_seen st b"
  shows "parse_step crc False user_data st (option_item off opt) = Continue (observe crc user_data st opt)"
proof -
  let ?b = "to_byte (opt_kind opt)"
  let ?r = "\<lparr>ref_kind = from_byte ?b, ref_value = opt_value opt,
             ref_at = Some (off + (if length (opt_value opt) \<le> 252 then 2 else 4))\<rparr>"
  have v: "valid_option opt" "?b \<noteq> kind_FRAG" using assms(1) by (simp_all add: plain_option_def)
  have item: "option_item off opt = Inr ?r" by (simp add: option_item_def)
  note len = valid_reportable_length [OF v(1)]
  show ?thesis
  proof (cases "reportable (from_byte ?b)")
    case True
    then have new: "\<not> ps_seen st ?b" using assms(2) by (simp add: reportable_bytes_def)
    have dec: "from_byte ?b = Mds \<Longrightarrow> \<exists>t. mds_decode (opt_value opt) = Ok t"
      "from_byte ?b = Mrds \<Longrightarrow> \<exists>t. mrds_decode (opt_value opt) = Ok t"
      "from_byte ?b = Req \<Longrightarrow> \<exists>t. req_decode (opt_value opt) = Ok t"
      "from_byte ?b = Res \<Longrightarrow> \<exists>t. res_decode (opt_value opt) = Ok t"
      using len mds_opt.decode_good [of "opt_value opt"] mrds_opt.decode_good [of "opt_value opt"]
        req_opt.decode_good [of "opt_value opt"] res_opt.decode_good [of "opt_value opt"]
      by (auto simp: fixed_value_lens_simps from_byte_named)
    have apc: "from_byte ?b = Apc \<Longrightarrow> length (opt_value opt) = 4"
      using len by (simp add: fixed_value_lens_simps from_byte_named)
    have step: "parse_step crc False user_data st (option_item off opt) =
      (case from_byte ?b of
         Apc \<Rightarrow> apc_option crc False user_data st ?r
       | Mds \<Rightarrow> checked_option st ?r (mds_decode (opt_value opt))
       | Mrds \<Rightarrow> checked_option st ?r (mrds_decode (opt_value opt))
       | Req \<Rightarrow> checked_option st ?r (req_decode (opt_value opt))
       | Res \<Rightarrow> checked_option st ?r (res_decode (opt_value opt))
       | _ \<Rightarrow> Continue st)"
      using True valid_option_reject [OF v(1)]
      by (auto simp: item parse_step_def reportable_def split: option_kind.split)
    consider "from_byte ?b = Apc" | "from_byte ?b = Mds" | "from_byte ?b = Mrds" | "from_byte ?b = Req" | "from_byte ?b = Res"
      using True by (auto simp: reportable_def)
    then show ?thesis
    proof cases
      case 1 then show ?thesis using apc_option_Ok [OF apc new] by (simp add: step)
    next
      case 2
      with dec(1) obtain t where d: "mds_decode (opt_value opt) = Ok t" by blast
      show ?thesis using checked_option_Ok [OF d new 2] 2 d by (simp add: step reportable_def)
    next
      case 3
      with dec(2) obtain t where d: "mrds_decode (opt_value opt) = Ok t" by blast
      show ?thesis using checked_option_Ok [OF d new 3] 3 d by (simp add: step reportable_def)
    next
      case 4
      with dec(3) obtain t where d: "req_decode (opt_value opt) = Ok t" by blast
      show ?thesis using checked_option_Ok [OF d new 4] 4 d by (simp add: step reportable_def)
    next
      case 5
      with dec(4) obtain t where d: "res_decode (opt_value opt) = Ok t" by blast
      show ?thesis using checked_option_Ok [OF d new 5] 5 d by (simp add: step reportable_def)
    qed
  next
    case False
    moreover have "unat ?b < 192" "?b \<noteq> kind_EOL" "?b \<noteq> kind_NOP" using v(1) by (auto simp: valid_option_def Let_def)
    ultimately have k: "from_byte ?b = Other ?b" "is_safe (from_byte ?b)"
      using v(2) unfolding reportable_from_byte
      by (simp_all add: from_byte_def is_safe_def kind_UNSAFE_MIN_def word_less_nat_alt)
    have "reportable_bytes [opt] = []" "delivered_status crc user_data opt = Ignored"
      using False k by (auto simp: reportable_bytes_def delivered_status_def canonical_def reportable_def Let_def)
    with k show ?thesis using valid_option_reject [OF v(1)]
      by (simp add: item parse_step_def observe_def delivered_reports_def delivered_options_def canonical_def)
  qed
qed

lemma parse_step_nop: "parse_step crc ctx user_data st nop_item = Continue st"
  by (simp add: parse_step_def nop_item_def reject_sub_minimum_def minimum_known_tlv_len_def fixed_tlv_lengths_def
      NO_FIXED_LENGTHS_def Let_def kind_defs)

lemma parse_step_eol: "parse_step crc ctx user_data st eol_item = Continue st"
  by (simp add: parse_step_def eol_item_def reject_sub_minimum_def minimum_known_tlv_len_def fixed_tlv_lengths_def
      NO_FIXED_LENGTHS_def Let_def kind_defs)

lemma reportable_bytes_Cons: "reportable_bytes (opt # opts) = reportable_bytes [opt] @ reportable_bytes opts"
  by (simp add: reportable_bytes_def)

lemma parse_items_plain:
  "\<forall>opt \<in> set opts. plain_option opt \<Longrightarrow> distinct (reportable_bytes opts) \<Longrightarrow>
   \<forall>b \<in> set (reportable_bytes opts). \<not> ps_seen st b \<Longrightarrow>
     parse_items crc False user_data st (stream_items off p opts @ [eol_item]) =
       Ok (parse_end (st\<lparr>ps_reports := ps_reports st @ delivered_reports crc user_data opts,
                         ps_options := ps_options st @ delivered_options crc user_data opts\<rparr>))"
proof (induction opts arbitrary: st off p)
  case Nil
  then show ?case by (simp add: parse_step_eol delivered_reports_def delivered_options_def)
next
  case (Cons opt opts)
  let ?st = "observe crc user_data st opt"
  have step: "parse_step crc False user_data st (option_item off' opt) = Continue ?st" for off'
    using Cons.prems unfolding reportable_bytes_Cons [of opt opts] by (intro parse_step_plain) auto
  have new: "\<forall>b \<in> set (reportable_bytes opts). \<not> ps_seen ?st b"
    using Cons.prems(2,3) unfolding reportable_bytes_Cons [of opt opts] by (auto simp: observe_def)
  have d: "distinct (reportable_bytes opts)" using Cons.prems(2) unfolding reportable_bytes_Cons [of opt opts] by simp
  from Cons.IH [OF _ d new] Cons.prems(1) show ?case
    by (simp add: Let_def step parse_step_nop parse_end_def)
      (simp add: observe_def delivered_reports_def delivered_options_def)
qed

lemma limit_items_plain:
  "\<forall>opt \<in> set opts. plain_option opt \<Longrightarrow> limit_items bs offset (stream_items off p opts @ [eol_item]) = Ok Full"
proof (induction opts arbitrary: off p)
  case Nil
  then show ?case by (simp add: eol_item_def)
next
  case (Cons opt opts)
  then have "unat (to_byte (opt_kind opt)) < 192" "to_byte (opt_kind opt) \<noteq> kind_FRAG" "to_byte (opt_kind opt) \<noteq> kind_EOL"
    by (auto simp: plain_option_def valid_option_def Let_def)
  then show ?case
    using Cons by (simp add: Let_def option_item_def nop_item_def from_byte_named is_unsafe_iff)
qed

lemma parse_options_plain:
  assumes "\<forall>opt \<in> set opts. plain_option opt" and "distinct (reportable_bytes opts)"
  shows "parse_options crc (drop 2 (canonical_body opts)) user_data offset =
    Ok \<lparr>po_options = delivered_options crc user_data opts, po_reports = delivered_reports crc user_data opts,
        po_frag = None, po_unsupported_unsafe_seen = False, po_fragment_failed = False\<rparr>"
proof -
  have "\<forall>opt \<in> set opts. framed_option opt" using assms(1) by (auto simp: plain_option_def intro: valid_framed)
  note body = parse_canonical_body [OF this]
  show ?thesis
    using parse_items_plain [OF assms, of parse_state_init crc user_data 0 False]
    by (auto simp: parse_options_items body limit_items_plain [OF assms(1)] parse_state_init_def parse_end_def)
qed

section \<open>The FRAG option of a fragment\<close>

lemma length_frag_wire_value_le: "length (frag_wire_value f) \<le> 252"
  by (auto simp: frag_wire_value_def split: option.split)

lemma parse_options_fragment:
  assumes "unat (frag_start f) = offset + length (option_bytes \<lparr>opt_kind = Frag, opt_value = frag_wire_value f\<rparr>)"
  shows "parse_options crc (option_bytes \<lparr>opt_kind = Frag, opt_value = frag_wire_value f\<rparr> @ data) [] offset =
    Ok \<lparr>po_options = [], po_reports = [], po_frag = Some f, po_unsupported_unsafe_seen = False,
        po_fragment_failed = False\<rparr>"
proof -
  let ?o = "\<lparr>opt_kind = Frag, opt_value = frag_wire_value f\<rparr>"
  let ?r = "\<lparr>ref_kind = Frag, ref_value = frag_wire_value f, ref_at = Some 2\<rparr>"
  have v: "valid_option ?o" by (rule frag_opt.val_valid)
  have item: "option_item 0 ?o = Inr ?r"
    using length_frag_wire_value_le [of f] by (simp add: option_item_def from_byte_named)
  have len: "length (option_bytes ?o) = 2 + length (frag_wire_value f)"
    using length_frag_wire_value_le [of f] by (simp add: encoded_len_def DEFAULT_VALUE_LEN_MAX_def)
  have spec: "parse_spec 0 (option_bytes ?o @ rest) = Inr ?r # parse_spec (length (option_bytes ?o)) rest" for rest
    using parse_spec_option [OF valid_framed [OF v], of 0 rest] by (simp only: item add_0)
  have lim: "limit_items (option_bytes ?o @ data) offset (parse_spec 0 (option_bytes ?o @ data)) =
      Ok (EndAt (length (option_bytes ?o)))"
    unfolding spec using assms len frag_opt.decode_val [of f]
    by (simp add: option_end_offset_def Let_def del: length_option_bytes)
  have one: "parse_spec 0 (option_bytes ?o) = [Inr ?r]" using spec [of "[]"] by (simp add: parse_spec.simps)
  have "from_byte kind_FRAG = Frag" by (simp add: from_byte_named)
  then have "reject_sub_minimum ?r = Ok ()" using valid_option_reject [OF v] by simp
  then show ?thesis
    using frag_opt.decode_val [of f]
    by (simp add: parse_options_items lim one parse_step_def frag_option_def parse_state_init_def parse_end_def Let_def
        del: length_option_bytes)
qed

section \<open>Properties\<close>

text \<open>
  C21: The receiver's option handling inverts the serializer: a serialized list of valid options other than FRAG, with no
  supported Kind twice, yields every supported option (APC if its CRC matches the user data) and one
  report per option, in the order of the list.
\<close>

theorem parse_options_inverts_serializer:
  assumes "list_all plain_option opts" and "distinct (reportable_bytes opts)"
  shows "parse_options crc (drop 2 (canonical_body opts)) user_data offset =
    Ok \<lparr>po_options = map canonical (filter (\<lambda>opt. delivered_status crc user_data opt = Success) opts),
        po_reports = map (\<lambda>opt. report (from_byte (to_byte (opt_kind opt))) (delivered_status crc user_data opt)) opts,
        po_frag = None, po_unsupported_unsafe_seen = False, po_fragment_failed = False\<rparr>"
  using parse_options_plain [of opts crc user_data offset] assms
  by (simp add: list_all_iff delivered_options_def delivered_reports_def canonical_def)

theorem parse_options_inverts_serializer_witness:
  "parse_options (\<lambda>_. 7) (drop 2 (canonical_body [\<lparr>opt_kind = Mds, opt_value = [5, 220]\<rparr>])) [1] 0 =
    Ok \<lparr>po_options = [\<lparr>opt_kind = Mds, opt_value = [5, 220]\<rparr>], po_reports = [report Mds Success],
        po_frag = None, po_unsupported_unsafe_seen = False, po_fragment_failed = False\<rparr>"
proof -
  have "plain_option \<lparr>opt_kind = Mds, opt_value = [5, 220]\<rparr>"
    by (simp add: plain_option_def valid_option_def kind_defs serialize_limits length_defs
        is_out_of_scope_assigned_safe_kind_def fixed_value_lens_def Let_def)
  then show ?thesis
    using parse_options_inverts_serializer [of "[\<lparr>opt_kind = Mds, opt_value = [5, 220]\<rparr>]" "\<lambda>_. 7" "[1]" 0]
    by (simp add: reportable_bytes_def delivered_status_def canonical_def reportable_def from_byte_def kind_defs)
qed

end
