(* ===== verification/Frag_Roundtrip.thy ===== *)
theory Frag_Roundtrip
  imports Reassembly "HOL-Library.Multiset"
begin

text \<open>
  Splitting and reassembling together. A family of fragments cuts one tail into pieces; fed to the
  cache in any order the family completes exactly with its last fragment and gives back the tail. The
  fragments of \<open>split_datagram\<close> are such a family.
\<close>

section \<open>Families of fragments\<close>

type_synonym piece = "normalized_fragment \<times> bytes \<times> fragment_processing"

abbreviation pc_start :: "piece \<Rightarrow> usize" where "pc_start x \<equiv> nf_start (fst x)"
abbreviation pc_end :: "piece \<Rightarrow> usize" where "pc_end x \<equiv> nf_end (fst x)"
abbreviation pc_data :: "piece \<Rightarrow> bytes" where "pc_data x \<equiv> fst (snd x)"
abbreviation pc_terminal :: "piece \<Rightarrow> bool" where "pc_terminal x \<equiv> nf_udp_length (fst x) \<noteq> None"

text \<open>One piece of a tail whose datagram has UDP Length \<open>u\<close>.\<close>

definition piece_ok :: "bytes \<Rightarrow> u16 \<Rightarrow> piece \<Rightarrow> bool" where
  "piece_ok tail u x \<longleftrightarrow>
     pc_end x = pc_start x + length (pc_data x) \<and> pc_end x \<le> length tail
     \<and> pc_data x = take (length (pc_data x)) (drop (pc_start x) tail)
     \<and> (case nf_udp_length (fst x) of
          None \<Rightarrow> pc_data x \<noteq> []
        | Some v \<Rightarrow> v = u \<and> pc_end x = length tail)"

definition family :: "bytes \<Rightarrow> u16 \<Rightarrow> piece list \<Rightarrow> bool" where
  "family tail u F \<longleftrightarrow>
     distinct F
     \<and> 8 \<le> unat u \<and> unat u \<le> 8 + length tail
     \<and> (\<forall>x \<in> set F. piece_ok tail u x)
     \<and> (\<forall>x \<in> set F. \<forall>y \<in> set F. x \<noteq> y \<longrightarrow> pc_end x \<le> pc_start y \<or> pc_end y \<le> pc_start x)
     \<and> (\<exists>x \<in> set F. pc_terminal x)
     \<and> (\<forall>x \<in> set F. \<forall>y \<in> set F. pc_terminal x \<longrightarrow> pc_terminal y \<longrightarrow> x = y)
     \<and> sum_list (map (length \<circ> pc_data) F) = length tail"

text \<open>A partial that holds exactly the pieces \<open>S\<close>.\<close>

definition collected :: "reassembly_limits \<Rightarrow> bytes \<Rightarrow> u16 \<Rightarrow> piece list \<Rightarrow> partial \<Rightarrow> bool" where
  "collected lim tail u S p \<longleftrightarrow>
     partial_inv lim p \<and> agrees tail (segments p)
     \<and> (\<forall>s \<in> set (segments p). \<exists>x \<in> set S. seg_start s = pc_start x \<and> seg_end s = pc_end x)
     \<and> byte_total p = sum_list (map (length \<circ> pc_data) S) \<and> fragment_count p = length S
     \<and> terminal_end p = (if \<exists>x \<in> set S. pc_terminal x then Some (length tail) else None)
     \<and> p_udp_length p = (if \<exists>x \<in> set S. pc_terminal x then Some u else None)"

lemma collected_new: "collected lim tail u [] (partial_new now)"
  by (simp add: collected_def partial_inv_new) (simp add: partial_new_def agrees_def)

text \<open>What the limits must allow.\<close>

definition room_for :: "reassembly_limits \<Rightarrow> bytes \<Rightarrow> piece list \<Rightarrow> bool" where
  "room_for lim tail F \<longleftrightarrow>
     length F \<le> lim_max_segments lim \<and> length F \<le> usize_max
     \<and> 8 + length tail \<le> lim_max_reassembled_size lim \<and> 8 + length tail \<le> usize_max"

lemma family_piece: "family tail u F \<Longrightarrow> x \<in> set F \<Longrightarrow> piece_ok tail u x"
  by (simp add: family_def)

lemma family_disjoint:
  "family tail u F \<Longrightarrow> x \<in> set F \<Longrightarrow> y \<in> set F \<Longrightarrow> x \<noteq> y \<Longrightarrow> pc_end x \<le> pc_start y \<or> pc_end y \<le> pc_start x"
  unfolding family_def by blast

lemma family_terminal:
  "family tail u F \<Longrightarrow> x \<in> set F \<Longrightarrow> y \<in> set F \<Longrightarrow> pc_terminal x \<Longrightarrow> pc_terminal y \<Longrightarrow> x = y"
  unfolding family_def by blast

lemma family_distinct: "family tail u F \<Longrightarrow> distinct F"
  by (simp add: family_def)

lemma family_sum: "family tail u F \<Longrightarrow> sum_list (map (length \<circ> pc_data) F) = length tail"
  unfolding family_def by blast

lemma family_ex_terminal: "family tail u F \<Longrightarrow> \<exists>x \<in> set F. pc_terminal x"
  unfolding family_def by blast

lemma family_fragment_ok:
  assumes "family tail u F" and "room_for lim tail F" and "x \<in> set F"
  shows "fragment_ok lim (fst x) (pc_data x)"
  using family_piece [OF assms(1,3)] assms(2) by (simp add: piece_ok_def fragment_ok_def room_for_def)

section \<open>Counting pieces\<close>

lemma sum_list_sub:
  fixes g :: "'a \<Rightarrow> nat"
  assumes "distinct xs" and "distinct ys" and "set xs \<subseteq> set ys"
  shows "sum_list (map g xs) \<le> sum_list (map g ys)"
  using assms by (simp add: sum_list_distinct_conv_sum_set sum_mono2)

lemma sum_list_sub_strict:
  fixes g :: "'a \<Rightarrow> nat"
  assumes "distinct xs" and "distinct ys" and "set xs \<subseteq> set ys" and "z \<in> set ys" and "z \<notin> set xs" and "0 < g z"
  shows "sum_list (map g xs) < sum_list (map g ys)"
proof -
  have "sum_list (map g (z # xs)) \<le> sum_list (map g ys)"
    using assms by (intro sum_list_sub) auto
  then show ?thesis using assms(6) by simp
qed

lemma family_full_iff:
  assumes F: "family tail u F" and S: "distinct S" "set S \<subseteq> set F"
  shows "(\<exists>x \<in> set S. pc_terminal x) \<and> sum_list (map (length \<circ> pc_data) S) = length tail \<longleftrightarrow> length S = length F"
proof
  note D = family_distinct [OF F]
  assume full: "length S = length F"
  have "card (set S) = card (set F)" using full distinct_card [OF S(1)] distinct_card [OF D] by simp
  then have eq: "set S = set F" using S(2) by (simp add: card_subset_eq)
  have "sum_list (map (length \<circ> pc_data) S) = sum_list (map (length \<circ> pc_data) F)"
    unfolding sum_list_distinct_conv_sum_set [OF S(1)] sum_list_distinct_conv_sum_set [OF D] eq ..
  then show "(\<exists>x \<in> set S. pc_terminal x) \<and> sum_list (map (length \<circ> pc_data) S) = length tail"
    using family_sum [OF F] family_ex_terminal [OF F] eq by metis
next
  note D = family_distinct [OF F]
  assume all: "(\<exists>x \<in> set S. pc_terminal x) \<and> sum_list (map (length \<circ> pc_data) S) = length tail"
  have "set F \<subseteq> set S"
  proof
    fix z assume z: "z \<in> set F"
    show "z \<in> set S"
    proof (rule ccontr)
      assume zS: "z \<notin> set S"
      from all S(2) z zS have "\<not> pc_terminal z" using family_terminal [OF F] by blast
      with family_piece [OF F z] have "0 < (length \<circ> pc_data) z" by (auto simp: piece_ok_def)
      from sum_list_sub_strict [where g = "length \<circ> pc_data", OF S(1) D S(2) z zS this] all family_sum [OF F]
      show False by simp
    qed
  qed
  with S(2) have "set S = set F" by blast
  then show "length S = length F" using distinct_card [OF S(1)] distinct_card [OF D] by simp
qed

section \<open>One more piece\<close>

lemma collected_segment:
  assumes "collected lim tail u S p" and "s \<in> set (segments p)"
  shows "\<exists>x \<in> set S. seg_start s = pc_start x \<and> seg_end s = pc_end x" "seg_start s < seg_end s"
proof -
  show "\<exists>x \<in> set S. seg_start s = pc_start x \<and> seg_end s = pc_end x"
    using assms by (simp add: collected_def)
  have "segs_ok 0 (segments p)" using assms by (simp add: collected_def partial_inv_def)
  then show "seg_start s < seg_end s" using segs_ok_bounds assms(2) by blast
qed

lemma family_single_terminal:
  assumes F: "family tail u F" and S: "distinct (x # S)" "set (x # S) \<subseteq> set F" and x: "pc_terminal x" and y: "y \<in> set S"
  shows "\<not> pc_terminal y"
proof
  assume "pc_terminal y"
  moreover have "x \<in> set F" "y \<in> set F" using S(2) y by auto
  ultimately have "x = y" using family_terminal [OF F] x by blast
  with S(1) y show False by simp
qed

lemma collected_not_blocked:
  assumes F: "family tail u F" and room: "room_for lim tail F" and c: "collected lim tail u S p"
    and S: "distinct (x # S)" "set (x # S) \<subseteq> set F"
  shows "\<not> is_exact_duplicate p (fst x) (pc_data x) opts failures"
    and "\<not> over_limit p (pc_data x) lim"
    and "\<not> overlaps p (pc_start x) (pc_end x)"
    and "\<not> past_terminal p (fst x)"
proof -
  have xF: "x \<in> set F" using S(2) by simp
  have x: "piece_ok tail u x" by (rule family_piece [OF F xF])
  have dis: "pc_end x \<le> seg_start s \<or> seg_end s \<le> pc_start x" if s: "s \<in> set (segments p)" for s
  proof -
    obtain y where "y \<in> set S" "seg_start s = pc_start y" "seg_end s = pc_end y"
      using collected_segment(1) [OF c s] by blast
    moreover have "x \<noteq> y" using S(1) \<open>y \<in> set S\<close> by auto
    moreover have "x \<in> set F" "y \<in> set F" using S(2) \<open>y \<in> set S\<close> by auto
    ultimately show ?thesis using family_disjoint [OF F, of x y] by simp
  qed
  have pos: "seg_start s < seg_end s" if "s \<in> set (segments p)" for s
    by (rule collected_segment(2) [OF c that])
  show "\<not> is_exact_duplicate p (fst x) (pc_data x) opts failures"
  proof (cases "nf_udp_length (fst x)")
    case None
    then have "pc_start x < pc_end x" using x by (auto simp: piece_ok_def)
    with None show ?thesis using dis by (fastforce simp: is_exact_duplicate_def)
  next
    case (Some v)
    then have "\<forall>y \<in> set S. \<not> pc_terminal y" using family_single_terminal [OF F S] by simp
    then have "p_udp_length p = None" using c by (simp add: collected_def)
    with Some show ?thesis by (simp add: is_exact_duplicate_def)
  qed
  have "card (set (x # S)) \<le> card (set F)" using S(2) by (intro card_mono) auto
  then have "length (x # S) \<le> length F"
    unfolding distinct_card [OF S(1)] distinct_card [OF family_distinct [OF F]] .
  moreover have "sum_list (map (length \<circ> pc_data) (x # S)) \<le> sum_list (map (length \<circ> pc_data) F)"
    by (rule sum_list_sub [OF S(1) family_distinct [OF F] S(2)])
  ultimately show "\<not> over_limit p (pc_data x) lim"
    using c room family_sum [OF F] by (simp add: over_limit_def collected_def room_for_def not_less)
  show "\<not> overlaps p (pc_start x) (pc_end x)" using dis by (fastforce simp: overlaps_def)
  show "\<not> past_terminal p (fst x)"
    using c x by (auto simp: past_terminal_def collected_def piece_ok_def)
qed

lemma collected_observe_terminal:
  assumes F: "family tail u F" and c: "collected lim tail u S p"
    and S: "distinct (x # S)" "set (x # S) \<subseteq> set F"
  shows "\<exists>p1. observe_terminal p (fst x) (pc_data x) opts failures = (True, p1)
    \<and> terminal_end p1 = (if \<exists>y \<in> set (x # S). pc_terminal y then Some (length tail) else None)
    \<and> p_udp_length p1 = (if \<exists>y \<in> set (x # S). pc_terminal y then Some u else None)"
proof (cases "nf_udp_length (fst x)")
  case None
  then show ?thesis using c by (simp add: observe_terminal_def collected_def)
next
  case (Some v)
  have xF: "x \<in> set F" using S(2) by simp
  have x: "v = u" "pc_end x = length tail" using family_piece [OF F xF] Some by (simp_all add: piece_ok_def)
  have "\<forall>y \<in> set S. \<not> pc_terminal y" using family_single_terminal [OF F S] Some by simp
  then have none: "terminal_end p = None" "p_udp_length p = None" using c by (simp_all add: collected_def)
  have seg: "\<not> length tail < seg_end s" if "s \<in> set (segments p)" for s
    using c that by (auto simp: collected_def agrees_def not_less)
  have u: "8 \<le> unat u" "unat u - 8 \<le> length tail" using F by (auto simp: family_def)
  show ?thesis
    using Some x none seg u by (auto simp: observe_terminal_def Let_def checked_sub_def)
qed

lemma agrees_accepted:
  assumes "agrees tail (segments p)" and "piece_ok tail u x" and "segments p1 = segments p"
  shows "agrees tail (segments (accepted p1 (fst x) (pc_data x) opts failures ocs))"
  using assms by (auto simp: agrees_def piece_ok_def)

lemma collected_accepted:
  assumes F: "family tail u F" and room: "room_for lim tail F" and c: "collected lim tail u S p"
    and S: "distinct (x # S)" "set (x # S) \<subseteq> set F"
    and ot: "observe_terminal p (fst x) (pc_data x) opts failures = (True, p1)"
    and t: "terminal_end p1 = (if \<exists>y \<in> set (x # S). pc_terminal y then Some (length tail) else None)"
      "p_udp_length p1 = (if \<exists>y \<in> set (x # S). pc_terminal y then Some u else None)"
  shows "collected lim tail u (x # S) (accepted p1 (fst x) (pc_data x) opts failures ocs)"
    (is "collected _ _ _ _ ?q")
proof -
  note nb = collected_not_blocked [OF F room c S]
  have xF: "x \<in> set F" using S(2) by simp
  note fr = observe_terminal_frame(1-3) [OF ot]
  have inv: "partial_inv lim p" using c by (simp add: collected_def)
  have "fragment_count p + 1 \<le> lim_max_segments lim" using nb(2) by (simp add: over_limit_def not_less)
  moreover have "\<forall>e. terminal_end p = Some e \<longrightarrow> pc_end x \<le> e" using nb(4) by (auto simp: past_terminal_def not_less)
  ultimately have "partial_inv lim ?q"
    by (intro partial_inv_accept [OF inv family_fragment_ok [OF F room xF] ot nb(3)])
  moreover have "agrees tail (segments ?q)"
    using agrees_accepted [OF _ family_piece [OF F xF] fr(1)] c by (simp add: collected_def del: accepted_simps)
  moreover have "\<forall>s \<in> set (segments ?q). \<exists>y \<in> set (x # S). seg_start s = pc_start y \<and> seg_end s = pc_end y"
    using collected_segment(1) [OF c] fr(1) by auto
  ultimately show ?thesis
    using t fr(2,3) c by (simp add: collected_def [of lim tail u "x # S"]) (simp add: collected_def)
qed

lemma collected_step:
  assumes F: "family tail u F" and room: "room_for lim tail F" and c: "collected lim tail u S p"
    and S: "distinct (x # S)" "set (x # S) \<subseteq> set F"
  shows "\<exists>q. collected lim tail u (x # S) q \<and> received_at q = received_at p
    \<and> partial_insert p (fst x) (pc_data x) opts failures ocs lim =
        (if length (x # S) = length F then InsertComplete (completed_of q) else InsertIncomplete, q)"
proof -
  obtain p1 where ot: "observe_terminal p (fst x) (pc_data x) opts failures = (True, p1)"
    and t: "terminal_end p1 = (if \<exists>y \<in> set (x # S). pc_terminal y then Some (length tail) else None)"
      "p_udp_length p1 = (if \<exists>y \<in> set (x # S). pc_terminal y then Some u else None)"
    using collected_observe_terminal [OF F c S] by blast
  let ?q = "accepted p1 (fst x) (pc_data x) opts failures ocs"
  have q: "collected lim tail u (x # S) ?q" by (rule collected_accepted [OF F room c S ot t])
  then have "terminal_end ?q = Some (byte_total ?q) \<longleftrightarrow>
      (\<exists>y \<in> set (x # S). pc_terminal y) \<and> sum_list (map (length \<circ> pc_data) (x # S)) = length tail"
    by (auto simp: collected_def simp del: accepted_simps split: if_splits)
  also have "\<dots> \<longleftrightarrow> length (x # S) = length F" by (rule family_full_iff [OF F S])
  finally have "complete ?q =
      (if length (x # S) = length F then InsertComplete (completed_of ?q) else InsertIncomplete)"
    using complete_eq [of lim ?q] q by (simp add: collected_def del: accepted_simps)
  then show ?thesis
    using collected_not_blocked [OF F room c S] q observe_terminal_frame(7) [OF ot]
    by (intro exI [of _ ?q]) (simp add: partial_insert_eq [OF ot])
qed

lemma collected_tail:
  assumes F: "family tail u F" and c: "collected lim tail u S p" and S: "distinct S" "set S \<subseteq> set F" "length S = length F"
  shows "c_tail (completed_of p) = tail" "c_udp_length (completed_of p) = u"
proof -
  have full: "\<exists>x \<in> set S. pc_terminal x" "sum_list (map (length \<circ> pc_data) S) = length tail"
    using family_full_iff [OF F S(1,2)] S(3) by auto
  have p: "segs_ok 0 (segments p)" "agrees tail (segments p)" "seg_bytes (segments p) = length tail"
    "\<forall>s \<in> set (segments p). seg_end s \<le> length tail" "p_udp_length p = Some u"
    using c full by (auto simp: collected_def partial_inv_def agrees_def)
  then have "cursor_loop 0 (segments p) = Inr (length tail)" by (intro cursor_loop_full) auto
  from cursor_loop_concat [OF p(1,2) this] p(5)
  show "c_tail (completed_of p) = tail" "c_udp_length (completed_of p) = u" by (simp_all add: completed_of_def)
qed

section \<open>Feeding the cache\<close>

text \<open>Fragments as they arrive for one key, and the cache after a sequence of arrivals.\<close>

type_synonym arrival = "frag \<times> bytes \<times> fragment_processing \<times> instant"

fun feed :: "reassembly_cache \<Rightarrow> frag_key \<Rightarrow> arrival list
    \<Rightarrow> (reassembly_outcome list \<times> reassembly_cache, 'e) res" where
  "feed c key [] = Ok ([], c)"
| "feed c key ((f, data, proc, now) # xs) =
     and_then (insert_with_options_and_failures c key f data proc now) (\<lambda>(out, c).
     and_then (feed c key xs) (\<lambda>(outs, c). Ok (out # outs, c)))"

text \<open>An arrival carries a piece.\<close>

definition arrives :: "arrival \<Rightarrow> piece \<Rightarrow> bool" where
  "arrives a x \<longleftrightarrow>
     (case a of (f, data, proc, now) \<Rightarrow>
        normalized_new f (length data) = Some (fst x) \<and> pc_data x = data \<and> snd (snd x) = proc)"

definition arrival_time :: "arrival \<Rightarrow> instant" where
  "arrival_time a = snd (snd (snd a))"

lemma feed_one:
  assumes F: "family tail u F" and room: "room_for lim tail F" and inv: "cache_inv c" and lim: "cache_limits c = lim"
    and free: "\<not> cache_full (cache_gc c now) key"
    and col: "collected lim tail u S (partial_of (cache_gc c now) key now)"
    and S: "distinct (x # S)" "set (x # S) \<subseteq> set F" and a: "arrives (f, data, proc, now) x"
  shows "\<exists>c' q. insert_with_options_and_failures c key f data proc now =
      Ok (if length (x # S) = length F then Complete (completed_of q) else Incomplete, c')
    \<and> collected lim tail u (x # S) q \<and> received_at q = received_at (partial_of (cache_gc c now) key now)
    \<and> hm_get (partials c') key = (if length (x # S) = length F then None else Some q)"
proof -
  let ?c = "cache_gc c now"
  obtain q where q: "collected lim tail u (x # S) q"
      "received_at q = received_at (partial_of ?c key now)"
      "partial_insert (partial_of ?c key now) (fst x) (pc_data x) (fp_options proc) (fp_option_failures proc)
        (fp_ocs_nonzero proc) lim =
        (if length (x # S) = length F then InsertComplete (completed_of q) else InsertIncomplete, q)"
    using collected_step [OF F room col S] by blast
  have nf: "normalized_new f (length data) = Some (fst x)" "pc_data x = data" using a by (simp_all add: arrives_def)
  have xF: "x \<in> set F" using S(2) by simp
  have "unat u \<le> 8 + length tail" using F by (simp add: family_def)
  then have "cache_admits ?c (fst x)"
    using family_piece [OF F xF] room lim
    by (auto simp: cache_admits_def piece_ok_def room_for_def split: option.splits)
  then have ins: "insert_with_options_and_failures c key f data proc now = Ok (store_result ?c key
      (if length (x # S) = length F then InsertComplete (completed_of q) else InsertIncomplete, q))"
    using nf free lim q(3) by (simp add: insert_with_options_and_failures_eq Let_def)
  have wf: "hm_wf (partials ?c)" by (rule cache_inv_wf [OF cache_inv_gc [OF inv]])
  show ?thesis
  proof (cases "length (x # S) = length F")
    case True
    then show ?thesis using ins q(1,2) wf
      by (intro exI [of _ "?c\<lparr>partials := hm_remove (partials ?c) key\<rparr>"] exI [of _ q])
        (simp add: store_result_def hm.get_remove)
  next
    case False
    then show ?thesis using ins q(1,2) wf
      by (intro exI [of _ "?c\<lparr>partials := hm_insert (partials ?c) key q\<rparr>"] exI [of _ q])
        (simp add: store_result_def hm.get_insert)
  qed
qed

text \<open>The rest of a family, after its first piece has been stored.\<close>

lemma feed_rest:
  assumes F: "family tail u F" and room: "room_for lim tail F"
  shows "cache_inv c \<Longrightarrow> cache_limits c = lim \<Longrightarrow> hm_get (partials c) key = Some p \<Longrightarrow>
     collected lim tail u S p \<Longrightarrow> list_all2 arrives as R \<Longrightarrow> distinct (R @ S) \<Longrightarrow> set (R @ S) \<subseteq> set F \<Longrightarrow>
     length (R @ S) = length F \<Longrightarrow> R \<noteq> [] \<Longrightarrow>
     \<forall>a \<in> set as. arrival_time a - received_at p < min (lim_timeout lim) REASSEMBLY_TIMEOUT_MAX \<Longrightarrow>
     \<exists>r c'. (feed c key as :: (_, 'e) res) = Ok (replicate (length as - 1) Incomplete @ [Complete r], c')
       \<and> c_tail r = tail \<and> c_udp_length r = u \<and> hm_get (partials c') key = None"
proof (induction R arbitrary: as S c p)
  case (Cons x R)
  from Cons.prems(5) obtain f data proc now as' where as: "as = (f, data, proc, now) # as'"
    "arrives (f, data, proc, now) x" "list_all2 arrives as' R"
    by (auto simp: list_all2_Cons2)
  have keep: "hm_get (partials (cache_gc c now)) key = Some p"
    using Cons.prems(2,3,10) as(1) cache_inv_wf [OF Cons.prems(1)]
    by (simp add: hm_get_gc is_expired_def arrival_time_def not_le)
  then have po: "partial_of (cache_gc c now) key now = p" and free: "\<not> cache_full (cache_gc c now) key"
    by (simp_all add: partial_of_def cache_full_def)
  have S: "distinct (x # S)" "set (x # S) \<subseteq> set F" using Cons.prems(6,7) by auto
  from feed_one [OF F room Cons.prems(1,2) free _ S as(2)] Cons.prems(4) po
  obtain c' q where ins: "(insert_with_options_and_failures c key f data proc now :: (_, 'e) res) =
      Ok (if length (x # S) = length F then Complete (completed_of q) else Incomplete, c')"
    and q: "collected lim tail u (x # S) q" "received_at q = received_at p"
      "hm_get (partials c') key = (if length (x # S) = length F then None else Some q)" by auto
  show ?case
  proof (cases "R = []")
    case True
    then have full: "length (x # S) = length F" using Cons.prems(8) by simp
    then show ?thesis
      using ins q(3) True as collected_tail [OF F q(1) S full] by auto
  next
    case False
    then have more: "length (x # S) \<noteq> length F" using Cons.prems(8) by (cases R) auto
    have "as' \<noteq> []" using False as(3) by auto
    have st: "cache_inv c'" "cache_limits c' = lim"
      using cache_inv_step [OF Cons.prems(1) ins] Cons.prems(2) by simp_all
    have "\<exists>r c''. (feed c' key as' :: (_, 'e) res) = Ok (replicate (length as' - 1) Incomplete @ [Complete r], c'')
        \<and> c_tail r = tail \<and> c_udp_length r = u \<and> hm_get (partials c'') key = None"
      using Cons.prems(6-8,10) False more q as by (intro Cons.IH [OF st _ q(1) as(3)]) auto
    then show ?thesis
      using ins more as(1) \<open>as' \<noteq> []\<close> by (cases as') auto
  qed
qed simp

text \<open>A whole family, from a cache that knows nothing of the key.\<close>

lemma feed_family:
  assumes F: "family tail u F" and room: "room_for (cache_limits c) tail F" and inv: "cache_inv c"
    and new: "hm_get (partials c) key = None" and pending: "hm_len (partials c) < lim_max_pending_partials (cache_limits c)"
    and arr: "list_all2 arrives as F"
    and times: "\<forall>a \<in> set as. arrival_time a - arrival_time (hd as) < min (lim_timeout (cache_limits c)) REASSEMBLY_TIMEOUT_MAX"
  shows "\<exists>r c'. (feed c key as :: (_, 'e) res) = Ok (replicate (length as - 1) Incomplete @ [Complete r], c')
    \<and> c_tail r = tail \<and> c_udp_length r = u \<and> hm_get (partials c') key = None"
proof -
  obtain x R where xR: "F = x # R" using family_ex_terminal [OF F] by (cases F) auto
  with arr obtain f data proc now as' where as: "as = (f, data, proc, now) # as'"
    "arrives (f, data, proc, now) x" "list_all2 arrives as' R" by (auto simp: list_all2_Cons2)
  let ?c = "cache_gc c now"
  have none: "hm_get (partials ?c) key = None"
    using new cache_inv_wf [OF inv] by (simp add: hm_get_gc)
  have "hm_len (partials ?c) \<le> hm_len (partials c)"
    using hm.len_retain_le [OF cache_inv_wf [OF inv]] by (simp add: cache_gc_def)
  then have free: "\<not> cache_full ?c key" using pending by (simp add: cache_full_def)
  have po: "partial_of ?c key now = partial_new now" using none by (simp add: partial_of_def)
  have S: "distinct [x]" "set [x] \<subseteq> set F" using xR by auto
  from feed_one [OF F room inv refl free _ S as(2)] po collected_new
  obtain c' q where ins: "(insert_with_options_and_failures c key f data proc now :: (_, 'e) res) =
      Ok (if length [x] = length F then Complete (completed_of q) else Incomplete, c')"
    and q: "collected (cache_limits c) tail u [x] q" "received_at q = now"
      "hm_get (partials c') key = (if length [x] = length F then None else Some q)"
    by (auto simp: partial_new_def)
  show ?thesis
  proof (cases "R = []")
    case True
    then have "length [x] = length F" using xR by simp
    then show ?thesis using ins q(3) True as collected_tail [OF F q(1) S] by auto
  next
    case False
    then have "as' \<noteq> []" using as(3) by auto
    have st: "cache_inv c'" "cache_limits c' = cache_limits c" by (rule cache_inv_step [OF inv ins])+
    have "hm_get (partials c') key = Some q" using q(3) False xR by simp
    then have "\<exists>r c''. (feed c' key as' :: (_, 'e) res) = Ok (replicate (length as' - 1) Incomplete @ [Complete r], c'')
        \<and> c_tail r = tail \<and> c_udp_length r = u \<and> hm_get (partials c'') key = None"
      using family_distinct [OF F] xR False times as q(2)
      by (intro feed_rest [OF F room st(1) st(2) _ q(1) as(3)]) (auto simp: arrival_time_def)
    then show ?thesis using ins False xR as(1) \<open>as' \<noteq> []\<close> by (cases as') auto
  qed
qed

section \<open>The fragments of a split are a family\<close>

abbreviation pair_of :: "piece \<Rightarrow> normalized_fragment \<times> bytes" where
  "pair_of x \<equiv> (fst x, pc_data x)"

text \<open>Being a family does not depend on order or on what was observed with the pieces.\<close>

lemma family_mset:
  assumes F: "family tail u F" and D: "distinct (map fst F)"
    and perm: "mset (map pair_of R) = mset (map pair_of F)"
  shows "family tail u R"
proof -
  have "mset (map fst R) = mset (map fst F)"
    using arg_cong [OF perm, of "image_mset fst"] by (simp add: image_mset.compositionality comp_def)
  then have D': "distinct (map fst R)" using D by (metis mset_eq_imp_distinct_iff)
  have set: "pair_of ` set R = pair_of ` set F" using arg_cong [OF perm, of set_mset] by simp
  have rep: "\<exists>x' \<in> set F. fst x' = fst x \<and> pc_data x' = pc_data x" if "x \<in> set R" for x
  proof -
    have "pair_of x \<in> pair_of ` set F" using set that by blast
    then obtain x' where "x' \<in> set F" "pair_of x = pair_of x'" by (rule imageE)
    then show ?thesis by auto
  qed
  have inj: "inj_on fst (set R)" using D' by (simp add: distinct_map)
  have "sum_list (map (length \<circ> pc_data) R) = sum_mset (image_mset (length \<circ> snd) (mset (map pair_of R)))"
    by (simp add: sum_mset_sum_list [symmetric] image_mset.compositionality comp_def)
  also have "\<dots> = sum_list (map (length \<circ> pc_data) F)"
    unfolding perm by (simp add: sum_mset_sum_list [symmetric] image_mset.compositionality comp_def)
  finally have sum: "sum_list (map (length \<circ> pc_data) R) = length tail" using family_sum [OF F] by simp
  have dis: "pc_end x \<le> pc_start y \<or> pc_end y \<le> pc_start x" if xy: "x \<in> set R" "y \<in> set R" "x \<noteq> y" for x y
  proof -
    obtain x' y' where F': "x' \<in> set F" "y' \<in> set F" "fst x' = fst x" "fst y' = fst y"
      using rep xy by metis
    have "fst x \<noteq> fst y" using inj xy by (auto dest: inj_onD)
    then have "x' \<noteq> y'" using F' by auto
    from family_disjoint [OF F F'(1,2) this] F'(3,4) show ?thesis by simp
  qed
  have trm: "x = y" if xy: "x \<in> set R" "y \<in> set R" "pc_terminal x" "pc_terminal y" for x y
  proof -
    obtain x' y' where "x' \<in> set F" "y' \<in> set F" "fst x' = fst x" "fst y' = fst y"
      using rep xy by metis
    then have "fst x = fst y" using family_terminal [OF F, of x' y'] xy by simp
    then show ?thesis using inj xy by (auto dest: inj_onD)
  qed
  have pieces: "\<forall>x \<in> set R. piece_ok tail u x"
  proof
    fix x assume "x \<in> set R"
    then obtain x' where "x' \<in> set F" "fst x' = fst x" "pc_data x' = pc_data x" using rep by blast
    then show "piece_ok tail u x" using family_piece [OF F, of x']
      by (auto simp: piece_ok_def split: option.splits)
  qed
  have "\<exists>x \<in> set R. pc_terminal x"
  proof -
    obtain x' where "x' \<in> set F" "pc_terminal x'" using family_ex_terminal [OF F] by blast
    then have "pair_of x' \<in> pair_of ` set R" using set by blast
    then obtain y where "y \<in> set R" "pair_of x' = pair_of y" by (rule imageE)
    then show ?thesis using \<open>pc_terminal x'\<close> by (intro bexI [of _ y]) auto
  qed
  moreover have "distinct R" using D' by (simp add: distinct_map)
  moreover have "8 \<le> unat u \<and> unat u \<le> 8 + length tail" using F by (simp add: family_def)
  ultimately show ?thesis
    unfolding family_def using pieces dis trm sum by blast
qed

lemma tiles_ordered:
  "tiles tcap ncap s e ranges \<Longrightarrow>
     sorted_wrt (\<lambda>(a, b, t) (a', b', t'). a < a' \<and> b \<le> a' \<and> \<not> t) ranges"
proof (induction tcap ncap s e ranges rule: tiles.induct)
  case (3 tcap ncap s e a b t r rs)
  have "\<forall>(a', b', t') \<in> set (r # rs). b \<le> a'"
    using 3 tiles_bounds [of tcap ncap b e "r # rs"] by auto
  with 3 show ?case by fastforce
qed auto

lemma tiles_sum: "tiles tcap ncap s e ranges \<Longrightarrow> sum_list (map (\<lambda>(a, b, t). b - a) ranges) = e - s"
proof (induction tcap ncap s e ranges rule: tiles.induct)
  case (3 tcap ncap s e a b t r rs)
  then show ?case using tiles_le [of tcap ncap b e "r # rs"] by simp
qed auto

lemma tiles_terminal_end: "tiles tcap ncap s e ranges \<Longrightarrow> (a, b, True) \<in> set ranges \<Longrightarrow> b = e"
  by (induction tcap ncap s e ranges rule: tiles.induct) auto

definition range_piece :: "bytes \<Rightarrow> u16 \<Rightarrow> fragment_processing \<Rightarrow> usize \<times> usize \<times> bool \<Rightarrow> piece" where
  "range_piece tail u proc rng =
     (case rng of (a, b, t) \<Rightarrow>
        (\<lparr>nf_start = a, nf_end = b, nf_udp_length = (if t then Some u else None)\<rparr>,
         take (b - a) (drop a tail), proc))"

lemma range_piece_simps [simp]:
  "pc_start (range_piece tail u proc (a, b, t)) = a" "pc_end (range_piece tail u proc (a, b, t)) = b"
  "pc_data (range_piece tail u proc (a, b, t)) = take (b - a) (drop a tail)"
  "nf_udp_length (fst (range_piece tail u proc (a, b, t))) = (if t then Some u else None)"
  by (simp_all add: range_piece_def)

lemma range_piece_start: "pc_start (range_piece tail u proc rng) = fst rng"
  by (cases rng) simp

lemma sorted_wrt_pairwise:
  assumes "sorted_wrt P xs" and "x \<in> set xs" and "y \<in> set xs" and "x \<noteq> y"
  shows "P x y \<or> P y x"
proof -
  obtain i j where "i < length xs" "j < length xs" "x = xs ! i" "y = xs ! j"
    using assms(2,3) by (metis in_set_conv_nth)
  moreover from this assms(4) have "i < j \<or> j < i" by (metis nat_neq_iff)
  ultimately show ?thesis using assms(1) by (auto simp: sorted_wrt_iff_nth_less)
qed

lemma tiles_distinct_starts: "tiles tcap ncap s e ranges \<Longrightarrow> distinct (map fst ranges)"
proof -
  assume "tiles tcap ncap s e ranges"
  then have "sorted_wrt (\<lambda>x y. fst x < fst y) ranges"
    by (intro sorted_wrt_mono_rel [OF _ tiles_ordered]) auto
  then have "sorted_wrt (<) (map fst ranges)" by (simp add: sorted_wrt_map)
  then show ?thesis by (simp add: strict_sorted_iff)
qed

lemma range_piece_ok:
  assumes "tiles tcap ncap 0 (length tail) ranges" and "rng \<in> set ranges"
  shows "piece_ok tail u (range_piece tail u proc rng)"
proof -
  obtain a b t where rng: "rng = (a, b, t)" by (cases rng)
  have "a \<le> b" "b \<le> length tail" "a < b \<or> t" "t \<Longrightarrow> b = length tail"
    using tiles_bounds [OF assms(1), of a b t] tiles_terminal_end [OF assms(1)] assms(2) rng by auto
  then show ?thesis by (cases t) (auto simp: piece_ok_def rng min_def)
qed

lemma tiles_family:
  assumes t: "tiles tcap ncap 0 (length tail) ranges" and u: "8 \<le> unat u" "unat u \<le> 8 + length tail"
  shows "family tail u (map (range_piece tail u proc) ranges)"
    and "distinct (map fst (map (range_piece tail u proc) ranges))"
proof -
  let ?p = "range_piece tail u proc"
  note b = tiles_bounds [OF t]
  have inj: "inj_on (fst \<circ> ?p) (set ranges)"
  proof (rule inj_onI)
    fix x y assume xy: "x \<in> set ranges" "y \<in> set ranges" "(fst \<circ> ?p) x = (fst \<circ> ?p) y"
    then have "pc_start (?p x) = pc_start (?p y)" by simp
    then have "fst x = fst y" unfolding range_piece_start .
    then show "x = y" using xy tiles_distinct_starts [OF t] by (auto simp: distinct_map dest: inj_onD)
  qed
  have dr: "distinct ranges" using tiles_distinct_starts [OF t] by (simp add: distinct_map)
  then show D: "distinct (map fst (map ?p ranges))"
    using inj by (simp add: distinct_map comp_def)
  have "distinct (map ?p ranges)" using dr inj_on_imageI2 [OF inj] by (simp add: distinct_map)
  moreover have "piece_ok tail u x" if "x \<in> set (map ?p ranges)" for x
    using that range_piece_ok [OF t] by auto
  moreover have "pc_end x \<le> pc_start y \<or> pc_end y \<le> pc_start x"
    if xy: "x \<in> set (map ?p ranges)" "y \<in> set (map ?p ranges)" "x \<noteq> y" for x y
  proof -
    obtain v w where vw: "v \<in> set ranges" "w \<in> set ranges" "x = ?p v" "y = ?p w" using xy(1,2) by auto
    moreover obtain a b c a' b' c' where "v = (a, b, c)" "w = (a', b', c')" by (metis prod_cases3)
    moreover have "v \<noteq> w" using vw xy(3) by blast
    ultimately show ?thesis
      using sorted_wrt_pairwise [OF tiles_ordered [OF t], of v w] by auto
  qed
  moreover have "x = y"
    if xy: "x \<in> set (map ?p ranges)" "y \<in> set (map ?p ranges)" "pc_terminal x" "pc_terminal y" for x y
  proof (rule ccontr)
    assume "x \<noteq> y"
    obtain v w where vw: "v \<in> set ranges" "w \<in> set ranges" "x = ?p v" "y = ?p w" using xy(1,2) by auto
    moreover obtain a b c a' b' c' where "v = (a, b, c)" "w = (a', b', c')" by (metis prod_cases3)
    moreover have "v \<noteq> w" using vw \<open>x \<noteq> y\<close> by blast
    ultimately show False
      using sorted_wrt_pairwise [OF tiles_ordered [OF t], of v w] xy(3,4) by (auto split: if_splits)
  qed
  moreover have "\<exists>x \<in> set (map ?p ranges). pc_terminal x"
  proof -
    obtain a where "last ranges = (a, length tail, True)" "ranges \<noteq> []" using tiles_last [OF t] by auto
    then have "(a, length tail, True) \<in> set ranges" by (metis last_in_set)
    then show ?thesis by (intro bexI [of _ "?p (a, length tail, True)"]) auto
  qed
  moreover have "sum_list (map (length \<circ> pc_data) (map ?p ranges)) = length tail"
  proof -
    have "length (pc_data (?p rng)) = (case rng of (a, b, t) \<Rightarrow> b - a)" if rng: "rng \<in> set ranges" for rng
    proof -
      obtain a b t where [simp]: "rng = (a, b, t)" by (cases rng)
      show ?thesis using b [of a b t] rng by (auto simp: min_def)
    qed
    then have "map (length \<circ> pc_data) (map ?p ranges) = map (\<lambda>(a, b, t). b - a) ranges" by simp
    then show ?thesis using tiles_sum [OF t] by (simp del: map_map)
  qed
  ultimately show "family tail u (map ?p ranges)" unfolding family_def using u by blast
qed

text \<open>A split fragment as the receiver reads it: the FRAG option, and the bytes its start field points at.\<close>

definition fragment_arrival :: "u32 \<Rightarrow> fragment \<Rightarrow> fragment_processing \<Rightarrow> instant \<Rightarrow> arrival" where
  "fragment_arrival ident fr proc now =
     (let f = fragment_frag ident (fr_frag_offset fr) (fr_rdos fr) in
      (f, drop (unat (frag_start f) - 8) (fr_surplus_body fr), proc, now))"

lemma fragment_of_arrives:
  assumes t: "tiles tcap ncap 0 (length tail) ranges" and rng: "rng \<in> set ranges"
    and atomic: "atomic \<longleftrightarrow> length ranges = 1" and len: "8 + length tail \<le> u16_max"
  shows "arrives (fragment_arrival ident (fragment_of tail atomic r ident rng) proc now) (range_piece tail r proc rng)"
proof -
  obtain a b tm where [simp]: "rng = (a, b, tm)" by (cases rng)
  have bnd: "a \<le> b" "b \<le> length tail" using tiles_bounds [OF t, of a b tm] rng by auto
  let ?fr = "fragment_of tail atomic r ident (a, b, tm)"
  let ?f = "fragment_frag ident (fr_frag_offset ?fr) (fr_rdos ?fr)"
  have data: "drop (unat (frag_start ?f) - 8) (fr_surplus_body ?fr) = take (b - a) (drop a tail)"
    by (simp add: fragment_of_def fragment_frag_def Let_def)
  have off: "(8 \<le> unat (frag_offset ?f) \<or> (frag_offset ?f = 0 \<and> rdos ?f \<noteq> None)) \<and> unat (frag_offset ?f) - 8 = a"
  proof (cases atomic)
    case True
    then obtain q where "ranges = [q]" using atomic by (auto simp: length_Suc_conv)
    then have "a = 0" "tm" using t rng by auto
    then show ?thesis using True by (simp add: fragment_of_def fragment_frag_def Let_def)
  next
    case False
    have "unat (word_of_nat (8 + a) :: u16) = 8 + a" using bnd len by (intro unat_of_nat_u16) linarith
    then show ?thesis using False by (simp add: fragment_of_def fragment_frag_def Let_def del: of_nat_add)
  qed
  have "length (take (b - a) (drop a tail)) = b - a" using bnd by (auto simp: min_def)
  moreover have "unat (frag_offset ?f) + (b - a) \<le> usize_max"
    using off bnd len u16_max_less_usize_max unat_u16_le_max [of "frag_offset ?f"] by (auto simp: u16_max_def usize_max_def)
  ultimately have "normalized_new ?f (length (take (b - a) (drop a tail))) =
      Some \<lparr>nf_start = a, nf_end = b, nf_udp_length = rdos ?f\<rparr>"
    using off bnd normalized_new_eq [of ?f "b - a"] by simp
  then show ?thesis
    using data by (simp add: arrives_def fragment_arrival_def Let_def range_piece_def)
      (simp add: fragment_frag_def fragment_of_def Let_def)
qed

lemma mset_map_split: "mset ys = mset (map f xs) \<Longrightarrow> \<exists>zs. mset zs = mset xs \<and> ys = map f zs"
proof (induction ys arbitrary: xs)
  case (Cons y ys)
  have "y \<in> set (map f xs)" using mset_eq_setD [OF Cons.prems] by auto
  then obtain x where x: "x \<in> set xs" "y = f x" by auto
  have "mset ys = mset (map f (remove1 x xs))"
    using arg_cong [OF Cons.prems, of "\<lambda>m. m - {#y#}"] x by (simp add: image_mset_Diff)
  then obtain zs where "mset zs = mset (remove1 x xs)" "ys = map f zs" using Cons.IH by blast
  then show ?case using x by (intro exI [of _ "x # zs"]) auto
qed simp

lemma split_feed:
  assumes split: "split_datagram payload body config = Ok frs"
    and perm: "mset (map fst xs) = mset frs" and inv: "cache_inv c"
    and new: "hm_get (partials c) key = None" and pending: "hm_len (partials c) < lim_max_pending_partials (cache_limits c)"
    and fit: "8 + length (reassembled_tail payload body) \<le> lim_max_reassembled_size (cache_limits c)"
      "length frs \<le> lim_max_segments (cache_limits c)"
    and times: "\<forall>(fr, proc, now) \<in> set xs. now - snd (snd (hd xs)) < min (lim_timeout (cache_limits c)) REASSEMBLY_TIMEOUT_MAX"
  shows "\<exists>r c'. (feed c key (map (\<lambda>(fr, proc, now). fragment_arrival (split_identification config) fr proc now) xs)
      :: (_, 'e) res) = Ok (replicate (length frs - 1) Incomplete @ [Complete r], c')
    \<and> c_tail r = reassembled_tail payload body \<and> unat (c_udp_length r) = 8 + length payload
    \<and> hm_get (partials c') key = None"
proof -
  define tail where "tail = reassembled_tail payload body"
  let ?id = "split_identification config"
  obtain r ranges where r: "unat r = 8 + length payload" and sr: "split_ranges config (length tail) ranges"
    and frs: "frs = map (fragment_of tail (length ranges = 1) r ?id) ranges"
    using split_datagram_Ok [OF split] unfolding tail_def .
  have t: "tiles (max_fragment_surplus_len config - 14) (max_fragment_surplus_len config - 12) 0 (length tail) ranges"
    and len: "8 + length tail \<le> u16_max"
    using sr order_trans [OF _ unat_u16_le_max [of "peer_max_reassembled_size (peer config)"]]
    by (auto simp: split_ranges_def)
  have u: "8 \<le> unat r" "unat r \<le> 8 + length tail" using r by (auto simp: tail_def reassembled_tail_def Let_def)
  obtain zs where zs: "mset zs = mset ranges" "map fst xs = map (fragment_of tail (length ranges = 1) r ?id) zs"
    using mset_map_split [OF perm [unfolded frs]] by blast
  let ?F = "map (range_piece tail r undefined) ranges"
  let ?R = "map2 (\<lambda>z (fr, proc, now). range_piece tail r proc z) zs xs"
  let ?as = "map (\<lambda>(fr, proc, now). fragment_arrival ?id fr proc now) xs"
  have lens: "length zs = length xs" "length zs = length ranges"
    using zs by (metis length_map, metis size_mset)
  have "map pair_of ?R = map (\<lambda>z. pair_of (range_piece tail r undefined z)) zs"
    using lens(1) by (intro nth_equalityI) (auto simp: range_piece_def split: prod.splits)
  then have "mset (map pair_of ?R) = mset (map pair_of ?F)" using zs(1) by (simp add: comp_def)
  then have fam: "family tail r ?R" by (rule family_mset [OF tiles_family [OF t u]])
  have arr: "list_all2 arrives ?as ?R"
  proof (rule list_all2_all_nthI)
    fix i assume i: "i < length ?as"
    obtain fr proc now where x: "xs ! i = (fr, proc, now)" by (cases "xs ! i")
    have "zs ! i \<in> set ranges" using i lens zs(1) by (metis length_map mset_eq_setD nth_mem)
    moreover have "fr = fragment_of tail (length ranges = 1) r ?id (zs ! i)"
      using arg_cong [OF zs(2), of "\<lambda>l. l ! i"] i lens x by simp
    ultimately show "arrives (?as ! i) (?R ! i)"
      using fragment_of_arrives [OF t _ refl len] i lens x by simp
  qed (use lens in simp)
  have "length ranges < 256"
    using sr unat_byte_less [of "peer_max_segments (peer config)"] unfolding split_ranges_def by linarith
  then have room: "room_for (cache_limits c) tail ?R"
    using fit len lens u16_max_less_usize_max by (auto simp: room_for_def tail_def frs usize_max_def)
  have "xs \<noteq> []" using lens tiles_last [OF t] by auto
  then have "\<forall>a \<in> set ?as. arrival_time a - arrival_time (hd ?as) < min (lim_timeout (cache_limits c)) REASSEMBLY_TIMEOUT_MAX"
    using times by (cases xs) (auto simp: arrival_time_def fragment_arrival_def Let_def)
  from feed_family [OF fam room inv new pending arr this] show ?thesis
    using r lens by (auto simp: tail_def frs)
qed

section \<open>Properties\<close>

text \<open>
  C6: Reassembly inverts splitting in any order: the fragments of a split datagram, given to a cache that has room for
  them in any order and at any times within the timeout, are all accepted; every one but the last leaves
  the reassembly incomplete and the last completes it with exactly the tail that was split and the UDP
  length of the original, and the cache forgets the key.
\<close>

theorem reassembly_inverts_split:
  assumes "split_datagram payload body config = Ok frs" and "mset (map fst xs) = mset frs" and "cache_inv c"
    and "hm_get (partials c) key = None" and "hm_len (partials c) < lim_max_pending_partials (cache_limits c)"
    and "8 + length (reassembled_tail payload body) \<le> lim_max_reassembled_size (cache_limits c)"
    and "length frs \<le> lim_max_segments (cache_limits c)"
    and "\<forall>(fr, proc, now) \<in> set xs. now - snd (snd (hd xs)) < min (lim_timeout (cache_limits c)) REASSEMBLY_TIMEOUT_MAX"
  shows "\<exists>r c'. (feed c key (map (\<lambda>(fr, proc, now). fragment_arrival (split_identification config) fr proc now) xs)
      :: (_, 'e) res) = Ok (replicate (length frs - 1) Incomplete @ [Complete r], c')
    \<and> c_tail r = reassembled_tail payload body \<and> unat (c_udp_length r) = 8 + length payload
    \<and> hm_get (partials c') key = None"
  using assms by (rule split_feed)

theorem reassembly_inverts_split_witness:
  "\<exists>f1 f2 r c'. split_datagram [1, 2, 3] [] \<lparr>max_fragment_surplus_len = 15,
       peer = \<lparr>peer_max_reassembled_size = 1500, peer_max_segments = 4\<rparr>, split_identification = 9\<rparr> = Ok [f1, f2]
    \<and> (feed cache_new
         \<lparr>key_src = Ipv4Addr 10 0 0 1, key_dst = Ipv4Addr 10 0 0 2, key_src_port = 1, key_dst_port = 2, key_identification = 9\<rparr>
         [fragment_arrival 9 f2 \<lparr>fp_options = [], fp_option_failures = [], fp_ocs_nonzero = None\<rparr> 3,
          fragment_arrival 9 f1 \<lparr>fp_options = [], fp_option_failures = [], fp_ocs_nonzero = None\<rparr> 5] :: (_, unit) res) =
        Ok ([Incomplete, Complete r], c') \<and> c_tail r = [1, 2, 3]"
proof -
  let ?c = "\<lparr>max_fragment_surplus_len = 15, peer = \<lparr>peer_max_reassembled_size = 1500, peer_max_segments = 4\<rparr>,
       split_identification = 9\<rparr> :: split_config"
  let ?key = "\<lparr>key_src = Ipv4Addr 10 0 0 1, key_dst = Ipv4Addr 10 0 0 2, key_src_port = 1, key_dst_port = 2, key_identification = 9\<rparr>"
  let ?proc = "\<lparr>fp_options = [], fp_option_failures = [], fp_ocs_nonzero = None\<rparr> :: fragment_processing"
  have "split_fits [1, 2, 3] [] ?c"
    by (simp add: split_fits_def reassembled_tail_def chunks_needed_def FRAGMENT_SURPLUS_LEN_MAX_def
        IPV4_HEADER_LEN_def u16_max_def length_defs)
  then obtain frs where f: "split_datagram [1, 2, 3] [] ?c = Ok frs" using split_datagram_fits by blast
  then have "length frs = 2"
    using split_datagram_Ok_fits(2) [OF f] by (simp add: reassembled_tail_def chunks_needed_def)
  then obtain f1 f2 where frs: "frs = [f1, f2]" by (auto simp: length_Suc_conv numeral_2_eq_2)
  have "\<exists>r c'. (feed cache_new ?key (map (\<lambda>(fr, proc, now). fragment_arrival (split_identification ?c) fr proc now)
        [(f2, ?proc, 3), (f1, ?proc, 5)]) :: (_, unit) res) =
        Ok (replicate (length frs - 1) Incomplete @ [Complete r], c')
    \<and> c_tail r = reassembled_tail [1, 2, 3] [] \<and> unat (c_udp_length r) = 8 + length [1 :: byte, 2, 3]
    \<and> hm_get (partials c') ?key = None"
    by (rule reassembly_inverts_split [OF f])
      (simp_all add: frs cache_new_def cache_inv_with_limits, simp_all add: cache_with_limits_def default_limits_def hm_new_def
        hm_get_def hm_len_def reassembled_tail_def MRDS_DEFAULT_IPV4_def MIN_REASSEMBLY_SEGMENTS_def REASSEMBLY_TIMEOUT_MAX_def
        REASSEMBLY_MAX_PENDING_PARTIALS_def)
  then show ?thesis using f by (auto simp: frs reassembled_tail_def)
qed

end
