(* ===== verification/End_To_End.thy ===== *)
theory End_To_End
  imports Api Option_Delivery Frag_Roundtrip
begin

text \<open>
  From the send call of one peer to the delivery at the other: what \<open>build_datagram\<close> and
  \<open>build_outgoing_datagrams\<close> produce (\<open>src/api/mod.rs\<close>), the receive pipeline
  (\<open>src/recv/pipeline.rs\<close>) delivers unchanged, in one datagram or in fragments that arrive in any
  order.
\<close>

section \<open>One datagram\<close>

lemma written_options_plain:
  assumes "\<forall>opt \<in> set opts. to_byte (opt_kind opt) \<noteq> kind_FRAG"
  shows "written_options opts = sort_canonical opts"
proof -
  have "map (patched start) (sort_canonical opts) = map id (sort_canonical opts)" for start
    using assms by (intro map_cong) (auto simp: patched_def)
  then show ?thesis by (simp add: written_options_def Let_def)
qed

lemma distinct_reportable_sorted:
  "distinct (reportable_bytes opts) \<Longrightarrow> distinct (reportable_bytes (sort_canonical opts))"
proof -
  have "mset (reportable_bytes (sort_canonical opts)) = mset (reportable_bytes opts)"
    by (simp add: reportable_bytes_def sort_canonical_def mset_filter)
  then show "distinct (reportable_bytes opts) \<Longrightarrow> distinct (reportable_bytes (sort_canonical opts))"
    using mset_eq_imp_distinct_iff by blast
qed

text \<open>What the pipeline delivers for a payload and its options, in canonical order.\<close>

definition delivered_payload :: "(bytes \<Rightarrow> u32) \<Rightarrow> bytes \<Rightarrow> raw_option list \<Rightarrow> ocs_status \<Rightarrow> payload" where
  "delivered_payload crc payload opts status =
     (if opts = [] then
        \<lparr>pl_data = payload, pl_options = [], pl_option_bearing = False, pl_reports = [],
         pl_ocs_reports = datagram_ocs OcsAbsent\<rparr>
      else
        \<lparr>pl_data = payload, pl_options = delivered_options crc payload (sort_canonical opts),
         pl_option_bearing = True, pl_reports = delivered_reports crc payload (sort_canonical opts),
         pl_ocs_reports = datagram_ocs status\<rparr>)"

definition sendable :: "raw_option list \<Rightarrow> bool" where
  "sendable opts \<longleftrightarrow> (\<forall>opt \<in> set opts. plain_option opt) \<and> distinct (reportable_bytes opts)"

lemma parse_options_sendable:
  assumes "sendable opts"
  shows "parse_options crc (drop 2 (canonical_body (written_options opts))) user_data offset =
    Ok \<lparr>po_options = delivered_options crc user_data (sort_canonical opts),
        po_reports = delivered_reports crc user_data (sort_canonical opts),
        po_frag = None, po_unsupported_unsafe_seen = False, po_fragment_failed = False\<rparr>"
  using assms
  by (subst written_options_plain)
    (auto simp: sendable_def plain_option_def distinct_reportable_sorted intro!: parse_options_plain)

lemma process_once_plain:
  assumes "wire_ok ip udp payload []"
  shows "process_once crc (wire_datagram ip udp payload []) c now allowed =
    (Ok (Done (Payload (delivered_payload crc payload [] status))), c)"
  by (simp add: process_once_def recv_headers_written [OF assms] recv_surplus_none [OF assms] delivered_payload_def
      deliver_without_options_def) (simp add: wire_headers_def)

lemma process_once_options:
  assumes "sendable opts" and "opts \<noteq> []"
    and wire: "wire_ok ip udp payload (surplus_bytes payload ocs (drop 2 (canonical_body (written_options opts))))"
    and verdict: "ocs_disposition ocs
        (ocs_value (drop 2 (canonical_body (written_options opts)))
           (word_of_nat (length (surplus_bytes payload ocs (drop 2 (canonical_body (written_options opts)))))))
        (udp_checksum udp) = OptionsAt status"
  shows "process_once crc
      (wire_datagram ip udp payload (surplus_bytes payload ocs (drop 2 (canonical_body (written_options opts))))) c now allowed =
    (Ok (Done (Payload (delivered_payload crc payload opts status))), c)"
  using assms(2) recv_surplus_written [OF wire, unfolded verdict]
  by (simp add: process_once_def recv_headers_written [OF wire] parse_options_sendable [OF assms(1)]
      process_parsed_def delivered_payload_def) (simp add: wire_headers_def)

lemma process_assembled:
  assumes "sendable opts" and "assembled_len payload (body_of opts) \<le> u16_max"
  shows "process_datagram crc (addressed addrs payload (body_of opts)) c now =
    (Ok (Payload (delivered_payload crc payload opts OcsValid)), c)"
proof -
  let ?body = "body_of opts"
  let ?ip = "assembled_ip (addr_src addrs) (addr_dst addrs) payload ?body"
  let ?udp = "assembled_udp ?ip (addr_src_port addrs) (addr_dst_port addrs) payload"
  have d: "addressed addrs payload ?body = wire_datagram ?ip ?udp payload (surplus_of payload ?body)"
    by (simp add: addressed_def assembled_def Let_def)
  have wire: "wire_ok ?ip ?udp payload (surplus_of payload ?body)"
    using assembled_wire_ok [OF _ assms(2)] body_ok_body_of [of opts] by (simp add: body_ok_def Let_def)
  have "process_once crc (addressed addrs payload ?body) c now True =
      (Ok (Done (Payload (delivered_payload crc payload opts OcsValid))), c)"
  proof (cases "opts = []")
    case True
    then have "surplus_of payload ?body = []" by (simp add: body_of_def surplus_of_def)
    then show ?thesis using process_once_plain wire unfolding d by (simp add: True)
  next
    case False
    let ?os = "drop 2 (canonical_body (written_options opts))"
    have len: "2 + length ?os = length (canonical_body (written_options opts))"
      by (simp add: canonical_body_def Let_def)
    define ocs where "ocs = ocs_value ?os (word_of_nat (of_bool (odd (length payload)) + length ?body))"
    have s: "surplus_of payload ?body = surplus_bytes payload ocs ?os"
      using False by (simp add: surplus_of_def body_of_def ocs_def canonical_body_def Let_def)
    have n: "length (surplus_bytes payload ocs ?os) = of_bool (odd (length payload)) + length ?body"
      using False len by (simp add: body_of_def)
    have "ocs \<noteq> 0" by (simp add: ocs_def)
    then have "ocs_disposition ocs (ocs_value ?os (word_of_nat (length (surplus_bytes payload ocs ?os)))) u = OptionsAt OcsValid" for u
      unfolding n ocs_def [symmetric] by (simp add: ocs_disposition_def fun_eq_iff)
    from process_once_options [OF assms(1) False wire [unfolded s] this] show ?thesis unfolding d s .
  qed
  then show ?thesis by (simp add: process_datagram_unfold)
qed

section \<open>What a send may contain\<close>

lemma distinct_reportable_iff:
  "distinct (reportable_bytes opts) \<longleftrightarrow>
     \<not> (\<exists>k. is_high_level_unique_kind k \<and> count_list (map (\<lambda>opt. to_byte (opt_kind opt)) opts) k \<ge> 2)"
proof -
  have k: "is_high_level_unique_kind b \<longleftrightarrow> reportable (from_byte b)" for b
    by (simp add: is_high_level_unique_kind_def reportable_from_byte)
  have "count_list (reportable_bytes opts) b =
      (if reportable (from_byte b) then count_list (map (\<lambda>opt. to_byte (opt_kind opt)) opts) b else 0)" for b
    by (simp add: reportable_bytes_def count_list_mset mset_filter)
  then show ?thesis by (auto simp: distinct_iff_count k not_le)
qed

lemma frag_free_plain:
  "valid_options opts \<Longrightarrow> \<not> raw_options_contain_kind opts kind_FRAG \<Longrightarrow> \<forall>opt \<in> set opts. plain_option opt"
  by (auto simp: valid_options_def raw_options_contain_kind_def plain_option_def)

lemma sent_options_sendable:
  assumes "validate_send_options so = Ok ()" and "options_body crc payload so = Ok body"
  shows "sendable (sent_options crc payload so)"
proof -
  let ?s = "sent_options crc payload so"
  have v: "\<not> raw_options_contain_kind (so_raw_options so) kind_FRAG"
    "so_include_apc so \<Longrightarrow> \<not> raw_options_contain_kind (so_raw_options so) kind_APC"
    "distinct (reportable_bytes (so_raw_options so))"
    using assms(1)
    by (auto simp: validate_send_options_def contains_duplicate_iff distinct_reportable_iff split: if_splits)
  then have "\<not> raw_options_contain_kind ?s kind_FRAG"
    by (auto simp: sent_options_def raw_options_contain_kind_def kind_defs)
  then have "\<forall>opt \<in> set ?s. plain_option opt" by (rule frag_free_plain [OF options_body_Ok(2) [OF assms(2)]])
  moreover have "distinct (reportable_bytes ?s)"
    using v(2,3) by (auto simp: sent_options_def reportable_bytes_def raw_options_contain_kind_def) metis
  ultimately show ?thesis by (simp add: sendable_def)
qed

lemma build_outgoing_sendable:
  assumes "build_outgoing_datagrams crc addrs payload so config = Ok ds"
  shows "sendable (sent_options crc payload so)" and "max_datagram_len config \<le> u16_max"
  using assms
  by (auto simp: build_outgoing_datagrams_def and_then_eq_Ok validate_send_config_Ok_iff intro: sent_options_sendable)

section \<open>Fragments\<close>

definition fragment_key :: "datagram_addrs \<Rightarrow> u32 \<Rightarrow> frag_key" where
  "fragment_key addrs ident =
     \<lparr>key_src = addr_src addrs, key_dst = addr_dst addrs, key_src_port = addr_src_port addrs,
      key_dst_port = addr_dst_port addrs, key_identification = ident\<rparr>"

text \<open>What the pipeline observes on a fragment that carries nothing but FRAG, under a valid OCS.\<close>

definition quiet :: fragment_processing where
  "quiet = \<lparr>fp_options = [], fp_option_failures = [], fp_ocs_nonzero = Some True\<rparr>"

definition outcome_verdict ::
  "ip_repr \<Rightarrow> udp_header \<Rightarrow> reassembly_outcome \<Rightarrow> verdict" where
  "outcome_verdict ip udp out =
     (case out of
        Incomplete \<Rightarrow> Done Buffered
      | Abort reason \<Rightarrow> Done Dropped
      | Complete r \<Rightarrow>
          if 8 \<le> unat (c_udp_length r) \<and> unat (c_udp_length r) \<le> 8 + length (c_tail r) \<and> 28 + length (c_tail r) \<le> u16_max
          then Reprocess (reassembled_bytes ip udp (c_udp_length r) (c_tail r)) r
          else Done Dropped)"

lemma process_fragment_written:
  assumes wire: "wire_ok ip udp [] (surplus_bytes [] ocs (opts @ data))"
    and start: "20 + unat (frag_start f) = 30 + length opts"
    and parsed: "po_options parsed = []" "po_reports parsed = []"
    and ins: "insert_with_options_and_failures c (frag_key_of ip udp f) f data quiet now =
      (Ok (out, c') :: (_, recv_error) res)"
  shows "process_fragment (wire_headers ip udp [] (surplus_bytes [] ocs (opts @ data))) f parsed OcsValid c now =
    (Ok (outcome_verdict ip udp out), c')"
proof -
  let ?d = "wire_datagram ip udp [] (surplus_bytes [] ocs (opts @ data))"
  have total: "unat (total_len ip) = 30 + length opts + length data" using wire by (simp add: wire_ok_def)
  have "?d = (ip_header_bytes ip @ udp_header_bytes udp @ u16_to_be_bytes ocs @ opts) @ data"
    by (simp add: wire_datagram_def surplus_bytes_def)
  then have "drop (20 + unat (frag_start f)) ?d = data" using start by simp
  moreover have "20 + unat (frag_start f) \<le> unat (total_len ip)" "unat (total_len ip) - (20 + unat (frag_start f)) = length data"
    using start total by simp_all
  moreover have "unat (total_len ip) = length ?d" using total by simp
  ultimately show ?thesis
    using ins parsed unfolding quiet_def
    by (auto simp: process_fragment_def wire_headers_def fragment_option_failures_def Let_def
        reassembled_datagram_eq outcome_verdict_def split: reassembly_outcome.split)
qed

lemma process_once_fragment:
  fixes f :: frag
  assumes f: "f = fragment_frag ident off r" and body: "body = fragment_options_body ident off r @ data"
    and len: "assembled_len [] body \<le> u16_max"
    and ins: "insert_with_options_and_failures c (fragment_key addrs ident) f data quiet now =
      (Ok (out, c') :: (_, recv_error) res)"
  defines "ip \<equiv> assembled_ip (addr_src addrs) (addr_dst addrs) [] body"
  defines "udp \<equiv> assembled_udp ip (addr_src_port addrs) (addr_dst_port addrs) []"
  shows "process_once crc (addressed addrs [] body) c now True = (Ok (outcome_verdict ip udp out), c')"
proof -
  let ?o = "\<lparr>opt_kind = Frag, opt_value = frag_wire_value f\<rparr>"
  let ?os = "option_bytes ?o @ data"
  have b: "body = [0, 0] @ ?os" by (simp add: body f fragment_options_body_eq)
  have ok: "body = [] \<or> 2 \<le> length body" by (simp add: b)
  define ocs where "ocs = ocs_value ?os (word_of_nat (length body))"
  have s: "surplus_of [] body = surplus_bytes [] ocs ?os" by (simp add: surplus_of_def b ocs_def)
  have d: "addressed addrs [] body = wire_datagram ip udp [] (surplus_bytes [] ocs ?os)"
    by (simp add: addressed_def assembled_def Let_def ip_def udp_def s)
  have wire: "wire_ok ip udp [] (surplus_bytes [] ocs ?os)"
    using assembled_wire_ok [OF ok len] by (simp add: Let_def ip_def udp_def s)
  have "length (surplus_bytes [] ocs ?os) = length body" by (simp add: b)
  then have "recv_surplus (wire_headers ip udp [] (surplus_bytes [] ocs ?os)) = Ok (OptionsAt OcsValid ?os 10)"
    using recv_surplus_written [OF wire] by (simp add: ocs_disposition_def ocs_def)
  moreover have flen: "length (option_bytes ?o) = unat (frag_start f) - 10" "unat (frag_start f) \<in> {20, 22}"
    by (auto simp: f fragment_frag_def frag_wire_value_def encoded_len_def DEFAULT_VALUE_LEN_MAX_def split: option.split)
  moreover have "parse_options crc ?os [] 10 =
      Ok \<lparr>po_options = [], po_reports = [], po_frag = Some f, po_unsupported_unsafe_seen = False, po_fragment_failed = False\<rparr>"
    using flen by (intro parse_options_fragment) auto
  moreover have "process_fragment (wire_headers ip udp [] (surplus_bytes [] ocs ?os)) f
      \<lparr>po_options = [], po_reports = [], po_frag = Some f, po_unsupported_unsafe_seen = False, po_fragment_failed = False\<rparr>
      OcsValid c now = (Ok (outcome_verdict ip udp out), c')"
    using flen ins
    by (intro process_fragment_written [OF wire])
      (auto simp: frag_key_of_def fragment_key_def ip_def udp_def f fragment_frag_def simp del: length_option_bytes)
  ultimately show ?thesis
    unfolding d by (simp add: process_once_def recv_headers_written [OF wire] process_parsed_def wire_headers_def)
qed

text \<open>Nothing but OCS observations accumulates over quiet fragments.\<close>

definition quiet_partial :: "partial \<Rightarrow> bool" where
  "quiet_partial p \<longleftrightarrow>
     p_fragment_options p = fragment_options_default \<and> p_fragment_option_failures p = [] \<and> p_fragment_ocs_nonzero p \<noteq> None"

definition quiet_completed :: "completed \<Rightarrow> bool" where
  "quiet_completed r \<longleftrightarrow>
     c_fragment_options r = [] \<and> c_fragment_option_failures r = [] \<and> c_fragment_ocs_nonzero r = Some True"

definition quiet_cache :: "reassembly_cache \<Rightarrow> frag_key \<Rightarrow> bool" where
  "quiet_cache c key \<longleftrightarrow> (\<forall>p. hm_get (partials c) key = Some p \<longrightarrow> quiet_partial p)"

lemma quiet_partial_new: "quiet_partial (partial_new now)"
  by (simp add: quiet_partial_def partial_new_def)

lemma observe_terminal_quiet:
  "observe_terminal p f data opts failures = (ok, p1) \<Longrightarrow>
     p_fragment_options p1 = p_fragment_options p \<and> p_fragment_option_failures p1 = p_fragment_option_failures p
     \<and> p_fragment_ocs_nonzero p1 = p_fragment_ocs_nonzero p"
  by (auto simp: observe_terminal_def Let_def split: option.splits if_splits)

lemma quiet_accepted:
  assumes "quiet_partial p"
  shows "quiet_partial (accepted p f data [] [] (Some True))"
    and "p_fragment_ocs_nonzero (accepted p f data [] [] (Some True)) = Some True"
  using assms
  by (auto simp: quiet_partial_def accepted_def Let_def observe_fragment_ocs_def observe_options_def split: option.split)

lemma cursor_loop_not_complete: "cursor_loop cursor ss \<noteq> Inl (InsertComplete r)"
  by (induction cursor ss rule: cursor_loop.induct) auto

lemma quiet_complete:
  assumes "quiet_partial p" and "p_fragment_ocs_nonzero p = Some True" and "complete p = InsertComplete r"
  shows "quiet_completed r"
  using assms
  by (auto simp: complete_def quiet_completed_def quiet_partial_def to_raw_options_def fragment_options_default_def
      cursor_loop_not_complete split: option.splits sum.splits if_splits)

lemma quiet_insert:
  assumes "quiet_partial p" and "partial_insert p f data [] [] (Some True) lim = (r, p')"
  shows "(\<nexists>reason. r = InsertAbort reason) \<Longrightarrow> quiet_partial p'"
    and "r = InsertComplete x \<Longrightarrow> quiet_completed x"
  using assms(2)
proof (atomize (full), cases rule: partial_insert_cases)
  case duplicate
  then show "((\<nexists>reason. r = InsertAbort reason) \<longrightarrow> quiet_partial p') \<and> (r = InsertComplete x \<longrightarrow> quiet_completed x)"
    using assms(1) by (auto simp: quiet_partial_def observe_fragment_ocs_def)
next
  case (accept p1)
  have "quiet_partial p1" using assms(1) observe_terminal_quiet [OF accept(1)] by (simp add: quiet_partial_def)
  from quiet_accepted [OF this] quiet_complete accept(2,3)
  show "((\<nexists>reason. r = InsertAbort reason) \<longrightarrow> quiet_partial p') \<and> (r = InsertComplete x \<longrightarrow> quiet_completed x)"
    by metis
qed simp

lemma quiet_cache_gc:
  assumes "cache_inv c" and "quiet_cache c key"
  shows "quiet_cache (cache_gc c now) key"
  using assms by (auto simp: quiet_cache_def hm_get_gc cache_inv_wf split: option.splits if_splits)

lemma insert_quiet:
  assumes inv: "cache_inv c" and q: "quiet_cache c key"
    and ins: "insert_with_options_and_failures c key f data quiet now = (Ok (out, c') :: (_, 'e) res)"
  shows "quiet_cache c' key \<and> (\<forall>r. out = Complete r \<longrightarrow> quiet_completed r)"
  using inv ins
proof (cases rule: insert_cases)
  case (dropped reason)
  then show ?thesis
    using cache_inv_wf [OF cache_inv_gc [OF inv]] by (simp add: quiet_cache_def hm.get_remove)
next
  case (unretained nf p)
  then show ?thesis
    using quiet_insert(2) [OF quiet_partial_new] by (auto simp: quiet_cache_def quiet_def)
next
  case (inserted nf r p)
  have "quiet_partial (partial_of (cache_gc c now) key now)"
    using quiet_cache_gc [OF inv q, of now] quiet_partial_new
    by (auto simp: partial_of_def quiet_cache_def split: option.split)
  note p = quiet_insert [OF this inserted(4) [unfolded quiet_def, simplified]]
  have wf: "hm_wf (partials (cache_gc c now))" by (rule cache_inv_wf [OF cache_inv_gc [OF inv]])
  show ?thesis
    using inserted(5) p wf
    by (cases r) (auto simp: store_result_def quiet_cache_def hm_get_insert_same hm.get_remove)
qed

section \<open>The reassembled datagram\<close>

lemma reassembled_tail_split:
  "take (length payload) (reassembled_tail payload (body_of opts)) = payload"
  "drop (length payload) (reassembled_tail payload (body_of opts)) =
     (if opts = [] then [] else surplus_bytes payload 0 (drop 2 (canonical_body (written_options opts))))"
  by (auto simp: reassembled_tail_def body_of_def surplus_bytes_def rdos_needs_options_pad_def mod_2_odd
      canonical_body_def u16_to_be_bytes_def Let_def)

lemma process_reassembled:
  assumes "sendable opts" and "c_tail r = reassembled_tail payload (body_of opts)"
    and "unat (c_udp_length r) = 8 + length payload" and "28 + length (c_tail r) \<le> u16_max"
  shows "process_once crc (reassembled_bytes ip udp (c_udp_length r) (c_tail r)) c now False =
    (Ok (Done (Payload (delivered_payload crc payload opts OcsUnused))), c)"
proof -
  let ?surplus = "if opts = [] then [] else surplus_bytes payload 0 (drop 2 (canonical_body (written_options opts)))"
  have n: "unat (c_udp_length r) - 8 = length payload" using assms(3) by simp
  have "length payload \<le> length (c_tail r)" using assms(2) by (simp add: reassembled_tail_def Let_def)
  then obtain rip rudp where d: "reassembled_bytes ip udp (c_udp_length r) (c_tail r) = wire_datagram rip rudp payload ?surplus"
    and wire: "wire_ok rip rudp payload ?surplus" and cs: "udp_checksum rudp = 0"
    using reassembled_wire [OF _ _ assms(4), of "c_udp_length r" ip udp] assms(3)
    unfolding n assms(2) reassembled_tail_split by auto
  show ?thesis
  proof (cases "opts = []")
    case True
    then show ?thesis using process_once_plain wire by (simp add: d)
  next
    case False
    then show ?thesis
      using process_once_options [OF assms(1) False, of rip rudp payload 0 OcsUnused] wire cs
      by (simp add: d ocs_disposition_def fun_eq_iff)
  qed
qed

section \<open>Receiving the fragments of one send\<close>

text \<open>Datagrams with their arrival times, one after the other through one cache.\<close>

fun receive_all ::
  "(bytes \<Rightarrow> u32) \<Rightarrow> reassembly_cache \<Rightarrow> (bytes \<times> instant) list
     \<Rightarrow> (delivery, recv_error) res list \<times> reassembly_cache" where
  "receive_all crc c [] = ([], c)"
| "receive_all crc c ((d, now) # xs) =
     (case process_datagram crc d c now of
        (r, c) \<Rightarrow> (case receive_all crc c xs of (rs, c) \<Rightarrow> (r # rs, c)))"

definition fragment_payload :: "(bytes \<Rightarrow> u32) \<Rightarrow> bytes \<Rightarrow> raw_option list \<Rightarrow> payload" where
  "fragment_payload crc payload opts =
     (let p = delivered_payload crc payload opts OcsUnused in
      p\<lparr>pl_ocs_reports := \<lparr>ocs_rep_status = OcsValid, ocs_rep_source = FragmentSet\<rparr> # pl_ocs_reports p\<rparr>)"

text \<open>
  The last delivery of a fragmented send: a reassembled datagram that would exceed the IPv4 Total Length is
  dropped.
\<close>

definition fragment_delivery :: "(bytes \<Rightarrow> u32) \<Rightarrow> bytes \<Rightarrow> raw_option list \<Rightarrow> delivery" where
  "fragment_delivery crc payload opts =
     (if 28 + length (reassembled_tail payload (body_of opts)) \<le> u16_max
      then Payload (fragment_payload crc payload opts) else Dropped)"

definition good_fragment :: "u32 \<Rightarrow> fragment \<Rightarrow> bool" where
  "good_fragment ident fr \<longleftrightarrow>
     (\<exists>data. fr_surplus_body fr = fragment_options_body ident (fr_frag_offset fr) (fr_rdos fr) @ data)
     \<and> assembled_len [] (fr_surplus_body fr) \<le> u16_max"

lemma merge_quiet:
  assumes "quiet_completed r"
  shows "merge_delivery r (Payload (delivered_payload crc payload opts OcsUnused)) =
    Payload (fragment_payload crc payload opts)"
  using assms
  by (simp add: merge_delivery_def quiet_completed_def merge_fragment_options_def merge_fragment_reports_def
      fragment_set_ocs_def fragment_payload_def Let_def delivered_payload_def)

lemma process_good_fragment:
  assumes "good_fragment ident fr"
    and "fragment_arrival ident fr quiet now = (f, data, quiet, now)"
    and "insert_with_options_and_failures c (fragment_key addrs ident) f data quiet now =
      (Ok (out, c') :: (_, recv_error) res)"
  shows "\<exists>ip udp. process_once crc (addressed addrs [] (fr_surplus_body fr)) c now True =
    (Ok (outcome_verdict ip udp out), c')"
proof -
  obtain chunk where body: "fr_surplus_body fr = fragment_options_body ident (fr_frag_offset fr) (fr_rdos fr) @ chunk"
    and len: "assembled_len [] (fr_surplus_body fr) \<le> u16_max"
    using assms(1) by (auto simp: good_fragment_def)
  have f: "f = fragment_frag ident (fr_frag_offset fr) (fr_rdos fr)" and "data = chunk"
    using assms(2) by (auto simp: fragment_arrival_def Let_def body fragment_frag_def split: if_splits)
  then show ?thesis using process_once_fragment [OF f body len] assms(3) by blast
qed

lemma receive_fragments:
  assumes "\<forall>(fr, now) \<in> set xs. good_fragment ident fr" and "cache_inv c" and "quiet_cache c (fragment_key addrs ident)"
    and "feed c (fragment_key addrs ident) (map (\<lambda>(fr, now). fragment_arrival ident fr quiet now) xs) =
      (Ok (replicate (length xs - 1) Incomplete @ [Complete r], c') :: (_, recv_error) res)"
    and "xs \<noteq> []" and "sendable opts" and "c_tail r = reassembled_tail payload (body_of opts)"
    and "unat (c_udp_length r) = 8 + length payload"
  shows "receive_all crc c (map (\<lambda>(fr, now). (addressed addrs [] (fr_surplus_body fr), now)) xs) =
    (replicate (length xs - 1) (Ok Buffered) @ [Ok (fragment_delivery crc payload opts)], c')"
  using assms(1-5)
proof (induction xs arbitrary: c)
  case (Cons x xs)
  let ?key = "fragment_key addrs ident"
  obtain fr now where x: "x = (fr, now)" by (cases x)
  obtain f data where a: "fragment_arrival ident fr quiet now = (f, data, quiet, now)"
    by (simp add: fragment_arrival_def Let_def)
  obtain out c1 outs where ins: "insert_with_options_and_failures c ?key f data quiet now = (Ok (out, c1) :: (_, recv_error) res)"
    and rest: "feed c1 ?key (map (\<lambda>(fr, now). fragment_arrival ident fr quiet now) xs) = (Ok (outs, c') :: (_, recv_error) res)"
    and outs: "out # outs = replicate (length xs) Incomplete @ [Complete r]"
    using Cons.prems(4) by (auto simp: x a and_then_eq_Ok)
  note q = insert_quiet [OF Cons.prems(2,3) ins]
  obtain ip udp where once: "process_once crc (addressed addrs [] (fr_surplus_body fr)) c now True =
      (Ok (outcome_verdict ip udp out), c1)"
    using process_good_fragment [OF _ a ins, of crc] Cons.prems(1) x by auto
  show ?case
  proof (cases "xs = []")
    case True
    then have "out = Complete r" "c1 = c'" using outs rest by auto
    then have "process_datagram crc (addressed addrs [] (fr_surplus_body fr)) c now =
        (Ok (fragment_delivery crc payload opts), c')"
    proof (cases "28 + length (c_tail r) \<le> u16_max")
      case True
      have "unat (c_udp_length r) \<le> 8 + length (c_tail r)"
        using assms(7,8) by (simp add: reassembled_tail_def Let_def)
      then show ?thesis
        using \<open>out = Complete r\<close> \<open>c1 = c'\<close> once q assms(7,8) True merge_quiet
          process_reassembled [OF assms(6,7,8) True, of crc ip udp c' now]
        by (simp add: process_datagram_unfold outcome_verdict_def fragment_delivery_def)
    next
      case False
      then show ?thesis
        using \<open>out = Complete r\<close> \<open>c1 = c'\<close> once assms(7)
        by (simp add: process_datagram_unfold outcome_verdict_def fragment_delivery_def)
    qed
    then show ?thesis by (simp add: True x)
  next
    case False
    then have o: "out = Incomplete" "outs = replicate (length xs - 1) Incomplete @ [Complete r]"
      using outs by (cases xs; simp)+
    then have "process_datagram crc (addressed addrs [] (fr_surplus_body fr)) c now = (Ok Buffered, c1)"
      using once by (simp add: process_datagram_unfold outcome_verdict_def)
    moreover have "receive_all crc c1 (map (\<lambda>(fr, now). (addressed addrs [] (fr_surplus_body fr), now)) xs) =
        (replicate (length xs - 1) (Ok Buffered) @ [Ok (fragment_delivery crc payload opts)], c')"
      using Cons.prems(1) cache_inv_step(1) [OF Cons.prems(2) ins] q rest o(2) False by (intro Cons.IH) auto
    ultimately show ?thesis using False by (cases xs) (simp_all add: x)
  qed
qed simp

lemma split_datagram_nonempty:
  assumes "split_datagram payload body config = Ok frs"
  shows "frs \<noteq> []"
  using assms by (rule split_datagram_Ok) (auto simp: split_ranges_def)

lemma split_good_fragment:
  assumes "split_datagram payload body (split_config_of config ident) = Ok frs" and "fr \<in> set frs"
    and "28 \<le> max_datagram_len config" and "max_datagram_len config \<le> u16_max"
  shows "good_fragment ident fr"
proof -
  obtain r ranges where "frs = map (fragment_of (reassembled_tail payload body) (length ranges = 1) r ident) ranges"
    using split_datagram_Ok [OF assms(1)] by (metis split_config.select_convs(3) split_config_of_def)
  moreover have "length (fr_surplus_body fr) + 28 \<le> u16_max"
    using fragment_body_ok(2) [OF assms(1,2)] assms(3,4) by (simp add: split_config_of_def)
  ultimately show ?thesis
    using assms(2) by (auto simp: good_fragment_def fragment_of_def Let_def assembled_len_def)
qed

lemma receive_sent_fragments:
  assumes split: "split_datagram payload (body_of opts) (split_config_of config ident) = Ok frs" and "sendable opts"
    and len: "28 \<le> max_datagram_len config" "max_datagram_len config \<le> u16_max"
    and perm: "mset (map fst xs) = mset (map (\<lambda>fr. addressed addrs [] (fr_surplus_body fr)) frs)" and inv: "cache_inv c"
    and new: "hm_get (partials c) (fragment_key addrs ident) = None"
      "hm_len (partials c) < lim_max_pending_partials (cache_limits c)"
    and fit: "8 + length (reassembled_tail payload (body_of opts)) \<le> lim_max_reassembled_size (cache_limits c)"
      "length frs \<le> lim_max_segments (cache_limits c)"
    and times: "\<forall>(d, now) \<in> set xs. now - snd (hd xs) < min (lim_timeout (cache_limits c)) REASSEMBLY_TIMEOUT_MAX"
  shows "\<exists>c'. receive_all crc c xs =
      (replicate (length frs - 1) (Ok Buffered) @ [Ok (fragment_delivery crc payload opts)], c')
    \<and> hm_get (partials c') (fragment_key addrs ident) = None"
proof -
  let ?d = "\<lambda>fr. addressed addrs [] (fr_surplus_body fr)"
  obtain zs where zs: "mset zs = mset frs" "map fst xs = map ?d zs" using mset_map_split [OF perm] by blast
  define ys where "ys = zip zs (map snd xs)"
  have lens: "length zs = length xs" "length zs = length frs" using zs by (metis length_map, metis size_mset)
  have xs: "xs = map (\<lambda>(fr, now). (?d fr, now)) ys"
    unfolding ys_def using zs(2) lens(1)
    by (intro nth_equalityI) (auto simp: list_eq_iff_nth_eq prod_eq_iff)
  have ys: "map fst ys = zs" "length ys = length frs" using lens by (auto simp: ys_def)
  have ne: "ys \<noteq> []" using split_datagram_nonempty [OF split] ys(2) by auto
  let ?as = "map (\<lambda>(fr, now). (fr, quiet, now)) ys"
  have hd: "snd (snd (hd ?as)) = snd (hd xs)" using ne by (cases ys) (auto simp: xs)
  have "\<exists>r c'. (feed c (fragment_key addrs ident)
        (map (\<lambda>(fr, proc, now). fragment_arrival (split_identification (split_config_of config ident)) fr proc now) ?as)
      :: (_, recv_error) res) = Ok (replicate (length frs - 1) Incomplete @ [Complete r], c')
    \<and> c_tail r = reassembled_tail payload (body_of opts) \<and> unat (c_udp_length r) = 8 + length payload
    \<and> hm_get (partials c') (fragment_key addrs ident) = None"
  proof (rule split_feed [OF split _ inv new fit(1,2)])
    show "mset (map fst ?as) = mset frs" using zs(1) ys(1) by (simp add: comp_def case_prod_unfold)
    show "\<forall>(fr, proc, now) \<in> set ?as. now - snd (snd (hd ?as)) < min (lim_timeout (cache_limits c)) REASSEMBLY_TIMEOUT_MAX"
      unfolding hd using times by (auto simp: xs)
  qed
  then obtain r c' where f: "(feed c (fragment_key addrs ident) (map (\<lambda>(fr, now). fragment_arrival ident fr quiet now) ys)
      :: (_, recv_error) res) = Ok (replicate (length ys - 1) Incomplete @ [Complete r], c')"
    and r: "c_tail r = reassembled_tail payload (body_of opts)" "unat (c_udp_length r) = 8 + length payload"
      "hm_get (partials c') (fragment_key addrs ident) = None"
    by (auto simp: split_config_of_def comp_def case_prod_unfold ys(2))
  have "set zs = set frs" using zs(1) by (rule mset_eq_setD)
  then have "\<forall>(fr, now) \<in> set ys. good_fragment ident fr"
    using split_good_fragment [OF split _ len] ys(1) by (metis (no_types, lifting) case_prodI2 fst_conv image_eqI set_map)
  then have "receive_all crc c xs =
      (replicate (length ys - 1) (Ok Buffered) @ [Ok (fragment_delivery crc payload opts)], c')"
    unfolding xs using f r new(1) assms(2) ne inv
    by (intro receive_fragments) (auto simp: quiet_cache_def)
  then show ?thesis using r(3) ys(2) by simp
qed

section \<open>Decoding what was sent\<close>

lemma addressed_headers:
  assumes "body_ok body" and "assembled_len payload body \<le> u16_max"
  shows "\<exists>h. recv_headers (addressed addrs payload body) = Ok h \<and> rh_user_data h = payload
    \<and> ip_src (rh_ip h) = addr_src addrs \<and> ip_dst (rh_ip h) = addr_dst addrs
    \<and> src_port (rh_udp h) = addr_src_port addrs \<and> dst_port (rh_udp h) = addr_dst_port addrs
    \<and> udp_checksum (rh_udp h) \<noteq> 0"
proof -
  let ?ip = "assembled_ip (addr_src addrs) (addr_dst addrs) payload body"
  let ?udp = "assembled_udp ?ip (addr_src_port addrs) (addr_dst_port addrs) payload"
  have wire: "wire_ok ?ip ?udp payload (surplus_of payload body)"
    using assembled_wire_ok [OF _ assms(2)] assms(1) by (simp add: body_ok_def Let_def)
  have "8 + length payload \<le> u16_max" using assms(2) by (simp add: assembled_len_def split: if_splits)
  from assembled_udp_checksum(2) [OF this] show ?thesis
    using recv_headers_written [OF wire] by (auto simp: addressed_def assembled_def wire_headers_def Let_def)
qed

lemma decode_assembled:
  assumes "sendable opts" and "assembled_len payload (body_of opts) \<le> u16_max"
  shows "decode_datagram crc (addressed addrs payload (body_of opts)) c now rp =
    (Ok (apply_policy rp (delivered_payload crc payload opts OcsValid)), c)"
proof -
  let ?body = "body_of opts"
  let ?ip = "assembled_ip (addr_src addrs) (addr_dst addrs) payload ?body"
  let ?udp = "assembled_udp ?ip (addr_src_port addrs) (addr_dst_port addrs) payload"
  have wire: "wire_ok ?ip ?udp payload (surplus_of payload ?body)"
    using assembled_wire_ok [OF _ assms(2)] body_ok_body_of [of opts] by (simp add: body_ok_def Let_def)
  have h: "recv_headers (addressed addrs payload ?body) = Ok (wire_headers ?ip ?udp payload (surplus_of payload ?body))"
    using recv_headers_written [OF wire] by (simp add: addressed_def assembled_def Let_def)
  have "?body = [] \<or> 2 \<le> length ?body" using body_ok_body_of [of opts] by (simp add: body_ok_def)
  moreover have "?body = [] \<longleftrightarrow> opts = []" by (simp add: body_of_def canonical_body_def Let_def)
  ultimately have "locate_surplus ?ip ?udp \<noteq> None \<longleftrightarrow> opts \<noteq> []"
    unfolding locate_surplus_written [OF wire] by auto
  then show ?thesis
    by (auto simp: decode_datagram_eq h process_assembled [OF assms] wire_headers_def apply_policy_def
        delivered_payload_def)
qed

end
