(* ===== verification/Recv_Reference.thy ===== *)
theory Recv_Reference
  imports Recv_Options
begin

text \<open>
  What the option handling of the receiver means, stated without the loop, its flags or its array of seen
  Kinds: the options are handled in order up to the first one that stops the handling, the status of
  an option depends on the options before it, and the limit of a fragment's own options is that of its
  first FRAG. \<open>parse_options\<close> is proved to agree with it on all bytes.
\<close>

section \<open>One option\<close>

text \<open>The lengths of values: those of the supported Kinds, and the least one of a Kind with a known format.\<close>

definition value_lens :: "option_kind \<Rightarrow> nat list" where
  "value_lens k = (case k of Apc \<Rightarrow> [4] | Frag \<Rightarrow> [8, 10] | Mds \<Rightarrow> [2] | Mrds \<Rightarrow> [3] | Req \<Rightarrow> [4] | Res \<Rightarrow> [4] | _ \<Rightarrow> [])"

definition least_value_len :: "option_kind \<Rightarrow> nat" where
  "least_value_len k =
     (case k of Other b \<Rightarrow> if b = 8 then 8 else if b = 127 then 2 else 0
      | _ \<Rightarrow> (case value_lens k of [] \<Rightarrow> 0 | n # _ \<Rightarrow> n))"

text \<open>\<open>fragment\<close>: the options are those of a fragment, whose APC does not count.\<close>

definition too_short :: "bool \<Rightarrow> option_ref \<Rightarrow> bool" where
  "too_short fragment r \<longleftrightarrow> \<not> (fragment \<and> ref_kind r = Apc) \<and> length (ref_value r) < least_value_len (ref_kind r)"

definition ref_status :: "(bytes \<Rightarrow> u32) \<Rightarrow> bool \<Rightarrow> bytes \<Rightarrow> option_ref list \<Rightarrow> option_ref \<Rightarrow> option_status" where
  "ref_status crc fragment user_data before r =
     (if ref_kind r \<notin> {Apc, Mds, Mrds, Req, Res} \<or> ref_kind r = Apc \<and> fragment \<or> ref_kind r \<in> ref_kind ` set before
      then Ignored
      else if length (ref_value r) \<in> set (value_lens (ref_kind r))
        \<and> (ref_kind r \<noteq> Apc \<or> ref_value r = u32_to_be_bytes (crc user_data))
      then Success else Failed)"

section \<open>All options\<close>

text \<open>The options that are reported, each with its status.\<close>

definition ref_handled ::
  "(bytes \<Rightarrow> u32) \<Rightarrow> bool \<Rightarrow> bytes \<Rightarrow> option_ref list \<Rightarrow> (option_ref \<times> option_status) list" where
  "ref_handled crc fragment user_data rs =
     map (\<lambda>i. (rs ! i, ref_status crc fragment user_data (take i rs) (rs ! i)))
       (filter (\<lambda>i. ref_kind (rs ! i) \<notin> {Eol, Nop, Frag}) [0..<length rs])"

definition ref_frag :: "option_ref list \<Rightarrow> frag option" where
  "ref_frag rs =
     (case filter (\<lambda>r. ref_kind r = Frag) rs of
        [] \<Rightarrow> None
      | r # _ \<Rightarrow> (case frag_decode (ref_value r) of Ok f \<Rightarrow> Some f | _ \<Rightarrow> None))"

definition ref_outcome ::
  "(bytes \<Rightarrow> u32) \<Rightarrow> bool \<Rightarrow> bytes \<Rightarrow> option_ref list \<Rightarrow> option_report list \<Rightarrow> bool \<Rightarrow> parsed_options" where
  "ref_outcome crc fragment user_data rs extra unsupported =
     (let handled = ref_handled crc fragment user_data rs in
      \<lparr>po_options = map (\<lambda>(r, _). \<lparr>opt_kind = ref_kind r, opt_value = ref_value r\<rparr>) (filter (\<lambda>(_, s). s = Success) handled),
       po_reports = map (\<lambda>(r, s). report (ref_kind r) s) handled @ extra,
       po_frag = ref_frag rs, po_unsupported_unsafe_seen = unsupported, po_fragment_failed = False\<rparr>)"

text \<open>A malformed option area: an error, but a failed fragment if a FRAG came first and there is no user data.\<close>

definition ref_refused :: "bytes \<Rightarrow> option_ref list \<Rightarrow> parse_error \<Rightarrow> (parsed_options, parse_error) res" where
  "ref_refused user_data rs e =
     (if ref_frag rs \<noteq> None \<and> user_data = []
      then Ok \<lparr>po_options = [], po_reports = [], po_frag = ref_frag rs, po_unsupported_unsafe_seen = False,
               po_fragment_failed = True\<rparr>
      else Err e)"

text \<open>The outcome of an option that stops the handling; no value: the handling goes on.\<close>

definition ref_stop ::
  "(bytes \<Rightarrow> u32) \<Rightarrow> bool \<Rightarrow> bytes \<Rightarrow> option_ref list \<Rightarrow> option_ref \<Rightarrow> (parsed_options, parse_error) res option" where
  "ref_stop crc fragment user_data before r =
     (if too_short fragment r
      then Some (ref_refused user_data before (InvalidLength (to_byte (ref_kind r)) (length (ref_value r) + 2)))
      else if ref_kind r = Frag \<and> Frag \<in> ref_kind ` set before
      then Some (ref_refused user_data before ParseDuplicateFrag)
      else if ref_kind r = Frag \<and> length (ref_value r) \<notin> {8, 10}
      then Some (Ok (ref_outcome crc fragment user_data before [] True))
      else if 192 \<le> unat (to_byte (ref_kind r))
      then Some (Ok (ref_outcome crc fragment user_data before [report (ref_kind r) Failed] True))
      else None)"

fun ref_run ::
  "(bytes \<Rightarrow> u32) \<Rightarrow> bool \<Rightarrow> bytes \<Rightarrow> option_ref list \<Rightarrow> item list \<Rightarrow> (parsed_options, parse_error) res" where
  "ref_run crc fragment user_data before [] = Ok (ref_outcome crc fragment user_data before [] False)"
| "ref_run crc fragment user_data before (Inl e # xs) = ref_refused user_data before e"
| "ref_run crc fragment user_data before (Inr r # xs) =
     (case ref_stop crc fragment user_data before r of
        Some outcome \<Rightarrow> outcome
      | None \<Rightarrow> ref_run crc fragment user_data (before @ [r]) xs)"

section \<open>The options of a fragment\<close>

fun leading_frag :: "item list \<Rightarrow> option_ref option" where
  "leading_frag (Inr r # xs) =
     (if ref_kind r = Frag then Some r
      else if ref_kind r = Eol \<or> 192 \<le> unat (to_byte (ref_kind r)) then None
      else leading_frag xs)"
| "leading_frag _ = None"

definition ref_limit :: "bytes \<Rightarrow> usize \<Rightarrow> option_limit" where
  "ref_limit bs offset =
     (case leading_frag (parse_spec 0 bs) of
        None \<Rightarrow> Full
      | Some r \<Rightarrow>
          (case frag_decode (ref_value r) of
             Ok f \<Rightarrow>
               let start = unat (frag_start f); option_end = offset + the (ref_at r) + length (ref_value r) in
               if option_end \<le> start \<and> start \<le> offset + length bs then EndAt (start - offset) else MalformedFrag f
           | _ \<Rightarrow> Full))"

section \<open>Agreement of the loop\<close>

definition seen_of :: "bool \<Rightarrow> option_ref list \<Rightarrow> byte \<Rightarrow> bool" where
  "seen_of fragment rs b \<longleftrightarrow>
     (\<exists>r \<in> set rs. to_byte (ref_kind r) = b \<and> ref_kind r \<in> {Apc, Frag, Mds, Mrds, Req, Res} \<and> \<not> (fragment \<and> ref_kind r = Apc))"

definition state_of :: "(bytes \<Rightarrow> u32) \<Rightarrow> bool \<Rightarrow> bytes \<Rightarrow> option_ref list \<Rightarrow> parse_state" where
  "state_of crc fragment user_data rs =
     (let po = ref_outcome crc fragment user_data rs [] False in
      \<lparr>ps_options = po_options po, ps_reports = po_reports po, ps_seen = seen_of fragment rs,
       ps_frag = ref_frag rs, ps_unsafe = False\<rparr>)"

lemma ref_handled_snoc:
  "ref_handled crc fragment user_data (rs @ [r]) =
     ref_handled crc fragment user_data rs @
       (if ref_kind r \<in> {Eol, Nop, Frag} then [] else [(r, ref_status crc fragment user_data rs r)])"
proof -
  let ?P = "\<lambda>rs i. ref_kind (rs ! i) \<notin> {Eol, Nop, Frag}"
  let ?F = "\<lambda>rs i. (rs ! i, ref_status crc fragment user_data (take i rs) (rs ! i))"
  have "filter (?P (rs @ [r])) [0..<length rs] = filter (?P rs) [0..<length rs]"
    by (rule filter_cong) (auto simp: nth_append)
  moreover have "map (?F (rs @ [r])) (filter (?P rs) [0..<length rs]) = map (?F rs) (filter (?P rs) [0..<length rs])"
    by (rule map_cong) (auto simp: nth_append)
  moreover have "[0..<length (rs @ [r])] = [0..<length rs] @ [length rs]" by simp
  ultimately have "ref_handled crc fragment user_data (rs @ [r]) =
      map (?F rs) (filter (?P rs) [0..<length rs]) @ map (?F (rs @ [r])) (filter (?P (rs @ [r])) [length rs])"
    unfolding ref_handled_def by (simp only: filter_append map_append)
  moreover have "(rs @ [r]) ! length rs = r" "take (length rs) (rs @ [r]) = rs" by simp_all
  ultimately show ?thesis unfolding ref_handled_def by (simp only: filter.simps list.map if_not_P) simp
qed

lemma parse_spec_canonical: "Inr r \<in> set (parse_spec off bs) \<Longrightarrow> canonical_kind (ref_kind r)"
proof (induction off bs rule: parse_spec.induct)
  case (1 off bs)
  obtain x n cont where f: "first_option off bs = (x, n, cont)" by (metis prod_cases3)
  have "x = Inr r \<Longrightarrow> canonical_kind (ref_kind r)"
    using f by (cases bs) (auto simp: Let_def split: if_splits list.splits)
  with 1 f show ?case by (auto simp: parse_spec.simps [of off bs] split: if_splits)
qed

lemma reject_sub_minimum_eq:
  assumes "canonical_kind (ref_kind r)"
  shows "reject_sub_minimum r =
    (if length (ref_value r) < least_value_len (ref_kind r)
     then Err (InvalidLength (to_byte (ref_kind r)) (length (ref_value r) + 2)) else Ok ())"
proof (cases "ref_kind r")
  case (Other b)
  then have "b \<noteq> kind_APC" "b \<noteq> kind_FRAG" "b \<noteq> kind_MDS" "b \<noteq> kind_MRDS" "b \<noteq> kind_REQ" "b \<noteq> kind_RES"
    using assms by (auto simp: canonical_Other kind_defs)
  then show ?thesis
    by (auto simp: Other reject_sub_minimum_def minimum_known_tlv_len_def fixed_tlv_lengths_def fixed_length_tables
        least_value_len_def PIPELINE_TLV_HEADER_LEN_def kind_TIME_def kind_EXP_def length_defs Let_def)
qed (simp_all add: reject_sub_minimum_def minimum_known_tlv_len_def fixed_tlv_lengths_def fixed_length_tables
    least_value_len_def value_lens_def PIPELINE_TLV_HEADER_LEN_def kind_defs length_defs Let_def)

lemma seen_of_iff:
  assumes "canonical_kind k" and "\<forall>r \<in> set rs. canonical_kind (ref_kind r)"
    and "k \<in> {Apc, Frag, Mds, Mrds, Req, Res}" and "\<not> (fragment \<and> k = Apc)"
  shows "seen_of fragment rs (to_byte k) \<longleftrightarrow> k \<in> ref_kind ` set rs"
proof -
  have "to_byte (ref_kind r) = to_byte k \<longleftrightarrow> ref_kind r = k" if "r \<in> set rs" for r
    using assms(1,2) that unfolding canonical_kind_def by metis
  then have "seen_of fragment rs (to_byte k) \<longleftrightarrow>
      (\<exists>r \<in> set rs. ref_kind r = k \<and> ref_kind r \<in> {Apc, Frag, Mds, Mrds, Req, Res} \<and> \<not> (fragment \<and> ref_kind r = Apc))"
    unfolding seen_of_def by blast
  also have "\<dots> \<longleftrightarrow> (\<exists>r \<in> set rs. ref_kind r = k)" using assms(3,4) by blast
  finally show ?thesis by (simp add: image_iff eq_commute)
qed

lemma seen_of_snoc:
  "seen_of fragment (rs @ [r]) =
     (if ref_kind r \<in> {Apc, Frag, Mds, Mrds, Req, Res} \<and> \<not> (fragment \<and> ref_kind r = Apc)
      then (seen_of fragment rs)(to_byte (ref_kind r) := True) else seen_of fragment rs)"
  by (auto simp: seen_of_def fun_eq_iff)

lemma state_of_snoc:
  assumes "ref_kind r \<noteq> Frag"
  shows "state_of crc fragment user_data (rs @ [r]) =
    (let st = state_of crc fragment user_data rs; s = ref_status crc fragment user_data rs r in
     st\<lparr>ps_seen := seen_of fragment (rs @ [r]),
        ps_reports := ps_reports st @ (if ref_kind r \<in> {Eol, Nop} then [] else [report (ref_kind r) s]),
        ps_options := ps_options st @ (if s = Success then [raw_from_ref r] else [])\<rparr>)"
proof -
  have "ref_frag (rs @ [r]) = ref_frag rs" using assms by (simp add: ref_frag_def)
  moreover have "ref_status crc fragment user_data rs r = Success \<Longrightarrow> ref_kind r \<notin> {Eol, Nop}"
    by (auto simp: ref_status_def)
  ultimately show ?thesis
    using assms by (auto simp: state_of_def ref_outcome_def ref_handled_snoc Let_def raw_from_ref_def)
qed

lemma state_of_simps [simp]:
  "ps_seen (state_of crc fragment user_data rs) = seen_of fragment rs"
  "ps_frag (state_of crc fragment user_data rs) = ref_frag rs" "\<not> ps_unsafe (state_of crc fragment user_data rs)"
  by (simp_all add: state_of_def Let_def)

text \<open>A decoder succeeds exactly on the lengths of its Kind.\<close>

context typed_option
begin

lemma decodes_iff: "(\<exists>t. decode v = Ok t) \<longleftrightarrow> length v \<in> set (fixed_value_lens (to_byte KIND))"
  using decode_good [of v] decode_bad [of v] by (cases "length v \<in> set (fixed_value_lens (to_byte KIND))") auto

end

lemma value_lens_fixed: "k \<in> {Apc, Frag, Mds, Mrds, Req, Res} \<Longrightarrow> value_lens k = fixed_value_lens (to_byte k)"
  by (auto simp: value_lens_def fixed_value_lens_simps) (simp_all add: fixed_value_lens_def FRAG_VALUE_LENS_def length_defs kind_defs)

lemma decoded_lens:
  "(\<exists>t. mds_decode v = Ok t) \<longleftrightarrow> length v \<in> set (value_lens Mds)"
  "(\<exists>t. mrds_decode v = Ok t) \<longleftrightarrow> length v \<in> set (value_lens Mrds)"
  "(\<exists>t. req_decode v = Ok t) \<longleftrightarrow> length v \<in> set (value_lens Req)"
  "(\<exists>t. res_decode v = Ok t) \<longleftrightarrow> length v \<in> set (value_lens Res)"
  "(\<exists>t. apc_decode v = Ok t) \<longleftrightarrow> length v \<in> set (value_lens Apc)"
  "(\<exists>t. frag_decode v = Ok t) \<longleftrightarrow> length v \<in> set (value_lens Frag)"
  by (simp_all only: value_lens_fixed mds_opt.decodes_iff mrds_opt.decodes_iff req_opt.decodes_iff res_opt.decodes_iff
      apc_opt.decodes_iff frag_opt.decodes_iff) (simp_all add: value_lens_fixed)

lemma checked_option_ref:
  assumes "ref_kind r \<in> {Mds, Mrds, Req, Res}" and "decoded \<noteq> Panic"
    and "(\<exists>t. decoded = Ok t) \<longleftrightarrow> length (ref_value r) \<in> set (value_lens (ref_kind r))"
    and "\<forall>r \<in> set rs. canonical_kind (ref_kind r)"
  shows "checked_option (state_of crc fragment user_data rs) r decoded = Continue (state_of crc fragment user_data (rs @ [r]))"
proof -
  have k: "ref_kind r \<noteq> Apc" "ref_kind r \<noteq> Frag" "ref_kind r \<notin> {Eol, Nop}"
    "ref_kind r \<in> {Apc, Frag, Mds, Mrds, Req, Res}" "canonical_kind (ref_kind r)" using assms(1) by auto
  have seen: "seen_of fragment rs (to_byte (ref_kind r)) \<longleftrightarrow> ref_kind r \<in> ref_kind ` set rs"
    by (rule seen_of_iff) (use k assms(4) in simp_all)
  have after: "seen_of fragment (rs @ [r]) = (seen_of fragment rs)(to_byte (ref_kind r) := True)"
    unfolding seen_of_snoc using k by simp
  have status: "ref_status crc fragment user_data rs r =
      (if ref_kind r \<in> ref_kind ` set rs then Ignored
       else if \<exists>t. decoded = Ok t then Success else Failed)"
    unfolding assms(3) using assms(1) k(1) by (auto simp: ref_status_def)
  show ?thesis
  proof (cases "ref_kind r \<in> ref_kind ` set rs")
    case True
    then have "(seen_of fragment rs)(to_byte (ref_kind r) := True) = seen_of fragment rs"
      using seen by (simp add: fun_eq_iff)
    then show ?thesis
      using True seen k(3) by (simp add: checked_option_def mark_seen_once_def state_of_snoc [OF k(2)] after status Let_def)
  next
    case False
    then show ?thesis
      using seen k(3) assms(2)
      by (cases decoded) (simp_all add: checked_option_def mark_seen_once_def state_of_snoc [OF k(2)] after status Let_def)
  qed
qed

lemma accepts_apc_eq:
  "accepts_apc crc r user_data =
     Ok (if length (ref_value r) = 4 \<and> ref_value r = u32_to_be_bytes (crc user_data) then Success else Failed)"
proof (cases "apc_decode (ref_value r)")
  case (Ok a)
  then have "length (ref_value r) = 4" using decoded_lens(5) [of "ref_value r"] by (auto simp: value_lens_def)
  moreover have "a = apc_compute crc user_data \<longleftrightarrow> ref_value r = u32_to_be_bytes (crc user_data)"
    using Ok apc_opt.decode_Ok_iff [of "ref_value r" a] apc_opt.decode_Ok_iff [of "ref_value r" "apc_compute crc user_data"]
    by (auto simp: apc_compute_def)
  ultimately show ?thesis by (simp add: accepts_apc_def Ok)
next
  case (Err e)
  then show ?thesis using decoded_lens(5) [of "ref_value r"] by (auto simp: accepts_apc_def value_lens_def)
qed (simp add: apc_opt.decode_no_panic)

lemma apc_option_ref:
  assumes "ref_kind r = Apc" and "\<forall>r \<in> set rs. canonical_kind (ref_kind r)"
  shows "apc_option crc fragment user_data (state_of crc fragment user_data rs) r =
    Continue (state_of crc fragment user_data (rs @ [r]))"
proof (cases fragment)
  case True
  then show ?thesis
    using assms(1) by (simp add: apc_option_def state_of_snoc seen_of_snoc ref_status_def Let_def)
next
  case False
  have seen: "seen_of False rs kind_APC \<longleftrightarrow> Apc \<in> ref_kind ` set rs"
    using seen_of_iff [of Apc rs False] assms(2) by simp
  have after: "seen_of False (rs @ [r]) = (seen_of False rs)(kind_APC := True)"
    unfolding seen_of_snoc using assms(1) by simp
  have status: "ref_status crc False user_data rs r =
      (if Apc \<in> ref_kind ` set rs then Ignored
       else if length (ref_value r) = 4 \<and> ref_value r = u32_to_be_bytes (crc user_data) then Success else Failed)"
    using assms(1) by (simp add: ref_status_def value_lens_def)
  have same: "Apc \<in> ref_kind ` set rs \<Longrightarrow> (seen_of False rs)(kind_APC := True) = seen_of False rs"
    using seen by (simp add: fun_eq_iff)
  show ?thesis
    using assms(1) False seen same
    by (simp add: apc_option_def mark_seen_once_def accepts_apc_eq state_of_snoc after status Let_def)
qed

lemma frag_option_ref:
  assumes "ref_kind r = Frag" and "Frag \<notin> ref_kind ` set rs" and "length (ref_value r) \<in> {8, 10}"
    and "\<forall>r \<in> set rs. canonical_kind (ref_kind r)"
  shows "frag_option user_data (state_of crc fragment user_data rs) r = Continue (state_of crc fragment user_data (rs @ [r]))"
proof -
  obtain f where f: "frag_decode (ref_value r) = Ok f"
    using decoded_lens(6) [of "ref_value r"] assms(3) by (auto simp: value_lens_def)
  have "\<not> seen_of fragment rs kind_FRAG" using seen_of_iff [of Frag rs fragment] assms(2,4) by simp
  moreover have "filter (\<lambda>r. ref_kind r = Frag) rs = []" using assms(2) by (force simp: filter_empty_conv)
  then have "ref_frag (rs @ [r]) = Some f" using assms(1) f by (simp add: ref_frag_def)
  ultimately show ?thesis
    using assms(1) f
    by (simp add: frag_option_def Let_def) (simp add: state_of_def ref_outcome_def ref_handled_snoc seen_of_snoc Let_def)
qed

lemma parse_step_ref:
  assumes "canonical_kind (ref_kind r)" and "\<forall>r \<in> set rs. canonical_kind (ref_kind r)"
    and "ref_stop crc fragment user_data rs r = None"
  shows "parse_step crc fragment user_data (state_of crc fragment user_data rs) (Inr r) =
    Continue (state_of crc fragment user_data (rs @ [r]))"
proof -
  let ?st = "state_of crc fragment user_data rs"
  have go: "\<not> too_short fragment r" "\<not> (ref_kind r = Frag \<and> Frag \<in> ref_kind ` set rs)"
    "\<not> (ref_kind r = Frag \<and> length (ref_value r) \<notin> {8, 10})" "\<not> 192 \<le> unat (to_byte (ref_kind r))"
    using assms(3) by (auto simp: ref_stop_def split: if_splits)
  have ok: "(if fragment \<and> ref_kind r = Apc then Ok () else reject_sub_minimum r) = Ok ()"
    using assms(1) go(1) by (auto simp: reject_sub_minimum_eq too_short_def)
  have quiet: "ref_kind r \<in> {Eol, Nop} \<or> (\<exists>b. ref_kind r = Other b) \<Longrightarrow>
      seen_of fragment (rs @ [r]) = seen_of fragment rs \<and> ref_status crc fragment user_data rs r = Ignored"
    by (auto simp: seen_of_snoc ref_status_def)
  have same: "?st\<lparr>ps_seen := seen_of fragment rs, ps_reports := ps_reports ?st, ps_options := ps_options ?st\<rparr> = ?st"
    by (simp add: state_of_def Let_def)
  show ?thesis
  proof (cases "ref_kind r")
    case Apc then show ?thesis using ok apc_option_ref [OF Apc assms(2)] by (simp add: parse_step_def)
  next
    case Frag then show ?thesis using ok frag_option_ref [OF Frag _ _ assms(2)] go(2,3) by (simp add: parse_step_def)
  next
    case (Other b)
    have "is_safe (ref_kind r)" using go(4) by (simp add: is_safe_def kind_UNSAFE_MIN_def word_less_nat_alt)
    then show ?thesis
      using ok Other quiet by (simp add: parse_step_def state_of_snoc Let_def)
  next
    case Mds
    show ?thesis
      using ok Mds checked_option_ref [OF _ mds_opt.decode_no_panic _ assms(2), of r] decoded_lens(1) by (simp add: parse_step_def)
  next
    case Mrds
    show ?thesis
      using ok Mrds checked_option_ref [OF _ mrds_opt.decode_no_panic _ assms(2), of r] decoded_lens(2) by (simp add: parse_step_def)
  next
    case Req
    show ?thesis
      using ok Req checked_option_ref [OF _ req_opt.decode_no_panic _ assms(2), of r] decoded_lens(3) by (simp add: parse_step_def)
  next
    case Res
    show ?thesis
      using ok Res checked_option_ref [OF _ res_opt.decode_no_panic _ assms(2), of r] decoded_lens(4) by (simp add: parse_step_def)
  qed (use ok quiet same in \<open>simp_all add: parse_step_def state_of_snoc Let_def\<close>)
qed

lemma parse_step_stop:
  assumes "canonical_kind (ref_kind r)" and "\<forall>r \<in> set rs. canonical_kind (ref_kind r)"
    and "ref_stop crc fragment user_data rs r = Some out"
  shows "(case parse_step crc fragment user_data (state_of crc fragment user_data rs) (Inr r) of
      Continue st \<Rightarrow> False | Break st \<Rightarrow> out = Ok (parse_end st) | Return x \<Rightarrow> x = out)"
proof -
  note seen = seen_of_iff [OF _ assms(2), of Frag fragment]
  have dec: "length (ref_value r) \<notin> {8, 10} \<Longrightarrow> \<exists>e. frag_decode (ref_value r) = Err e"
    using decoded_lens(6) [of "ref_value r"] frag_opt.decode_no_panic [of "ref_value r"]
    by (cases "frag_decode (ref_value r)") (auto simp: value_lens_def)
  note step = parse_step_def too_short_def reject_sub_minimum_eq [OF assms(1)] frag_option_def ref_refused_def
    fragment_failure_def parse_end_def Let_def
  consider (short) "too_short fragment r"
      "out = ref_refused user_data rs (InvalidLength (to_byte (ref_kind r)) (length (ref_value r) + 2))"
    | (dup) "\<not> too_short fragment r" "ref_kind r = Frag" "Frag \<in> ref_kind ` set rs"
      "out = ref_refused user_data rs ParseDuplicateFrag"
    | (bad) "\<not> too_short fragment r" "ref_kind r = Frag" "Frag \<notin> ref_kind ` set rs" "length (ref_value r) \<notin> {8, 10}"
      "out = Ok (ref_outcome crc fragment user_data rs [] True)"
    | (unsafe) "\<not> too_short fragment r" "ref_kind r \<noteq> Frag" "192 \<le> unat (to_byte (ref_kind r))"
      "out = Ok (ref_outcome crc fragment user_data rs [report (ref_kind r) Failed] True)"
    using assms(3) by (cases "ref_kind r = Frag") (auto simp: ref_stop_def kind_defs split: if_splits)
  then show ?thesis
  proof cases
    case short then show ?thesis by (auto simp: step)
  next
    case dup then show ?thesis using seen by (simp add: step)
  next
    case bad
    then show ?thesis using seen dec by (auto simp: step) (auto simp: state_of_def ref_outcome_def Let_def)
  next
    case unsafe
    then obtain b where b: "ref_kind r = Other b" by (cases "ref_kind r") (auto simp: kind_defs)
    have "\<not> is_safe (ref_kind r)" using unsafe(3) by (simp add: is_safe_def kind_UNSAFE_MIN_def word_less_nat_alt)
    then show ?thesis using unsafe b by (simp add: step) (simp add: state_of_def ref_outcome_def Let_def)
  qed
qed

lemma parse_items_ref:
  assumes "\<forall>r. Inr r \<in> set xs \<longrightarrow> canonical_kind (ref_kind r)" and "\<forall>r \<in> set rs. canonical_kind (ref_kind r)"
  shows "parse_items crc fragment user_data (state_of crc fragment user_data rs) xs = ref_run crc fragment user_data rs xs"
  using assms
proof (induction xs arbitrary: rs)
  case Nil
  show ?case by (simp add: parse_end_def) (simp add: state_of_def ref_outcome_def Let_def)
next
  case (Cons x xs)
  show ?case
  proof (cases x)
    case (Inl e)
    then show ?thesis by (simp add: parse_step_def item_error_def ref_refused_def fragment_failure_def)
  next
    case (Inr r)
    have c: "canonical_kind (ref_kind r)" using Cons.prems(1) Inr by simp
    show ?thesis
    proof (cases "ref_stop crc fragment user_data rs r")
      case None
      then show ?thesis
        using parse_step_ref [OF c Cons.prems(2) None] Cons.IH [of "rs @ [r]"] Cons.prems c by (simp add: Inr)
    next
      case (Some out)
      then show ?thesis using parse_step_stop [OF c Cons.prems(2) Some] by (auto simp: Inr split: step.splits)
    qed
  qed
qed

lemma limit_items_ref:
  "\<forall>x \<in> set xs. item_in_bounds 0 bs x \<Longrightarrow>
     limit_items bs offset xs =
       Ok (case leading_frag xs of
             None \<Rightarrow> Full
           | Some r \<Rightarrow>
               (case frag_decode (ref_value r) of
                  Ok f \<Rightarrow>
                    let start = unat (frag_start f); option_end = offset + the (ref_at r) + length (ref_value r) in
                    if option_end \<le> start \<and> start \<le> offset + length bs then EndAt (start - offset) else MalformedFrag f
                | _ \<Rightarrow> Full))"
proof (induction bs offset xs rule: limit_items.induct)
  case (3 bs offset opt xs)
  have "ref_kind opt = Frag \<Longrightarrow> \<exists>at. ref_at opt = Some at"
    using 3(2) by (auto simp: item_in_bounds_def is_single_byte_def framing_def kind_defs split: option.splits)
  with 3 show ?case
    using frag_opt.decode_no_panic [of "ref_value opt"]
    by (auto simp: option_end_offset_def Let_def is_unsafe_iff less_diff_conv le_diff_conv2 less_diff_conv2 not_le not_less
        split: res.split)
qed simp_all

text \<open>
  C19: The option handling of the receiver never panics and agrees with its specification on all bytes. Options are
  handled in order up to the first that is malformed, too short, a second FRAG, a FRAG of a wrong length
  or UNSAFE, each with its own outcome. A supported option counts once, the first time, and succeeds exactly
  if its length, and for APC its CRC, is right; every other SAFE option is ignored. Without user data,
  the first FRAG limits the options to the bytes before its fragment data, or is refused if its start
  field lies before its own end or behind the area.
\<close>

theorem parse_options_reference:
  "parse_options crc bs user_data offset \<noteq> Panic
   \<and> parse_options crc bs user_data offset =
     (case if user_data \<noteq> [] then Full else ref_limit bs offset of
        Full \<Rightarrow> ref_run crc False user_data [] (parse_spec 0 bs)
      | EndAt e \<Rightarrow> ref_run crc True user_data [] (parse_spec 0 (take e bs))
      | MalformedFrag f \<Rightarrow>
          Ok \<lparr>po_options = [], po_reports = [], po_frag = Some f, po_unsupported_unsafe_seen = True,
              po_fragment_failed = True\<rparr>)"
proof -
  have bounds: "\<forall>x \<in> set (parse_spec 0 bs). item_in_bounds 0 bs x" by (simp add: parse_spec_bounds)
  have limit: "limit_items bs offset (parse_spec 0 bs) = Ok (ref_limit bs offset)"
    unfolding limit_items_ref [OF bounds] ref_limit_def ..
  have init: "parse_state_init = state_of crc fragment ud []" for fragment ud
    by (simp add: parse_state_init_def state_of_def ref_outcome_def ref_handled_def ref_frag_def seen_of_def fun_eq_iff)
  have run: "parse_items crc fragment ud parse_state_init (parse_spec 0 ys) = ref_run crc fragment ud [] (parse_spec 0 ys)"
    for fragment ud ys
    unfolding init [of fragment ud] by (rule parse_items_ref) (auto intro: parse_spec_canonical)
  have "ref_limit bs offset = EndAt e \<Longrightarrow> e \<le> length bs" for e
    using limit_items_bounds(2) [OF bounds] limit by simp
  then show ?thesis
    using parse_options_no_panic [of crc bs user_data offset]
    by (auto simp: parse_options_items limit run split: option_limit.split)
qed

end
