(* ===== verification/Cli_Send.thy ===== *)
theory Cli_Send
  imports End_To_End
begin

text \<open>
  The sender program (\<open>src/bin/udpopt-send.rs\<close>): hexadecimal arguments, payload generation, the option set,
  the deliberate wire faults, the order of emission and the send loop. A \<open>&str\<close> is the list of its UTF-8
  bytes; \<open>clap\<close> has already turned the command line into the record of arguments. The sockets, the random
  seed, the manifest file and standard output are parameters. The pauses between datagrams are left out; the
  text of a message is kept.
\<close>

section \<open>Arguments and errors\<close>

record send_args =
  sa_src :: ipv4_addr
  sa_dst :: ipv4_addr
  sa_src_port :: u16
  sa_dst_port :: u16
  sa_payload :: bytes
  sa_payload_hex :: "bytes option"
  sa_payload_size :: "usize option"
  sa_count :: usize
  sa_seq_start :: u64
  sa_apc :: bool
  sa_mds :: "u16 option"
  sa_mrds_size :: "u16 option"
  sa_mrds_segments :: byte
  sa_req :: "bytes option"
  sa_res :: "bytes option"
  sa_max_datagram_len :: usize
  sa_no_frag :: bool
  sa_peer_mrds_size :: u16
  sa_peer_mrds_segments :: byte
  sa_identification :: "u32 option"
  sa_raw_options_hex :: "bytes option"
  sa_ocs_hex :: "bytes option"
  sa_pad_hex :: "bytes option"
  sa_udp_cksum_zero :: bool
  sa_frag_emit :: "usize list option"
  sa_manifest :: bool
  sa_hexdump :: bool

text \<open>The defaults that the attributes of the arguments name.\<close>

definition send_args_default :: send_args where
  "send_args_default =
     \<lparr>sa_src = Ipv4Addr 127 0 0 1, sa_dst = Ipv4Addr 127 0 0 1, sa_src_port = 40000, sa_dst_port = 40001,
      sa_payload = map of_char ''hello from udpopt-send'', sa_payload_hex = None, sa_payload_size = None, sa_count = 1,
      sa_seq_start = 0, sa_apc = False, sa_mds = None, sa_mrds_size = None, sa_mrds_segments = 2, sa_req = None,
      sa_res = None, sa_max_datagram_len = 1500, sa_no_frag = False, sa_peer_mrds_size = MRDS_DEFAULT_IPV4,
      sa_peer_mrds_segments = MIN_REASSEMBLY_SEGMENTS, sa_identification = None, sa_raw_options_hex = None,
      sa_ocs_hex = None, sa_pad_hex = None, sa_udp_cksum_zero = False, sa_frag_emit = None, sa_manifest = False,
      sa_hexdump = False\<rparr>"

datatype cli_error = Message string | CliIo io_error | CliSend send_error | Permission

definition from_socket :: "socket_error \<Rightarrow> cli_error" where
  "from_socket e = (case e of PermissionDenied \<Rightarrow> Permission | other \<Rightarrow> CliSend (SendSocket other))"

text \<open>\<open>format!("{}", n)\<close>\<close>

fun show_nat :: "nat \<Rightarrow> string" where
  "show_nat n = (if n < 10 then [char_of (48 + n)] else show_nat (n div 10) @ [char_of (48 + n mod 10)])"

declare show_nat.simps [simp del]

section \<open>Hexadecimal text\<close>

definition CLI_IPV4_HEADER_LEN :: usize where "CLI_IPV4_HEADER_LEN = 20"
definition UDP_LENGTH_AT :: usize where "UDP_LENGTH_AT = CLI_IPV4_HEADER_LEN + 4"
definition UDP_CHECKSUM_AT :: usize where "UDP_CHECKSUM_AT = CLI_IPV4_HEADER_LEN + 6"

text \<open>\<open>char::is_ascii_whitespace\<close>, \<open>char::to_digit(16)\<close>, \<open>u8::from_str_radix(.., 16)\<close> and
  \<open>str::from_utf8\<close> on two bytes. The radix parser takes a leading plus sign.\<close>

definition is_ascii_whitespace :: "byte \<Rightarrow> bool" where
  "is_ascii_whitespace b \<longleftrightarrow> b = 0x20 \<or> b = 0x09 \<or> b = 0x0a \<or> b = 0x0c \<or> b = 0x0d"

definition hex_digit :: "byte \<Rightarrow> byte option" where
  "hex_digit b =
     (if 48 \<le> b \<and> b \<le> 57 then Some (b - 48)
      else if 97 \<le> b \<and> b \<le> 102 then Some (b - 87)
      else if 65 \<le> b \<and> b \<le> 70 then Some (b - 55)
      else None)"

definition u8_from_str_radix_16 :: "byte \<Rightarrow> byte \<Rightarrow> byte option" where
  "u8_from_str_radix_16 a b =
     (if a = 43 then hex_digit b
      else Option.bind (hex_digit a) (\<lambda>x. Option.bind (hex_digit b) (\<lambda>y. Some (16 * x + y))))"

definition utf8_pair :: "byte \<Rightarrow> byte \<Rightarrow> bool" where
  "utf8_pair a b \<longleftrightarrow> a < 0x80 \<and> b < 0x80 \<or> 0xc2 \<le> a \<and> a \<le> 0xdf \<and> 0x80 \<le> b \<and> b \<le> 0xbf"

fun hex_pairs :: "bytes \<Rightarrow> (bytes, cli_error) res" where
  "hex_pairs (a # b # rest) =
     (if \<not> utf8_pair a b then Panic
      else case u8_from_str_radix_16 a b of
        None \<Rightarrow> Err (Message (''invalid hex byte '' @ [CHR 0x27] @ map char_of [unat a, unat b] @ [CHR 0x27]))
      | Some x \<Rightarrow> and_then (hex_pairs rest) (\<lambda>xs. Ok (x # xs)))"
| "hex_pairs _ = Ok []"

definition parse_hex_vec :: "bytes \<Rightarrow> (bytes, cli_error) res" where
  "parse_hex_vec input =
     (let clean = filter (\<lambda>c. \<not> is_ascii_whitespace c \<and> c \<noteq> 58 \<and> c \<noteq> 95) input in
      if length clean mod 2 \<noteq> 0 then Err (Message ''hex input must contain an even number of digits'')
      else hex_pairs clean)"

definition lower_hex :: "byte \<Rightarrow> byte" where
  "lower_hex d = (if d < 10 then 48 + d else 87 + d)"

definition hex :: "bytes \<Rightarrow> bytes" where
  "hex bs = concat (map (\<lambda>b. [lower_hex (drop_bit 4 b), lower_hex (b AND 0x0f)]) bs)"

definition parse_token :: "bytes \<Rightarrow> (token, cli_error) res" where
  "parse_token input =
     and_then (parse_hex_vec input) (\<lambda>bs.
     case bs of
       [a, b, c, d] \<Rightarrow> Ok (Token a b c d)
     | _ \<Rightarrow> Err (Message (''token must be exactly 4 bytes, got '' @ show_nat (length bs))))"

definition parse_ocs_field :: "bytes \<Rightarrow> (byte \<times> byte, cli_error) res" where
  "parse_ocs_field input =
     and_then (parse_hex_vec input) (\<lambda>bs.
     case bs of
       [a, b] \<Rightarrow> Ok (a, b)
     | _ \<Rightarrow> Err (Message (''--ocs-hex must be exactly 2 bytes, got '' @ show_nat (length bs))))"

definition parse_pad_byte :: "bytes \<Rightarrow> (byte, cli_error) res" where
  "parse_pad_byte input =
     and_then (parse_hex_vec input) (\<lambda>bs.
     case bs of
       [b] \<Rightarrow> Ok b
     | _ \<Rightarrow> Err (Message (''--pad-hex must be exactly 1 byte, got '' @ show_nat (length bs))))"

section \<open>Payload and options\<close>

definition u64_to_be_bytes :: "u64 \<Rightarrow> bytes" where
  "u64_to_be_bytes n = map (\<lambda>i. ucast (drop_bit (8 * i) n)) [7, 6, 5, 4, 3, 2, 1, 0]"

text \<open>The largest size of an allocation, \<open>isize::MAX\<close>: a \<open>vec!\<close> of more bytes panics with a capacity overflow.\<close>

definition isize_max :: nat where "isize_max = 2 ^ 63 - 1"

definition payload_for :: "send_args \<Rightarrow> u64 \<Rightarrow> (bytes, cli_error) res" where
  "payload_for args sq =
     (case sa_payload_hex args of
        Some hex_payload \<Rightarrow> parse_hex_vec hex_payload
      | None \<Rightarrow>
          (case sa_payload_size args of
             Some len \<Rightarrow>
               if len > isize_max then Panic
               else let prefix_len = min len (length (u64_to_be_bytes sq)) in
               Ok (take prefix_len (u64_to_be_bytes sq) @ map (\<lambda>i. word_of_nat (i mod 256)) [prefix_len..<len])
           | None \<Rightarrow> Ok (sa_payload args)))"

definition cli_send_options :: "send_args \<Rightarrow> (send_options, cli_error) res" where
  "cli_send_options args =
     (let options = (if sa_apc args then with_apc send_options_new else send_options_new) in
      and_then (case sa_mds args of
          None \<Rightarrow> Ok options
        | Some n \<Rightarrow> send_push_typed mds_encode options \<lparr>max_datagram_size = n\<rparr>) (\<lambda>options.
      and_then (case sa_mrds_size args of
          None \<Rightarrow> Ok options
        | Some n \<Rightarrow> send_push_typed mrds_encode options
            \<lparr>max_reassembled_size = n, mrds_max_segments = sa_mrds_segments args\<rparr>) (\<lambda>options.
      and_then (case sa_req args of
          None \<Rightarrow> Ok options
        | Some t \<Rightarrow> and_then (parse_token t) (\<lambda>t. send_push_typed req_encode options \<lparr>req_token = t\<rparr>)) (\<lambda>options.
      case sa_res args of
        None \<Rightarrow> Ok options
      | Some t \<Rightarrow> and_then (parse_token t) (\<lambda>t. send_push_typed res_encode options \<lparr>res_token = t\<rparr>)))))"

definition builds_options :: "send_args \<Rightarrow> bool" where
  "builds_options args \<longleftrightarrow>
     sa_apc args \<or> sa_mds args \<noteq> None \<or> sa_mrds_size args \<noteq> None \<or> sa_req args \<noteq> None \<or> sa_res args \<noteq> None"

section \<open>Datagrams\<close>

definition build_datagrams_for_send ::
  "(bytes \<Rightarrow> u32) \<Rightarrow> datagram_addrs \<Rightarrow> bytes \<Rightarrow> send_options \<Rightarrow> send_config \<Rightarrow> identification_generator
     \<Rightarrow> (bytes list \<times> u32 option, send_error) res \<times> identification_generator" where
  "build_datagrams_for_send crc addrs payload options config g =
     (case assert_that (send_identification config = None) of
        Ok _ \<Rightarrow>
          (case build_outgoing_datagrams crc addrs payload options config of
             Err FragmentIdentificationRequired \<Rightarrow>
               (case next_id g of
                  (r, g) \<Rightarrow>
                    (and_then (map_err SendSplit r) (\<lambda>ident.
                     and_then (build_outgoing_datagrams crc addrs payload options
                                 (config\<lparr>send_identification := Some ident\<rparr>)) (\<lambda>datagrams.
                     Ok (datagrams, Some ident))), g))
           | result \<Rightarrow> (and_then result (\<lambda>datagrams. Ok (datagrams, None)), g))
      | Err e \<Rightarrow> (Err e, g)
      | Panic \<Rightarrow> (Panic, g))"

definition raw_options_datagram :: "send_args \<Rightarrow> bytes \<Rightarrow> bytes \<Rightarrow> (bytes, cli_error) res" where
  "raw_options_datagram args payload body_hex =
     and_then (parse_hex_vec body_hex) (\<lambda>opts.
     let body = replicate (unat length_OCS) 0 @ opts;
         upper_bound = CLI_IPV4_HEADER_LEN + unat length_UDP_HEADER + length payload + 1 + length body in
     if upper_bound > u16_max
     then Err (Message (''raw-options datagram exceeds the 16-bit length fields: up to '' @ show_nat upper_bound @ '' bytes''))
     else
       and_then (assemble_datagram (sa_src args) (sa_dst args) (sa_src_port args) (sa_dst_port args) payload body) (\<lambda>datagram.
       if length datagram > sa_max_datagram_len args
       then Err (Message (''raw-options datagram is too large: '' @ show_nat (length datagram) @ '' bytes, max ''
              @ show_nat (sa_max_datagram_len args) @ '' bytes''))
       else Ok datagram))"

section \<open>Wire faults\<close>

record cli_surplus_layout =
  cl_starts_at :: usize
  cl_needs_pad :: bool

definition cl_ocs_at :: "cli_surplus_layout \<Rightarrow> usize" where
  "cl_ocs_at l = cl_starts_at l + of_bool (cl_needs_pad l)"

definition cli_surplus_layout_of :: "bytes \<Rightarrow> (cli_surplus_layout option, 'e) res" where
  "cli_surplus_layout_of datagram =
     (if length datagram < CLI_IPV4_HEADER_LEN + unat length_UDP_HEADER then Ok None
      else
        and_then (idx datagram UDP_LENGTH_AT) (\<lambda>a.
        and_then (idx datagram (UDP_LENGTH_AT + 1)) (\<lambda>b.
        case checked_add CLI_IPV4_HEADER_LEN (unat (u16_from_be_bytes a b)) of
          None \<Rightarrow> Ok None
        | Some at \<Rightarrow>
            Ok (if at < length datagram then Some \<lparr>cl_starts_at = at, cl_needs_pad = (at mod 2 \<noteq> 0)\<rparr> else None))))"

record wire_faults =
  wf_ocs :: "(byte \<times> byte) option"
  wf_pad :: "byte option"
  wf_zero_udp_checksum :: bool

definition wire_faults_parse :: "send_args \<Rightarrow> (wire_faults, cli_error) res" where
  "wire_faults_parse args =
     and_then (case sa_ocs_hex args of None \<Rightarrow> Ok None | Some t \<Rightarrow> and_then (parse_ocs_field t) (\<lambda>v. Ok (Some v))) (\<lambda>ocs.
     and_then (case sa_pad_hex args of None \<Rightarrow> Ok None | Some t \<Rightarrow> and_then (parse_pad_byte t) (\<lambda>v. Ok (Some v))) (\<lambda>pad.
     Ok \<lparr>wf_ocs = ocs, wf_pad = pad, wf_zero_udp_checksum = sa_udp_cksum_zero args\<rparr>))"

definition wire_faults_apply :: "wire_faults \<Rightarrow> bytes \<Rightarrow> (bytes, cli_error) res" where
  "wire_faults_apply f datagram =
     and_then (if wf_zero_udp_checksum f then put_slice datagram UDP_CHECKSUM_AT [0, 0] else Ok datagram) (\<lambda>datagram.
     if wf_ocs f = None \<and> wf_pad f = None then Ok datagram
     else
       and_then (cli_surplus_layout_of datagram) (\<lambda>l.
       and_then (ok_or (Message ''--ocs-hex and --pad-hex need a datagram with a surplus area'') l) (\<lambda>layout.
       and_then (case wf_pad f of
           None \<Rightarrow> Ok datagram
         | Some pad \<Rightarrow>
             if \<not> cl_needs_pad layout
             then Err (Message ''--pad-hex needs an alignment pad, which only an odd payload length creates'')
             else put_slice datagram (cl_starts_at layout) [pad]) (\<lambda>datagram.
       case wf_ocs f of
         None \<Rightarrow> Ok datagram
       | Some (a, b) \<Rightarrow> put_slice datagram (cl_ocs_at layout) [a, b]))))"

section \<open>The send loop\<close>

definition emit_order :: "usize list option \<Rightarrow> usize \<Rightarrow> (usize list, cli_error) res" where
  "emit_order requested built =
     (case requested of
        None \<Rightarrow> Ok [0..<built]
      | Some requested \<Rightarrow>
          if requested = [] then Err (Message ''--frag-emit needs at least one datagram index'')
          else
            (case List.find (\<lambda>i. i \<ge> built) requested of
               Some i \<Rightarrow>
                 Err (Message (''--frag-emit index '' @ show_nat i @ '' is out of range; this send built ''
                   @ show_nat built @ '' datagram(s)''))
             | None \<Rightarrow> Ok requested))"

definition show_addr :: "ipv4_addr \<Rightarrow> string" where
  "show_addr a =
     (case a of Ipv4Addr p q r s \<Rightarrow>
        show_nat (unat p) @ ''.'' @ show_nat (unat q) @ ''.'' @ show_nat (unat r) @ ''.'' @ show_nat (unat s))"

text \<open>A printed text: its bytes as characters.\<close>

definition as_text :: "bytes \<Rightarrow> string" where
  "as_text bs = map (\<lambda>b. char_of (unat b)) bs"

text \<open>
  What a run leaves: the datagrams handed to the socket, whose number counts the calls of \<open>send\<close>, the lines
  printed and the lines of the manifest. Its state has the generator of identifications too.
\<close>

record send_output =
  sr_sent :: "bytes list"
  sr_lines :: "string list"
  sr_manifest :: "string list"

record send_run = send_output +
  sr_identifications :: identification_generator

type_synonym send_socket = "nat \<Rightarrow> bytes \<Rightarrow> (usize, socket_error) res"

text \<open>\<open>println!\<close>: standard output takes the line or not, which may depend on how many it took; if not, the macro panics.\<close>

type_synonym stdout = "nat \<Rightarrow> string \<Rightarrow> bool"

definition println :: "stdout \<Rightarrow> string list \<Rightarrow> string \<Rightarrow> (string list, 'e) res" where
  "println out lines line = (if out (length lines) line then Ok (lines @ [line]) else Panic)"

fun emit_loop ::
  "stdout \<Rightarrow> send_args \<Rightarrow> nat \<Rightarrow> send_socket \<Rightarrow> bytes list \<Rightarrow> usize \<Rightarrow> usize list \<Rightarrow> send_run \<Rightarrow> (usize, cli_error) res \<times> send_run" where
  "emit_loop out args index sock datagrams sent_bytes [] st = (Ok sent_bytes, st)"
| "emit_loop out args index sock datagrams sent_bytes (i # order) st =
     (case idx datagrams i of
        Ok datagram \<Rightarrow>
          let n = length (sr_sent st); st = st\<lparr>sr_sent := sr_sent st @ [datagram]\<rparr> in
          (case and_then (map_err from_socket (sock n datagram)) (\<lambda>k.
                and_then (ok_or (Message ''sent byte count overflow'') (checked_add sent_bytes k)) (\<lambda>sent_bytes.
                and_then (if sa_hexdump args
                          then println out (sr_lines st)
                            (''datagram['' @ show_nat index @ ''.'' @ show_nat i @ ''] '' @ as_text (hex datagram))
                          else Ok (sr_lines st)) (\<lambda>lines.
                Ok (sent_bytes, lines)))) of
             Ok (sent_bytes, lines) \<Rightarrow>
               emit_loop out args index sock datagrams sent_bytes order (st\<lparr>sr_lines := lines\<rparr>)
           | Err e \<Rightarrow> (Err e, st)
           | Panic \<Rightarrow> (Panic, st))
      | Err e \<Rightarrow> (Err e, st)
      | Panic \<Rightarrow> (Panic, st))"

fun apply_all :: "wire_faults \<Rightarrow> bytes list \<Rightarrow> (bytes list, cli_error) res" where
  "apply_all f [] = Ok []"
| "apply_all f (d # ds) = and_then (wire_faults_apply f d) (\<lambda>d. and_then (apply_all f ds) (\<lambda>ds. Ok (d # ds)))"

text \<open>The datagrams of one logical send, with the identification it used.\<close>

definition run_build ::
  "(bytes \<Rightarrow> u32) \<Rightarrow> send_args \<Rightarrow> wire_faults \<Rightarrow> datagram_addrs \<Rightarrow> send_config \<Rightarrow> bytes \<Rightarrow> identification_generator
     \<Rightarrow> (bytes list \<times> u32 option, cli_error) res \<times> identification_generator" where
  "run_build crc args faults addrs config payload g =
     (let with_faults = (\<lambda>(ds, ident). and_then (apply_all faults ds) (\<lambda>ds. Ok (ds, ident))) in
      case sa_raw_options_hex args of
        Some body_hex \<Rightarrow> (and_then (raw_options_datagram args payload body_hex) (\<lambda>d. with_faults ([d], None)), g)
      | None \<Rightarrow>
          (case cli_send_options args of
             Ok options \<Rightarrow>
               (case build_datagrams_for_send crc addrs payload options config g of
                  (r, g) \<Rightarrow> (and_then (map_err CliSend r) with_faults, g))
           | Err e \<Rightarrow> (Err e, g)
           | Panic \<Rightarrow> (Panic, g)))"

definition sent_line :: "send_args \<Rightarrow> u64 \<Rightarrow> bytes \<Rightarrow> usize list \<Rightarrow> usize \<Rightarrow> string" where
  "sent_line args sq payload order sent_bytes =
     ''sent seq='' @ show_nat (unat sq) @ '' payload='' @ show_nat (length payload) @ '' datagrams='' @ show_nat (length order)
     @ '' bytes='' @ show_nat sent_bytes @ '' '' @ show_addr (sa_src args) @ '':'' @ show_nat (unat (sa_src_port args))
     @ '' -> '' @ show_addr (sa_dst args) @ '':'' @ show_nat (unat (sa_dst_port args))"

definition manifest_line ::
  "(bytes \<Rightarrow> u32) \<Rightarrow> send_args \<Rightarrow> u64 \<Rightarrow> u32 option \<Rightarrow> bytes \<Rightarrow> usize list \<Rightarrow> usize \<Rightarrow> string" where
  "manifest_line crc args sq ident payload order sent_bytes =
     ''{\"seq\":'' @ show_nat (unat sq) @ '',\"src\":\"'' @ show_addr (sa_src args) @ ''\",\"dst\":\"'' @ show_addr (sa_dst args)
     @ ''\",\"src_port\":'' @ show_nat (unat (sa_src_port args)) @ '',\"dst_port\":'' @ show_nat (unat (sa_dst_port args))
     @ '',\"identification\":'' @ (case ident of None \<Rightarrow> ''null'' | Some v \<Rightarrow> show_nat (unat v))
     @ '',\"payload_len\":'' @ show_nat (length payload) @ '',\"payload_crc32c\":'' @ show_nat (unat (crc payload))
     @ '',\"datagrams\":'' @ show_nat (length order) @ '',\"bytes\":'' @ show_nat sent_bytes @ ''}''"

text \<open>\<open>write s\<close> is the result of writing the line \<open>s\<close> to the manifest.\<close>

fun run_loop ::
  "(bytes \<Rightarrow> u32) \<Rightarrow> stdout \<Rightarrow> send_args \<Rightarrow> wire_faults \<Rightarrow> datagram_addrs \<Rightarrow> send_config \<Rightarrow> send_socket
     \<Rightarrow> (string \<Rightarrow> (unit, io_error) res) \<Rightarrow> nat list \<Rightarrow> send_run \<Rightarrow> (unit, cli_error) res \<times> send_run" where
  "run_loop crc out args faults addrs config sock write [] st = (Ok (), st)"
| "run_loop crc out args faults addrs config sock write (index # rest) st =
     (case (if unat (sa_seq_start args) + index < 2 ^ 64 then Ok (sa_seq_start args + word_of_nat index)
            else Err (Message ''sequence number overflow'')) of
        Ok sq \<Rightarrow>
          (case payload_for args sq of
             Ok payload \<Rightarrow>
               (case run_build crc args faults addrs config payload (sr_identifications st) of
                  (r, g) \<Rightarrow>
                    let st = st\<lparr>sr_identifications := g\<rparr> in
                    (case and_then r (\<lambda>(datagrams, ident).
                          and_then (emit_order (sa_frag_emit args) (length datagrams)) (\<lambda>order. Ok (datagrams, ident, order))) of
                       Ok (datagrams, ident, order) \<Rightarrow>
                         (case emit_loop out args index sock datagrams 0 order st of
                            (Ok sent_bytes, st) \<Rightarrow>
                              (case println out (sr_lines st) (sent_line args sq payload order sent_bytes) of
                                 Ok lines \<Rightarrow>
                                   let st = st\<lparr>sr_lines := lines\<rparr>;
                                       line = manifest_line crc args sq ident payload order sent_bytes in
                                   (case (if sa_manifest args then map_err CliIo (write line) else Ok ()) of
                                      Ok _ \<Rightarrow>
                                        run_loop crc out args faults addrs config sock write rest
                                          (if sa_manifest args then st\<lparr>sr_manifest := sr_manifest st @ [line]\<rparr> else st)
                                    | Err e \<Rightarrow> (Err e, st)
                                    | Panic \<Rightarrow> (Panic, st))
                               | Err e \<Rightarrow> (Err e, st)
                               | Panic \<Rightarrow> (Panic, st))
                          | (Err e, st) \<Rightarrow> (Err e, st)
                          | (Panic, st) \<Rightarrow> (Panic, st))
                     | Err e \<Rightarrow> (Err e, st)
                     | Panic \<Rightarrow> (Panic, st)))
           | Err e \<Rightarrow> (Err e, st)
           | Panic \<Rightarrow> (Panic, st))
      | Err e \<Rightarrow> (Err e, st)
      | Panic \<Rightarrow> (Panic, st))"

definition send_addrs :: "send_args \<Rightarrow> datagram_addrs" where
  "send_addrs args =
     \<lparr>addr_src = sa_src args, addr_dst = sa_dst args, addr_src_port = sa_src_port args, addr_dst_port = sa_dst_port args\<rparr>"

definition base_config :: "send_args \<Rightarrow> send_config" where
  "base_config args =
     \<lparr>max_datagram_len = sa_max_datagram_len args,
      send_peer = \<lparr>peer_max_reassembled_size = sa_peer_mrds_size args, peer_max_segments = sa_peer_mrds_segments args\<rparr>,
      fragmentation = (if sa_no_frag args then Disabled else Auto), send_identification = None\<rparr>"

text \<open>\<open>open_socket\<close> and \<open>open_manifest\<close> are the results of opening the socket and the manifest file.\<close>

definition nothing_sent :: send_output where
  "nothing_sent = \<lparr>sr_sent = [], sr_lines = [], sr_manifest = []\<rparr>"

definition udpopt_send_run ::
  "(bytes \<Rightarrow> u32) \<Rightarrow> stdout \<Rightarrow> (byte \<times> byte \<times> byte \<times> byte, io_error) res \<Rightarrow> (unit, socket_error) res \<Rightarrow> (unit, io_error) res
     \<Rightarrow> send_socket \<Rightarrow> (string \<Rightarrow> (unit, io_error) res) \<Rightarrow> send_args \<Rightarrow> (unit, cli_error) res \<times> send_output" where
  "udpopt_send_run crc out urandom open_socket open_manifest sock write args =
     (case (if sa_count args = 0 then Err (Message ''count must be at least 1'')
            else if sa_raw_options_hex args \<noteq> None \<and> builds_options args
            then Err (Message ''--raw-options-hex replaces the option set; drop --apc, --mds, --mrds-size, --req and --res'')
            else
              and_then (wire_faults_parse args) (\<lambda>faults.
              and_then (case sa_identification args of
                  Some seed \<Rightarrow> Ok (generator_new seed)
                | None \<Rightarrow> map_err CliIo (from_os_random urandom)) (\<lambda>g.
              and_then (map_err from_socket open_socket) (\<lambda>_.
              and_then (if sa_manifest args then map_err CliIo open_manifest else Ok ()) (\<lambda>_.
              Ok (faults, g)))))) of
        Ok (faults, g) \<Rightarrow>
          (case run_loop crc out args faults (send_addrs args) (base_config args) sock write [0..<sa_count args]
                  \<lparr>sr_sent = [], sr_lines = [], sr_manifest = [], sr_identifications = g\<rparr> of
             (r, st) \<Rightarrow> (r, send_output.truncate st))
      | Err e \<Rightarrow> (Err e, nothing_sent)
      | Panic \<Rightarrow> (Panic, nothing_sent))"

text \<open>The exit status of \<open>main\<close>.\<close>

definition send_exit_code :: "(unit, cli_error) res \<Rightarrow> byte option" where
  "send_exit_code r =
     (case r of Ok _ \<Rightarrow> Some 0 | Err Permission \<Rightarrow> Some 2 | Err _ \<Rightarrow> Some 1 | Panic \<Rightarrow> None)"

section \<open>Hexadecimal arguments\<close>

lemma hex_digit_lower_hex:
  assumes "d < 16"
  shows "hex_digit (lower_hex d) = Some d" and "lower_hex d < 0x80" and "lower_hex d \<noteq> 43"
    and "\<not> is_ascii_whitespace (lower_hex d)" and "lower_hex d \<noteq> 58" and "lower_hex d \<noteq> 95"
proof -
  have n: "unat d < 16" using assms by (simp add: word_less_nat_alt)
  have l: "unat (lower_hex d) = (if unat d < 10 then 48 + unat d else 87 + unat d)"
    using n by (simp add: lower_hex_def word_less_nat_alt unat_word_ariths)
  show "lower_hex d < 0x80" "lower_hex d \<noteq> 43" "\<not> is_ascii_whitespace (lower_hex d)" "lower_hex d \<noteq> 58" "lower_hex d \<noteq> 95"
    using l n by (auto simp: word_less_nat_alt is_ascii_whitespace_def word_unat_eq_iff split: if_splits)
  show "hex_digit (lower_hex d) = Some d"
    using l n by (auto simp: hex_digit_def word_le_nat_alt lower_hex_def word_less_nat_alt)
qed

lemma byte_nibbles: "drop_bit 4 (b :: byte) < 16" "b AND 0x0f < 16" "16 * drop_bit 4 b + (b AND 0x0f) = b"
proof -
  have m: "b AND 0x0f = take_bit 4 b" by (simp add: take_bit_eq_mask mask_numeral)
  have h: "unat (drop_bit 4 b) = unat b div 16" by (simp add: unat_drop_bit)
  have l: "unat (b AND 0x0f) = unat b mod 16" 
    unfolding m unsigned_take_bit_eq by (simp add: take_bit_eq_mod)
  have "unat b < 256" by (rule unat_byte_less)
  then show "drop_bit 4 b < 16" "b AND 0x0f < 16" using h l by (simp_all add: word_less_nat_alt less_mult_imp_div_less)
  show "16 * drop_bit 4 b + (b AND 0x0f) = b"
    using \<open>unat b < 256\<close> by (simp add: word_unat_eq_iff unat_word_ariths h l mod_add_left_eq)
qed

lemma hex_pairs_hex: "hex_pairs (hex bs) = Ok bs"
proof (induction bs)
  case (Cons b bs)
  let ?h = "lower_hex (drop_bit 4 b)" and ?l = "lower_hex (b AND 0x0f)"
  have "hex (b # bs) = ?h # ?l # hex bs" by (simp add: hex_def)
  moreover have "u8_from_str_radix_16 ?h ?l = Some b"
    using byte_nibbles [of b] by (simp add: u8_from_str_radix_16_def hex_digit_lower_hex)
  moreover have "utf8_pair ?h ?l" using byte_nibbles [of b] by (simp add: utf8_pair_def hex_digit_lower_hex)
  ultimately show ?case using Cons by simp
qed (simp add: hex_def)

lemma parse_hex_roundtrip: "parse_hex_vec (hex bs) = Ok bs"
proof -
  have "filter (\<lambda>c. \<not> is_ascii_whitespace c \<and> c \<noteq> 58 \<and> c \<noteq> 95) (hex bs) = hex bs"
    using byte_nibbles by (auto simp: hex_def hex_digit_lower_hex filter_id_conv)
  moreover have "length (hex bs) mod 2 = 0" by (induction bs) (simp_all add: hex_def)
  ultimately show ?thesis by (simp add: parse_hex_vec_def hex_pairs_hex)
qed

definition ascii :: "bytes \<Rightarrow> bool" where
  "ascii s \<longleftrightarrow> list_all (\<lambda>b. b < 0x80) s"

lemma hex_pairs_ascii: "ascii s \<Longrightarrow> hex_pairs s \<noteq> Panic"
  by (induction s rule: hex_pairs.induct) (auto simp: ascii_def utf8_pair_def and_then_eq_Panic split: option.split)

lemma parse_hex_ascii: "ascii s \<Longrightarrow> parse_hex_vec s \<noteq> Panic"
  by (auto simp: parse_hex_vec_def Let_def ascii_def list_all_iff intro!: hex_pairs_ascii)

text \<open>
  A text whose UTF-8 bytes are even in number but whose characters do not align in pairs: \<open>a\<close>, a letter with
  an accent (two bytes), \<open>b\<close>.
\<close>

lemma parse_hex_vec_panics: "parse_hex_vec [0x61, 0xc3, 0xa9, 0x62] = Panic"
  by (simp add: parse_hex_vec_def is_ascii_whitespace_def utf8_pair_def)

lemma payload_for_capacity:
  "sa_payload_hex args = None \<Longrightarrow> sa_payload_size args = Some n \<Longrightarrow> payload_for args sq = Panic \<longleftrightarrow> 2 ^ 63 \<le> n"
  by (simp add: payload_for_def isize_max_def Let_def)

lemma parse_hex_vec_sign: "parse_hex_vec [43, 102] = Ok [15]"
  by (simp add: parse_hex_vec_def is_ascii_whitespace_def utf8_pair_def u8_from_str_radix_16_def hex_digit_def)

section \<open>Deliberate faults\<close>

lemma cli_surplus_layout_wire:
  assumes "wire_ok ip udp user_data surplus"
  shows "cli_surplus_layout_of (wire_datagram ip udp user_data surplus) =
    Ok (if surplus = [] then None
        else Some \<lparr>cl_starts_at = 28 + length user_data, cl_needs_pad = odd (length user_data)\<rparr>)"
proof -
  let ?d = "wire_datagram ip udp user_data surplus"
  obtain a b where ab: "u16_to_be_bytes (udp_length udp) = [a, b]" by (simp add: u16_to_be_bytes_def)
  then have "u16_from_be_bytes a b = udp_length udp" by (auto simp: u16_to_be_bytes_def)
  moreover have "?d ! 24 = a" "?d ! 25 = b"
    using ab by (simp_all add: wire_datagram_def nth_append udp_header_bytes_def u16_to_be_bytes_def)
  moreover have "20 + unat (udp_length udp) \<le> usize_max"
    using unat_u16_le_max [of "udp_length udp"] by (simp add: u16_max_def usize_max_def)
  moreover have "20 + unat (udp_length udp) = 28 + length user_data" using assms by (simp add: wire_ok_def)
  moreover have "((28 + length user_data) mod 2 \<noteq> 0) = odd (length user_data)" by presburger
  ultimately show ?thesis
    unfolding cli_surplus_layout_of_def CLI_IPV4_HEADER_LEN_def UDP_LENGTH_AT_def
    by (simp add: checked_add_def)
qed

text \<open>A datagram with its faults: the UDP checksum, the pad byte and the option checksum as they end up on the wire.\<close>

definition faulty_udp :: "wire_faults \<Rightarrow> udp_header \<Rightarrow> udp_header" where
  "faulty_udp f udp = (if wf_zero_udp_checksum f then udp\<lparr>udp_checksum := 0\<rparr> else udp)"

definition faulty_pad :: "wire_faults \<Rightarrow> byte" where
  "faulty_pad f = (case wf_pad f of None \<Rightarrow> 0 | Some p \<Rightarrow> p)"

definition faulty_ocs :: "wire_faults \<Rightarrow> u16 \<Rightarrow> u16" where
  "faulty_ocs f ocs = (case wf_ocs f of None \<Rightarrow> ocs | Some (a, b) \<Rightarrow> u16_from_be_bytes a b)"

definition faulty_surplus :: "bytes \<Rightarrow> byte \<Rightarrow> u16 \<Rightarrow> bytes \<Rightarrow> bytes" where
  "faulty_surplus user_data pad ocs opts = replicate (of_bool (odd (length user_data))) pad @ u16_to_be_bytes ocs @ opts"

lemma length_faulty_surplus [simp]:
  "length (faulty_surplus user_data pad ocs opts) = of_bool (odd (length user_data)) + 2 + length opts"
  by (simp add: faulty_surplus_def)

lemma put_slice_at:
  "k = length xs \<Longrightarrow> length old = length new \<Longrightarrow> put_slice (xs @ old @ rest) k new = Ok (xs @ new @ rest)"
  by (simp add: put_slice_def)

lemma zero_checksum:
  "put_slice (wire_datagram ip udp user_data surplus) UDP_CHECKSUM_AT [0, 0] =
     Ok (wire_datagram ip (udp\<lparr>udp_checksum := 0\<rparr>) user_data surplus)"
proof -
  let ?xs = "ip_header_bytes ip @ u16_to_be_bytes (src_port udp) @ u16_to_be_bytes (dst_port udp) @ u16_to_be_bytes (udp_length udp)"
  have "put_slice (?xs @ u16_to_be_bytes (udp_checksum udp) @ user_data @ surplus) UDP_CHECKSUM_AT [0, 0] =
      Ok (?xs @ [0, 0] @ user_data @ surplus)"
    by (rule put_slice_at) (simp_all add: UDP_CHECKSUM_AT_def CLI_IPV4_HEADER_LEN_def)
  then show ?thesis by (simp add: wire_datagram_def udp_header_bytes_def u16_to_be_bytes_def)
qed

lemma put_pad:
  assumes "odd (length user_data)"
  shows "put_slice (wire_datagram ip udp user_data (faulty_surplus user_data old ocs opts)) (28 + length user_data) [new] =
    Ok (wire_datagram ip udp user_data (faulty_surplus user_data new ocs opts))"
proof -
  have "put_slice ((ip_header_bytes ip @ udp_header_bytes udp @ user_data) @ [old] @ u16_to_be_bytes ocs @ opts)
      (28 + length user_data) [new] =
    Ok ((ip_header_bytes ip @ udp_header_bytes udp @ user_data) @ [new] @ u16_to_be_bytes ocs @ opts)"
    by (rule put_slice_at) simp_all
  then show ?thesis using assms by (simp add: wire_datagram_def faulty_surplus_def)
qed

lemma put_ocs:
  "put_slice (wire_datagram ip udp user_data (faulty_surplus user_data pad old opts))
      (28 + length user_data + of_bool (odd (length user_data))) [a, b] =
    Ok (wire_datagram ip udp user_data (faulty_surplus user_data pad (u16_from_be_bytes a b) opts))"
proof -
  have "put_slice ((ip_header_bytes ip @ udp_header_bytes udp @ user_data @ replicate (of_bool (odd (length user_data))) pad)
        @ u16_to_be_bytes old @ opts) (28 + length user_data + of_bool (odd (length user_data))) [a, b] =
    Ok ((ip_header_bytes ip @ udp_header_bytes udp @ user_data @ replicate (of_bool (odd (length user_data))) pad) @ [a, b] @ opts)"
    by (rule put_slice_at) simp_all
  then show ?thesis by (simp add: wire_datagram_def faulty_surplus_def)
qed

lemma wire_ok_faulty:
  assumes "wire_ok ip udp user_data surplus" and "length surplus' = length surplus"
  shows "wire_ok ip (faulty_udp f udp) user_data surplus'"
  using assms by (simp add: wire_ok_def faulty_udp_def)

lemma wire_faults_apply_eq:
  assumes "wire_ok ip udp user_data (surplus_bytes user_data ocs opts)"
  shows "wire_faults_apply f (wire_datagram ip udp user_data (surplus_bytes user_data ocs opts)) =
    (if wf_pad f \<noteq> None \<and> even (length user_data)
     then Err (Message ''--pad-hex needs an alignment pad, which only an odd payload length creates'')
     else Ok (wire_datagram ip (faulty_udp f udp) user_data (faulty_surplus user_data (faulty_pad f) (faulty_ocs f ocs) opts)))"
proof -
  have s: "surplus_bytes user_data ocs opts = faulty_surplus user_data 0 ocs opts"
    by (simp add: surplus_bytes_def faulty_surplus_def)
  let ?d = "wire_datagram ip (faulty_udp f udp) user_data (faulty_surplus user_data 0 ocs opts)"
  have z: "(if wf_zero_udp_checksum f then put_slice (wire_datagram ip udp user_data (faulty_surplus user_data 0 ocs opts)) UDP_CHECKSUM_AT [0, 0]
      else Ok (wire_datagram ip udp user_data (faulty_surplus user_data 0 ocs opts))) = (Ok ?d :: (_, cli_error) res)"
    by (simp add: zero_checksum faulty_udp_def)
  have ne: "faulty_surplus user_data 0 ocs opts \<noteq> []" by (simp add: faulty_surplus_def u16_to_be_bytes_def)
  have l: "(cli_surplus_layout_of ?d :: (_, cli_error) res) =
      Ok (Some \<lparr>cl_starts_at = 28 + length user_data, cl_needs_pad = odd (length user_data)\<rparr>)"
    using cli_surplus_layout_wire [OF wire_ok_faulty [OF assms [unfolded s] refl], of f] ne by simp
  let ?m = "Err (Message ''--pad-hex needs an alignment pad, which only an odd payload length creates'') :: (bytes, cli_error) res"
  let ?p = "wire_datagram ip (faulty_udp f udp) user_data (faulty_surplus user_data (faulty_pad f) ocs opts)"
  have p: "(case wf_pad f of None \<Rightarrow> Ok ?d
      | Some pad \<Rightarrow> if \<not> odd (length user_data) then ?m else put_slice ?d (28 + length user_data) [pad]) =
      (if wf_pad f \<noteq> None \<and> even (length user_data) then ?m else Ok ?p)"
    using put_pad by (auto simp: faulty_pad_def simp del: put_slice_Ok split: option.split)
  have o: "(case wf_ocs f of None \<Rightarrow> Ok ?p
      | Some (a, b) \<Rightarrow> put_slice ?p (28 + length user_data + of_bool (odd (length user_data))) [a, b]) =
      (Ok (wire_datagram ip (faulty_udp f udp) user_data (faulty_surplus user_data (faulty_pad f) (faulty_ocs f ocs) opts))
        :: (_, cli_error) res)"
    unfolding put_ocs by (simp add: faulty_ocs_def split: option.split)
  have none: "wf_ocs f = None \<and> wf_pad f = None \<Longrightarrow>
      ?d = wire_datagram ip (faulty_udp f udp) user_data (faulty_surplus user_data (faulty_pad f) (faulty_ocs f ocs) opts)"
    by (simp add: faulty_pad_def faulty_ocs_def)
  show ?thesis
  proof (cases "wf_ocs f = None \<and> wf_pad f = None")
    case True
    then show ?thesis unfolding wire_faults_apply_def s z using none by simp
  next
    case False
    show ?thesis
      unfolding wire_faults_apply_def s z and_then.simps if_not_P [OF False] l ok_or_def option.case cl_ocs_at_def
        cli_surplus_layout.select_convs p
      by (cases "wf_pad f \<noteq> None \<and> even (length user_data)") (simp_all only: if_True if_False and_then.simps o simp_thms)
  qed
qed

lemma recv_surplus_bad_pad:
  assumes "wire_ok ip udp user_data (faulty_surplus user_data pad ocs opts)" and "odd (length user_data)" and "pad \<noteq> 0"
  shows "recv_surplus (wire_headers ip udp user_data (faulty_surplus user_data pad ocs opts)) = Ok (NoOptions True OcsFailed)"
proof -
  let ?s = "faulty_surplus user_data pad ocs opts"
  have "idx (wire_datagram ip udp user_data ?s) (28 + length user_data) = (Ok pad :: (_, recv_error) res)"
    using assms(2) by (simp add: idx_def wire_datagram_def nth_append faulty_surplus_def)
  then show ?thesis
    using assms(2,3) locate_surplus_written [OF assms(1)]
    by (simp add: recv_surplus_def wire_headers_def check_pad_def)
qed

text \<open>
  C30: The deliberate faults of the sender program have exactly their intended effect: a datagram with given option bytes
  stays acceptable to the header checks with the same user data, a non-zero pad byte makes the receiver
  ignore the options, and otherwise the verdict is that of the option checksum as overwritten, under the
  UDP checksum as zeroed; a pad fault is refused exactly when there is no pad.
\<close>

theorem fault_injection:
  assumes "parse_hex_vec body_hex = Ok opts" and "raw_options_datagram args payload body_hex = Ok d"
  shows "if wf_pad f \<noteq> None \<and> even (length payload)
    then \<exists>m. wire_faults_apply f d = Err (Message m)
    else \<exists>d' h u. wire_faults_apply f d = Ok d' \<and> recv_headers d' = Ok h \<and> rh_user_data h = payload
      \<and> u \<noteq> 0 \<and> recv_surplus h =
        Ok (if odd (length payload) \<and> faulty_pad f \<noteq> 0 then NoOptions True OcsFailed
            else let n = word_of_nat (of_bool (odd (length payload)) + 2 + length opts) in
              ocs_disposition (faulty_ocs f (ocs_value opts n)) (ocs_value opts n)
                (if wf_zero_udp_checksum f then 0 else u) opts (10 + length payload + of_bool (odd (length payload))))"
proof -
  let ?body = "[0, 0] @ opts"
  let ?ip = "assembled_ip (sa_src args) (sa_dst args) payload ?body"
  let ?udp = "assembled_udp ?ip (sa_src_port args) (sa_dst_port args) payload"
  define n where "n = (word_of_nat (of_bool (odd (length payload)) + 2 + length opts) :: u16)"
  let ?s = "surplus_bytes payload (ocs_value opts n) opts"
  have len: "28 + length payload + 1 + (2 + length opts) \<le> u16_max"
    using assms by (simp add: raw_options_datagram_def Let_def length_defs CLI_IPV4_HEADER_LEN_def split: if_splits)
  then have fits: "assembled_len payload ?body \<le> u16_max" by (simp add: assembled_len_def)
  have two: "replicate 2 (0 :: byte) = [0, 0]" by (simp add: numeral_2_eq_2)
  have ad: "assemble_datagram src dst sport dport payload ?body = (Ok (assembled src dst sport dport payload ?body) :: (_, cli_error) res)"
    for src dst sport dport using assemble_datagram_eq [OF _ fits] by simp
  have d: "d = assembled (sa_src args) (sa_dst args) (sa_src_port args) (sa_dst_port args) payload ?body"
    using assms len ad
    by (auto simp: raw_options_datagram_def Let_def length_defs CLI_IPV4_HEADER_LEN_def and_then_eq_Ok two split: if_splits)
  have so: "surplus_of payload ?body = ?s" by (simp add: surplus_of_def n_def)
  have nl: "word_of_nat (length (surplus_bytes payload v opts)) = n" for v by (simp add: n_def)
  have wire: "wire_ok ?ip ?udp payload ?s"
    using assembled_wire_ok [OF _ fits] unfolding so [symmetric] by (simp add: Let_def)
  have dw: "d = wire_datagram ?ip ?udp payload ?s" using d so by (simp add: assembled_def Let_def)
  have u: "udp_checksum ?udp \<noteq> 0" using assembled_udp_checksum(2) len by simp
  let ?f = "faulty_surplus payload (faulty_pad f) (faulty_ocs f (ocs_value opts n)) opts"
  have fw: "wire_ok ?ip (faulty_udp f ?udp) payload ?f" by (rule wire_ok_faulty [OF wire]) simp
  have rs: "recv_surplus (wire_headers ?ip (faulty_udp f ?udp) payload ?f) =
      Ok (if odd (length payload) \<and> faulty_pad f \<noteq> 0 then NoOptions True OcsFailed
          else ocs_disposition (faulty_ocs f (ocs_value opts n)) (ocs_value opts n)
            (if wf_zero_udp_checksum f then 0 else udp_checksum ?udp) opts (10 + length payload + of_bool (odd (length payload))))"
  proof (cases "odd (length payload) \<and> faulty_pad f \<noteq> 0")
    case True
    then show ?thesis using recv_surplus_bad_pad [OF fw] by simp
  next
    case False
    then have t: "?f = surplus_bytes payload (faulty_ocs f (ocs_value opts n)) opts"
      by (auto simp: faulty_surplus_def surplus_bytes_def)
    have c: "udp_checksum (faulty_udp f ?udp) = (if wf_zero_udp_checksum f then 0 else udp_checksum ?udp)"
      by (simp add: faulty_udp_def)
    show ?thesis
      using recv_surplus_written [OF fw [unfolded t]] unfolding t nl if_not_P [OF False] c .
  qed
  have ud: "rh_user_data (wire_headers ?ip (faulty_udp f ?udp) payload ?f) = payload" by (simp add: wire_headers_def)
  note ap = wire_faults_apply_eq [OF wire, of f] and rh = recv_headers_written [OF fw]
  show ?thesis
  proof (cases "wf_pad f \<noteq> None \<and> even (length payload)")
    case True
    then show ?thesis using ap [unfolded if_P [OF True]] unfolding if_P [OF True] dw by blast
  next
    case False
    then show ?thesis
      using ap [unfolded if_not_P [OF False]] rh rs ud u unfolding if_not_P [OF False] dw Let_def n_def [symmetric] by blast
  qed
qed

theorem fault_injection_witness:
  "\<exists>d' h. wire_faults_apply \<lparr>wf_ocs = Some (0xde, 0xad), wf_pad = None, wf_zero_udp_checksum = False\<rparr>
      (assembled (Ipv4Addr 127 0 0 1) (Ipv4Addr 127 0 0 1) 40000 40001 [7, 8, 9] [0, 0, 4, 4, 5, 220, 0, 0]) = Ok d'
    \<and> recv_headers d' = Ok h \<and> rh_user_data h = [7, 8, 9]"
proof -
  let ?o = "[4, 4, 5, 220, 0, 0] :: bytes"
  let ?d = "assembled (Ipv4Addr 127 0 0 1) (Ipv4Addr 127 0 0 1) 40000 40001 [7, 8, 9] [0, 0, 4, 4, 5, 220, 0, 0]"
  have two: "replicate 2 (0 :: byte) = [0, 0]" by (simp add: numeral_2_eq_2)
  have "raw_options_datagram send_args_default [7, 8, 9] (hex ?o) = Ok ?d"
    by (simp add: send_args_default_def raw_options_datagram_def parse_hex_roundtrip assemble_datagram_eq length_assembled assembled_len_def
        CLI_IPV4_HEADER_LEN_def length_defs u16_max_def two Let_def)
  from fault_injection [OF parse_hex_roundtrip this,
      of "\<lparr>wf_ocs = Some (0xde, 0xad), wf_pad = None, wf_zero_udp_checksum = False\<rparr>"]
  show ?thesis by auto
qed

end
