(* ===== verification/Cli_Send_Safe.thy ===== *)
theory Cli_Send_Safe
  imports Cli_Send
begin

text \<open>
  The sender program as a whole: it never panics on ASCII arguments, and every datagram it sends passes
  the header checks of a receiver, deliberate faults included.
\<close>

section \<open>The sender program never panics\<close>

context typed_option
begin

lemma raw_from_encoded: "raw_from_typed encode t = (Ok \<lparr>opt_kind = KIND, opt_value = val t\<rparr> :: (_, 'e) res)"
  using parse_encoded [of 0 t "[]"]
  by (auto simp: raw_from_typed_def options_next_items(1) raw_from_ref_def split: prod.split)

end

lemmas push_typed_Ok = apc_opt.raw_from_encoded mds_opt.raw_from_encoded mrds_opt.raw_from_encoded
  req_opt.raw_from_encoded res_opt.raw_from_encoded

definition ascii_opt :: "bytes option \<Rightarrow> bool" where
  "ascii_opt t \<longleftrightarrow> (case t of None \<Rightarrow> True | Some s \<Rightarrow> ascii s)"

definition ascii_args :: "send_args \<Rightarrow> bool" where
  "ascii_args args \<longleftrightarrow>
     ascii_opt (sa_payload_hex args) \<and> ascii_opt (sa_req args) \<and> ascii_opt (sa_res args) \<and> ascii_opt (sa_raw_options_hex args)
     \<and> ascii_opt (sa_ocs_hex args) \<and> ascii_opt (sa_pad_hex args)"

lemma parse_fields_ascii:
  assumes "ascii s"
  shows "parse_token s \<noteq> Panic" "parse_ocs_field s \<noteq> Panic" "parse_pad_byte s \<noteq> Panic"
  using parse_hex_ascii [OF assms]
  by (auto simp: parse_token_def parse_ocs_field_def parse_pad_byte_def and_then_eq_Panic split: list.splits)

lemma cli_send_options_ascii: "ascii_args args \<Longrightarrow> cli_send_options args \<noteq> Panic"
  by (auto simp: cli_send_options_def ascii_args_def ascii_opt_def send_push_typed_def push_typed_Ok and_then_eq_Panic
      parse_fields_ascii Let_def split: option.splits)

text \<open>A generated payload that can be allocated.\<close>

definition sized_args :: "send_args \<Rightarrow> bool" where
  "sized_args args \<longleftrightarrow> (case sa_payload_size args of None \<Rightarrow> True | Some n \<Rightarrow> n < 2 ^ 63)"

lemma payload_for_ascii: "ascii_args args \<Longrightarrow> sized_args args \<Longrightarrow> payload_for args sq \<noteq> Panic"
  by (auto simp: sized_args_def isize_max_def payload_for_def ascii_args_def ascii_opt_def parse_hex_ascii Let_def split: option.splits)

lemma wire_faults_parse_ascii: "ascii_args args \<Longrightarrow> wire_faults_parse args \<noteq> Panic"
  by (auto simp: wire_faults_parse_def ascii_args_def ascii_opt_def and_then_eq_Panic parse_fields_ascii split: option.splits)

text \<open>The datagrams that either way of building yields.\<close>

definition built :: "bytes \<Rightarrow> bool" where
  "built d \<longleftrightarrow> (\<exists>addrs p b. d = addressed addrs p b \<and> body_ok b \<and> assembled_len p b \<le> u16_max)"

lemma build_outgoing_built:
  assumes "build_outgoing_datagrams crc addrs payload so config = Ok ds" and "d \<in> set ds"
  shows "built d"
proof -
  note len = build_outgoing_lengths [OF assms] and m = build_outgoing_sendable(2) [OF assms(1)]
  from assms(1) obtain p b where d: "d = addressed addrs p b" "body_ok b"
  proof (cases rule: build_outgoing_Ok_cases)
    case (single body)
    then show ?thesis using that assms(2) by simp
  next
    case (fragments body ident frs)
    then show ?thesis using that assms(2) fragment_body_ok(1) [OF fragments(5)] by auto
  qed
  then have "assembled_len p b \<le> u16_max" using len m by (simp add: length_addressed)
  then show ?thesis using d by (auto simp: built_def)
qed

lemma raw_options_datagram_built:
  "ascii body_hex \<Longrightarrow> raw_options_datagram args payload body_hex \<noteq> Panic"
  "raw_options_datagram args payload body_hex = Ok d \<Longrightarrow> built d"
proof -
  have a: "assemble_datagram (sa_src args) (sa_dst args) (sa_src_port args) (sa_dst_port args) payload (replicate (unat length_OCS) 0 @ opts) =
      (Ok (addressed (send_addrs args) payload (replicate (unat length_OCS) 0 @ opts)) :: (_, cli_error) res)
    \<and> body_ok (replicate (unat length_OCS) 0 @ opts) \<and> assembled_len payload (replicate (unat length_OCS) 0 @ opts) \<le> u16_max"
    if "CLI_IPV4_HEADER_LEN + unat length_UDP_HEADER + length payload + 1 + length (replicate (unat length_OCS) (0 :: byte) @ opts) \<le> u16_max"
    for opts
  proof -
    have fits: "assembled_len payload (replicate (unat length_OCS) 0 @ opts) \<le> u16_max"
      using that by (simp add: assembled_len_def CLI_IPV4_HEADER_LEN_def length_defs)
    then show ?thesis
      using assemble_datagram_eq [OF _ fits] by (auto simp: addressed_def send_addrs_def body_ok_def length_defs)
  qed
  show "ascii body_hex \<Longrightarrow> raw_options_datagram args payload body_hex \<noteq> Panic"
    using a parse_hex_ascii by (auto simp: raw_options_datagram_def and_then_eq_Panic Let_def not_less)
  show "raw_options_datagram args payload body_hex = Ok d \<Longrightarrow> built d"
    using a by (auto simp: raw_options_datagram_def and_then_eq_Ok Let_def not_less built_def split: if_splits)
qed

lemma apply_built:
  assumes "built d"
  shows "wire_faults_apply f d \<noteq> Panic"
proof -
  obtain addrs p b where d: "d = addressed addrs p b" "body_ok b" "assembled_len p b \<le> u16_max"
    using assms by (auto simp: built_def)
  let ?ip = "assembled_ip (addr_src addrs) (addr_dst addrs) p b"
  let ?udp = "assembled_udp ?ip (addr_src_port addrs) (addr_dst_port addrs) p"
  have wire: "wire_ok ?ip ?udp p (surplus_of p b)"
    using assembled_wire_ok [OF _ d(3)] d(2) by (simp add: body_ok_def Let_def)
  have dw: "d = wire_datagram ?ip ?udp p (surplus_of p b)" using d(1) by (simp add: addressed_def assembled_def Let_def)
  show ?thesis
  proof (cases "b = []")
    case True
    then have s: "surplus_of p b = []" by (simp add: surplus_of_def)
    have "(cli_surplus_layout_of (wire_datagram ?ip u p []) :: (_, cli_error) res) = Ok None"
      if "u = ?udp \<or> u = ?udp\<lparr>udp_checksum := 0\<rparr>" for u
      using that cli_surplus_layout_wire [of ?ip u p "[]"] wire by (auto simp: s wire_ok_def)
    then show ?thesis by (simp add: dw s wire_faults_apply_def zero_checksum ok_or_def)
  next
    case False
    then have "surplus_of p b = surplus_bytes p (ocs_value (drop 2 b) (word_of_nat (of_bool (odd (length p)) + length b))) (drop 2 b)"
      by (simp add: surplus_of_def)
    then show ?thesis using wire_faults_apply_eq [of ?ip ?udp p _ "drop 2 b" f] wire by (simp add: dw)
  qed
qed

lemma apply_all_no_panic: "\<forall>d \<in> set ds. built d \<Longrightarrow> apply_all f ds \<noteq> Panic"
  by (induction ds) (auto simp: and_then_eq_Panic apply_built)

lemma build_datagrams_for_send_built:
  assumes "build_datagrams_for_send crc addrs payload options config g = (r, g')" and "send_identification config = None"
  shows "r \<noteq> Panic" and "r = Ok (ds, i) \<Longrightarrow> d \<in> set ds \<Longrightarrow> built d"
proof -
  have n: "fst (next_id g) \<noteq> Panic" by (simp add: next_id_def split: option.split)
  have b: "build_outgoing_datagrams crc addrs payload options c \<noteq> Panic" for c by (rule build_outgoing_no_panic)
  show "r \<noteq> Panic"
    using assms n b by (auto simp: build_datagrams_for_send_def and_then_eq_Panic split: res.splits send_error.splits prod.splits)
  show "r = Ok (ds, i) \<Longrightarrow> d \<in> set ds \<Longrightarrow> built d"
    using assms build_outgoing_built
    by (auto simp: build_datagrams_for_send_def and_then_eq_Ok split: res.splits send_error.splits prod.splits)
qed

lemma run_build_no_panic:
  assumes "ascii_args args"
  shows "fst (run_build crc args faults addrs (base_config args) payload g) \<noteq> Panic"
proof (cases "sa_raw_options_hex args")
  case None
  have i: "send_identification (base_config args) = None" by (simp add: base_config_def)
  show ?thesis
  proof (cases "cli_send_options args")
    case (Ok so)
    obtain r g' where bd: "build_datagrams_for_send crc addrs payload so (base_config args) g = (r, g')" by force
    note b = build_datagrams_for_send_built [OF bd i]
    have "apply_all faults ds \<noteq> Panic" if "r = Ok (ds, i)" for ds i
      using b(2) [OF that] by (intro apply_all_no_panic) blast
    then show ?thesis using b(1) by (auto simp: run_build_def None Ok bd and_then_eq_Panic)
  qed (use cli_send_options_ascii [OF assms] in \<open>simp_all add: run_build_def None\<close>)
next
  case (Some t)
  then have "ascii t" using assms by (simp add: ascii_args_def ascii_opt_def)
  then show ?thesis
    using raw_options_datagram_built
    by (auto simp: run_build_def Some and_then_eq_Panic simp del: apply_all.simps intro!: apply_all_no_panic)
qed

lemma emit_order_bounds: "emit_order requested n = Ok order \<Longrightarrow> \<forall>i \<in> set order. i < n"
  by (auto simp: emit_order_def find_None_iff split: option.splits if_splits)

lemma emit_order_no_panic: "emit_order requested n \<noteq> Panic"
  by (simp add: emit_order_def split: option.split)

text \<open>A run that panics does so at a line that standard output refuses.\<close>

definition refused :: "stdout \<Rightarrow> 'a send_output_scheme \<Rightarrow> bool" where
  "refused out st \<longleftrightarrow> (\<exists>line. \<not> out (length (sr_lines st)) line)"

lemma println_refused: "println out lines line = Panic \<Longrightarrow> \<exists>line. \<not> out (length lines) line"
  by (auto simp: println_def split: if_splits)

lemma println_not_Err [simp]: "println out lines line \<noteq> Err e"
  by (simp add: println_def)

lemma emit_loop_no_panic:
  "\<forall>i d. sock i d \<noteq> Panic \<Longrightarrow> \<forall>i \<in> set order. i < length datagrams \<Longrightarrow>
     emit_loop out args index sock datagrams sent_bytes order st = (Panic, st') \<Longrightarrow> refused out st'"
proof (induction order arbitrary: sent_bytes st)
  case (Cons i order)
  then show ?case
    by (auto simp: and_then_eq_Panic Let_def refused_def dest!: println_refused split: res.splits if_splits)
qed simp

lemma run_loop_emitted:
  assumes "unat (sa_seq_start args) + i < 2 ^ 64" and "payload_for args (sa_seq_start args + word_of_nat i) = Ok p"
    and "run_build crc args faults addrs config p (sr_identifications st) = (r, g)"
    and "and_then r (\<lambda>(ds, ident). and_then (emit_order (sa_frag_emit args) (length ds)) (\<lambda>order. Ok (ds, ident, order)))
      = Ok (ds, ident, order)"
    and "emit_loop out args i sock ds 0 order (st\<lparr>sr_identifications := g\<rparr>) = (v, st1)"
  shows "\<exists>st2. sr_sent st2 = sr_sent st1
    \<and> (run_loop crc out args faults addrs config sock write (i # rest) st = run_loop crc out args faults addrs config sock write rest st2
       \<or> (\<exists>e. run_loop crc out args faults addrs config sock write (i # rest) st = (Err e, st2))
       \<or> (v = Panic \<and> st2 = st1 \<or> (\<exists>s. write s = Panic) \<or> refused out st2)
          \<and> run_loop crc out args faults addrs config sock write (i # rest) st = (Panic, st2))"
proof (cases v)
  case (Ok n)
  let ?l = "manifest_line crc args (sa_seq_start args + word_of_nat i) ident p order n"
  show ?thesis
  proof (cases "println out (sr_lines st1) (sent_line args (sa_seq_start args + word_of_nat i) p order n) :: (_, cli_error) res")
    case l: (Ok lines)
    let ?st = "st1\<lparr>sr_lines := lines\<rparr>"
    show ?thesis
    proof (cases "sa_manifest args")
      case m: True
      show ?thesis
      proof (cases "write ?l")
        case w: (Ok u)
        show ?thesis
          by (rule exI [of _ "?st\<lparr>sr_manifest := sr_manifest ?st @ [?l]\<rparr>"]) (simp add: assms assms(1) [simplified] Ok Let_def l m w)
      next
        case w: (Err e)
        show ?thesis by (rule exI [of _ ?st]) (simp add: assms assms(1) [simplified] Ok Let_def l m w)
      next
        case w: Panic
        show ?thesis by (rule exI [of _ ?st]) (use w in \<open>auto simp: assms assms(1) [simplified] Ok Let_def l m\<close>)
      qed
    next
      case False
      show ?thesis by (rule exI [of _ ?st]) (simp add: assms assms(1) [simplified] Ok Let_def l False)
    qed
  next
    case l: Panic
    show ?thesis
      by (rule exI [of _ st1]) (use println_refused [OF l] in \<open>simp add: assms assms(1) [simplified] Ok Let_def l refused_def\<close>)
  qed simp
next
  case (Err e)
  show ?thesis by (rule exI [of _ st1]) (simp add: assms assms(1) [simplified] Err Let_def)
next
  case Panic
  show ?thesis by (rule exI [of _ st1]) (simp add: assms assms(1) [simplified] Panic Let_def)
qed

text \<open>One turn of the loop that does not get as far as sending ends it, with an error for admissible arguments.\<close>

lemma run_loop_stops:
  obtains (stop) v st' where "run_loop crc out args faults addrs (base_config args) sock write (i # rest) st = (v, st')"
      "sr_sent st' = sr_sent st" "ascii_args args \<Longrightarrow> sized_args args \<Longrightarrow> v \<noteq> Panic"
    | (emit) p r g ds ident order where "unat (sa_seq_start args) + i < 2 ^ 64"
      "payload_for args (sa_seq_start args + word_of_nat i) = Ok p"
      "run_build crc args faults addrs (base_config args) p (sr_identifications st) = (r, g)"
      "and_then r (\<lambda>(ds, ident). and_then (emit_order (sa_frag_emit args) (length ds)) (\<lambda>order. Ok (ds, ident, order)))
        = Ok (ds, ident, order)"
proof (cases "unat (sa_seq_start args) + i < 2 ^ 64")
  case sq: True
  show ?thesis
  proof (cases "payload_for args (sa_seq_start args + word_of_nat i)")
    case (Ok p)
    obtain r g where b: "run_build crc args faults addrs (base_config args) p (sr_identifications st) = (r, g)" by force
    have r: "ascii_args args \<Longrightarrow> r \<noteq> Panic"
      using run_build_no_panic [of args crc faults addrs p "sr_identifications st"] b by simp
    let ?o = "and_then r (\<lambda>(ds, ident). and_then (emit_order (sa_frag_emit args) (length ds)) (\<lambda>order. Ok (ds, ident, order)))"
    show ?thesis
    proof (cases ?o)
      case o: (Ok x)
      then show ?thesis using emit [OF sq Ok b] by (cases x) auto
    next
      case o: (Err e)
      then show ?thesis using stop sq Ok b by (simp add: Let_def)
    next
      case o: Panic
      then have "ascii_args args \<Longrightarrow> False" using r emit_order_no_panic by (auto simp: and_then_eq_Panic)
      then show ?thesis using o stop [of Panic] sq Ok b by (auto simp: Let_def)
    qed
  next
    case (Err e)
    then show ?thesis using stop sq by simp
  next
    case Panic
    then show ?thesis using stop [of Panic] sq payload_for_ascii [of args] by auto
  qed
next
  case False
  then show ?thesis using stop by simp
qed

lemma run_loop_no_panic:
  assumes "ascii_args args" and "sized_args args" and "\<forall>i d. sock i d \<noteq> Panic" and "\<forall>s. write s \<noteq> Panic"
  shows "run_loop crc out args faults addrs (base_config args) sock write idxs st = (Panic, st') \<Longrightarrow> refused out st'"
proof (induction idxs arbitrary: st)
  case (Cons i rest)
  show ?case
  proof (cases rule: run_loop_stops [of crc out args faults addrs sock "write" i rest st])
    case (stop v st')
    then show ?thesis using Cons.prems assms(1,2) by simp
  next
    case (emit p r g ds ident order)
    have "\<forall>i \<in> set order. i < length ds" using emit(4) emit_order_bounds by (auto simp: and_then_eq_Ok)
    obtain v st1 where e: "emit_loop out args i sock ds 0 order (st\<lparr>sr_identifications := g\<rparr>) = (v, st1)" by force
    have "v = Panic \<Longrightarrow> refused out st1"
      using emit_loop_no_panic [OF assms(3) \<open>\<forall>i \<in> set order. i < length ds\<close>] e by blast
    then show ?thesis
      using run_loop_emitted [OF emit e, of "write" rest] Cons.IH Cons.prems assms(4)
      by (metis Pair_inject res.distinct(5))
  qed
qed simp

section \<open>What the sender program sends\<close>

definition acceptable :: "bytes \<Rightarrow> bool" where
  "acceptable d \<longleftrightarrow> (\<exists>h. recv_headers d = Ok h)"

lemma apply_acceptable:
  assumes "built d" and "wire_faults_apply f d = Ok d'"
  shows "acceptable d'"
proof -
  obtain addrs p b where d: "d = addressed addrs p b" "body_ok b" "assembled_len p b \<le> u16_max"
    using assms by (auto simp: built_def)
  let ?ip = "assembled_ip (addr_src addrs) (addr_dst addrs) p b"
  let ?udp = "assembled_udp ?ip (addr_src_port addrs) (addr_dst_port addrs) p"
  have wire: "wire_ok ?ip ?udp p (surplus_of p b)"
    using assembled_wire_ok [OF _ d(3)] d(2) by (simp add: body_ok_def Let_def)
  have dw: "d = wire_datagram ?ip ?udp p (surplus_of p b)" using d(1) by (simp add: addressed_def assembled_def Let_def)
  have "\<exists>s. d' = wire_datagram ?ip (faulty_udp f ?udp) p s \<and> length s = length (surplus_of p b)"
  proof (cases "b = []")
    case True
    then have s: "surplus_of p b = []" by (simp add: surplus_of_def)
    have "(cli_surplus_layout_of (wire_datagram ?ip (faulty_udp f ?udp) p []) :: (_, cli_error) res) = Ok None"
      using cli_surplus_layout_wire [OF wire_ok_faulty [OF wire, of "[]"]] by (simp add: s)
    then show ?thesis
      using assms(2) by (auto simp: dw s wire_faults_apply_def zero_checksum ok_or_def faulty_udp_def split: if_splits)
  next
    case False
    then have s: "surplus_of p b = surplus_bytes p (ocs_value (drop 2 b) (word_of_nat (of_bool (odd (length p)) + length b))) (drop 2 b)"
      by (simp add: surplus_of_def)
    from wire_faults_apply_eq [OF wire [unfolded this], of f] assms(2) show ?thesis
      unfolding dw s by (auto split: if_splits)
  qed
  then obtain s where s: "d' = wire_datagram ?ip (faulty_udp f ?udp) p s" "length s = length (surplus_of p b)" by blast
  show ?thesis using recv_headers_written [OF wire_ok_faulty [OF wire s(2)]] by (auto simp: acceptable_def s(1))
qed

lemma apply_all_acceptable:
  "\<forall>d \<in> set ds. built d \<Longrightarrow> apply_all f ds = Ok ds' \<Longrightarrow> list_all acceptable ds'"
  by (induction ds arbitrary: ds') (auto simp: and_then_eq_Ok apply_acceptable)

lemma run_build_acceptable:
  assumes "run_build crc args faults addrs (base_config args) payload g = (Ok (ds, ident), g')"
  shows "list_all acceptable ds"
proof (cases "sa_raw_options_hex args")
  case None
  have i: "send_identification (base_config args) = None" by (simp add: base_config_def)
  obtain so where so: "cli_send_options args = Ok so" using assms by (auto simp: run_build_def None split: res.splits)
  obtain r g1 where bd: "build_datagrams_for_send crc addrs payload so (base_config args) g = (r, g1)" by force
  obtain ds0 k where r: "r = Ok (ds0, k)" and a: "apply_all faults ds0 = Ok ds"
    using assms by (auto simp: run_build_def None so bd and_then_eq_Ok)
  have "\<forall>d \<in> set ds0. built d" using build_datagrams_for_send_built(2) [OF bd i r] by blast
  then show ?thesis using a by (rule apply_all_acceptable)
next
  case (Some t)
  then obtain d where "raw_options_datagram args payload t = Ok d" and a: "apply_all faults [d] = Ok ds"
    using assms by (auto simp: run_build_def and_then_eq_Ok simp del: apply_all.simps)
  then have "\<forall>d \<in> set [d]. built d" using raw_options_datagram_built(2) by simp
  then show ?thesis using a by (rule apply_all_acceptable)
qed

lemma emit_loop_acceptable:
  "list_all acceptable datagrams \<Longrightarrow> list_all acceptable (sr_sent st) \<Longrightarrow>
     list_all acceptable (sr_sent (snd (emit_loop out args index sock datagrams sent_bytes order st)))"
proof (induction order arbitrary: sent_bytes st)
  case (Cons i order)
  show ?case
  proof (cases "(idx datagrams i :: (_, cli_error) res)")
    case (Ok d)
    then have "acceptable d" using Cons.prems(1) by (auto simp: idx_def list_all_iff split: if_splits)
    then show ?thesis using Cons by (simp add: Ok Let_def split: res.split prod.split)
  qed (use Cons.prems in simp_all)
qed simp

lemma run_loop_acceptable:
  "list_all acceptable (sr_sent st) \<Longrightarrow>
     list_all acceptable (sr_sent (snd (run_loop crc out args faults addrs (base_config args) sock write idxs st)))"
proof (induction idxs arbitrary: st)
  case (Cons i rest)
  show ?case
  proof (cases rule: run_loop_stops [of crc out args faults addrs sock "write" i rest st])
    case (stop v st')
    then show ?thesis using Cons.prems by simp
  next
    case (emit p r g ds ident order)
    have ds: "list_all acceptable ds" using emit(3,4) run_build_acceptable by (auto simp: and_then_eq_Ok)
    obtain v st1 where e: "emit_loop out args i sock ds 0 order (st\<lparr>sr_identifications := g\<rparr>) = (v, st1)" by force
    have "list_all acceptable (sr_sent st1)"
      using emit_loop_acceptable [OF ds, of "st\<lparr>sr_identifications := g\<rparr>" out args i sock 0 order] Cons.prems by (simp add: e)
    then show ?thesis
      using run_loop_emitted [OF emit e, of "write" rest] Cons.IH by (metis snd_conv)
  qed
qed simp

text \<open>
  C29: The sender program is safe: with hexadecimal arguments in ASCII and a generated payload of fewer than
  2 to the 63 bytes it panics only if standard output refuses the line it is about to print, whatever else the
  arguments are and however the socket, the random device and the manifest file answer; and every datagram it
  hands to the socket, with or without deliberate faults, passes a receiver's header checks.
\<close>

theorem send_program_safe:
  assumes "ascii_args args" and "sized_args args" and "\<forall>i d. sock i d \<noteq> Panic" and "\<forall>s. write s \<noteq> Panic"
    and "urandom \<noteq> Panic" and "open_socket \<noteq> Panic" and "open_manifest \<noteq> Panic"
  shows "case udpopt_send_run crc out urandom open_socket open_manifest sock write args of
    (r, run) \<Rightarrow>
      (r = Panic \<longrightarrow> (\<exists>line. \<not> out (length (sr_lines run)) line))
      \<and> list_all (\<lambda>d. \<exists>h. recv_headers d = Ok h) (sr_sent run)"
proof -
  let ?st = "\<lambda>g. \<lparr>sr_sent = [], sr_lines = [], sr_manifest = [], sr_identifications = g\<rparr>"
  let ?run = "\<lambda>faults g. run_loop crc out args faults (send_addrs args) (base_config args) sock write [0..<sa_count args] (?st g)"
  have loop: "(r = Panic \<longrightarrow> refused out st) \<and> list_all acceptable (sr_sent st)" if "?run faults g = (r, st)" for faults g r st
    using run_loop_no_panic [OF assms(1-4), of crc out faults "send_addrs args" "[0..<sa_count args]" "?st g" st]
      run_loop_acceptable [of "?st g" crc out args faults "send_addrs args" sock "write" "[0..<sa_count args]"] that
    by auto
  have prepared: "p \<noteq> Panic \<Longrightarrow>
      case (case p of Ok (faults, g) \<Rightarrow> (case ?run faults g of (r, st) \<Rightarrow> (r, send_output.truncate st))
            | Err e \<Rightarrow> (Err e, nothing_sent) | Panic \<Rightarrow> (Panic, nothing_sent)) of
        (r, run) \<Rightarrow> (r = Panic \<longrightarrow> refused out run) \<and> list_all acceptable (sr_sent run)" for p
    using loop by (auto simp: nothing_sent_def send_output.truncate_def refused_def split: res.split prod.split)
  show ?thesis
    unfolding udpopt_send_run_def acceptable_def [symmetric] refused_def [symmetric]
    by (rule prepared) (use wire_faults_parse_ascii [OF assms(1)] assms(5-7) in
      \<open>auto simp: from_os_random_def and_then_eq_Panic split: option.split\<close>)
qed

theorem send_program_safe_witness:
  "fst (udpopt_send_run (\<lambda>_. 7) (\<lambda>_ _. True) (Ok (1, 2, 3, 4)) (Ok ()) (Ok ()) (\<lambda>_ d. Ok (length d)) (\<lambda>_. Ok ())
      (send_args_default\<lparr>sa_payload_size := Some 40\<rparr>)) \<noteq> Panic"
proof -
  let ?args = "send_args_default\<lparr>sa_payload_size := Some 40\<rparr>"
  have "ascii_args ?args" "sized_args ?args" by (simp_all add: ascii_args_def ascii_opt_def sized_args_def send_args_default_def)
  from send_program_safe [OF this, of "\<lambda>_ d. Ok (length d)" "\<lambda>_. Ok ()" "Ok (1, 2, 3, 4)" "Ok ()" "Ok ()" "\<lambda>_ _. True" "\<lambda>_. 7"]
  show ?thesis by (auto split: prod.splits)
qed

end
