(* ===== verification/Cli_Recv.thy ===== *)
theory Cli_Recv
  imports Cli_Send
begin

text \<open>
  The receiver program (\<open>src/bin/udpopt-recv.rs\<close>): the wire summary, the lines it prints as text or JSON with
  the texts of the errors (\<open>src/error.rs\<close>), and the receive loop with its exit status. \<open>clap\<close> has already
  turned the command line into the record of arguments; the results of binding the socket and of its
  receive calls, with the clock, are parameters, and so are standard output and the operating system's text
  of an I/O error.
  The lines of the logger are left out.
\<close>

section \<open>Arguments and summary\<close>

record recv_args =
  ra_dst_port :: u16
  ra_src_port :: "u16 option"
  ra_own_src :: "ipv4_addr option"
  ra_timeout_ms :: u64
  ra_count :: usize
  ra_max_reassembled_size :: usize
  ra_max_segments :: usize
  ra_max_pending_partials :: usize
  ra_reassembly_timeout_ms :: u64
  ra_hexdump :: bool
  ra_json :: bool

record wire_summary =
  ws_src :: ipv4_addr
  ws_dst :: ipv4_addr
  ws_src_port :: u16
  ws_dst_port :: u16
  ws_ip_total_len :: u16
  ws_udp_len :: u16
  ws_surplus_len :: usize

definition summarize :: "bytes \<Rightarrow> (wire_summary, recv_error) res" where
  "summarize datagram =
     and_then (map_err RecvHeader (ip_parse datagram)) (\<lambda>(ip, udp_at).
     and_then (slice datagram udp_at (length datagram)) (\<lambda>rest.
     and_then (map_err RecvHeader (udp_parse rest)) (\<lambda>udp.
     Ok \<lparr>ws_src = ip_src ip, ws_dst = ip_dst ip, ws_src_port = src_port udp, ws_dst_port = dst_port udp,
         ws_ip_total_len = total_len ip, ws_udp_len = udp_length udp,
         ws_surplus_len = (case locate_surplus ip udp of None \<Rightarrow> 0 | Some l \<Rightarrow> surplus_len l)\<rparr>)))"

section \<open>Names and lists\<close>

definition recv_hex :: "bytes \<Rightarrow> string" where
  "recv_hex bs = as_text (concat (map (\<lambda>b. [lower_hex (drop_bit 4 b), lower_hex (b AND 0x0f)]) bs))"

definition json_escape :: "string \<Rightarrow> string" where
  "json_escape s =
     concat (map (\<lambda>c. if c = CHR 0x22 then [CHR 0x5c, CHR 0x22] else [c])
       (concat (map (\<lambda>c. if c = CHR 0x5c then [CHR 0x5c, CHR 0x5c] else [c]) s)))"

definition kind_name :: "option_kind \<Rightarrow> string" where
  "kind_name k =
     (case k of
        Eol \<Rightarrow> ''EOL'' | Nop \<Rightarrow> ''NOP'' | Apc \<Rightarrow> ''APC'' | Frag \<Rightarrow> ''FRAG'' | Mds \<Rightarrow> ''MDS'' | Mrds \<Rightarrow> ''MRDS''
      | Req \<Rightarrow> ''REQ'' | Res \<Rightarrow> ''RES'' | Other b \<Rightarrow> ''0x'' @ recv_hex [b])"

definition status_name :: "option_status \<Rightarrow> string" where
  "status_name s = (case s of Success \<Rightarrow> ''success'' | Failed \<Rightarrow> ''failed'' | Ignored \<Rightarrow> ''ignored'')"

definition source_name :: "option_source \<Rightarrow> string" where
  "source_name s = (case s of SourceDatagram \<Rightarrow> ''datagram'' | FragmentSet \<Rightarrow> ''fragment-set'')"

definition ocs_status_name :: "ocs_status \<Rightarrow> string" where
  "ocs_status_name s =
     (case s of
        OcsAbsent \<Rightarrow> ''absent'' | OcsValid \<Rightarrow> ''valid'' | OcsUnused \<Rightarrow> ''unused'' | OcsFailed \<Rightarrow> ''failed''
      | OcsInvalidZero \<Rightarrow> ''invalid-zero'' | OcsUnobserved \<Rightarrow> ''unobserved'')"

text \<open>\<open>join(",")\<close>\<close>

fun join_comma :: "string list \<Rightarrow> string" where
  "join_comma [] = []"
| "join_comma [s] = s"
| "join_comma (s # ss) = s @ '','' @ join_comma ss"

definition option_list :: "raw_option list \<Rightarrow> string" where
  "option_list opts = join_comma (map (\<lambda>opt. kind_name (opt_kind opt) @ '':'' @ recv_hex (opt_value opt)) opts)"

definition report_list :: "option_report list \<Rightarrow> string" where
  "report_list reports =
     join_comma (map (\<lambda>r. kind_name (rep_kind r) @ '':'' @ status_name (rep_status r) @ '':'' @ source_name (rep_source r)) reports)"

definition ocs_report_list :: "ocs_report list \<Rightarrow> string" where
  "ocs_report_list reports =
     join_comma (map (\<lambda>r. ocs_status_name (ocs_rep_status r) @ '':'' @ source_name (ocs_rep_source r)) reports)"

section \<open>Texts of errors\<close>

definition hex_prefixed :: "bytes \<Rightarrow> string" where
  "hex_prefixed bs = ''0x'' @ recv_hex bs"

definition parse_error_text :: "parse_error \<Rightarrow> string" where
  "parse_error_text e =
     (case e of
        InvalidLength k len \<Rightarrow> ''invalid length '' @ show_nat len @ '' for option kind '' @ hex_prefixed [k]
      | Overrun offset \<Rightarrow> ''option at offset '' @ show_nat offset @ '' overruns the surplus area''
      | ParseDuplicateFrag \<Rightarrow> ''FRAG option cannot appear more than once''
      | NonZeroPad \<Rightarrow> ''surplus-area alignment pad byte must be zero''
      | OcsMismatch \<Rightarrow> ''option checksum (OCS) validation failed'')"

definition header_error_text :: "header_error \<Rightarrow> string" where
  "header_error_text e =
     (case e of
        IpTruncated need have_bytes \<Rightarrow> ''IP header truncated: need '' @ show_nat need @ '' bytes, have '' @ show_nat have_bytes
      | UnsupportedVersion v \<Rightarrow> ''unsupported IP version '' @ show_nat (unat v)
      | BadIhl n \<Rightarrow> ''IPv4 IHL '' @ show_nat (unat n) @ '' is below the minimum of 5''
      | BadIpLength n \<Rightarrow> ''IP length field '' @ show_nat (unat n) @ '' is inconsistent with the header or buffer''
      | IpChecksumMismatch \<Rightarrow> ''IPv4 header checksum mismatch''
      | UnexpectedProtocol p \<Rightarrow> ''transport protocol '' @ show_nat (unat p) @ '' is not UDP''
      | UdpTruncated have_bytes \<Rightarrow> ''UDP header truncated: need 8 bytes, have '' @ show_nat have_bytes
      | UdpLengthInvalid n \<Rightarrow> ''UDP Length '' @ show_nat (unat n) @ '' is below the 8-byte header minimum'')"

definition socket_error_text :: "(io_error \<Rightarrow> string) \<Rightarrow> socket_error \<Rightarrow> string" where
  "socket_error_text io_text e =
     (case e of
        SocketIo io \<Rightarrow> ''i/o error: '' @ io_text io
      | PermissionDenied \<Rightarrow> ''operation requires CAP_NET_RAW or root privileges'')"

definition recv_error_text :: "(io_error \<Rightarrow> string) \<Rightarrow> recv_error \<Rightarrow> string" where
  "recv_error_text io_text e =
     (case e of
        RecvHeader h \<Rightarrow> ''header error: '' @ header_error_text h
      | RecvParse p \<Rightarrow> ''parse error: '' @ parse_error_text p
      | UdpLengthExceedsIpPayload udp_len n \<Rightarrow>
          ''UDP Length '' @ show_nat (unat udp_len) @ '' exceeds IP transport payload length '' @ show_nat n
      | UdpChecksumMismatch expected actual \<Rightarrow>
          ''UDP checksum mismatch: expected '' @ hex_prefixed (u16_to_be_bytes expected) @ '', actual ''
          @ hex_prefixed (u16_to_be_bytes actual)
      | RecvSocket s \<Rightarrow> ''socket error: '' @ socket_error_text io_text s)"

section \<open>Printed lines\<close>

definition show_bool :: "bool \<Rightarrow> string" where
  "show_bool b = (if b then ''true'' else ''false'')"

definition wire_text :: "wire_summary \<Rightarrow> string" where
  "wire_text w =
     '' surplus='' @ show_nat (ws_surplus_len w) @ '' '' @ show_addr (ws_src w) @ '':'' @ show_nat (unat (ws_src_port w))
     @ '' -> '' @ show_addr (ws_dst w) @ '':'' @ show_nat (unat (ws_dst_port w))"

definition print_text ::
  "(io_error \<Rightarrow> string) \<Rightarrow> usize \<Rightarrow> recv_error + wire_summary \<Rightarrow> recv_error + delivery \<Rightarrow> string" where
  "print_text io_text index summary del =
     ''recv['' @ show_nat index @ ''] '' @
     (case (summary, del) of
        (Inr wire, Inr (Payload p)) \<Rightarrow>
          ''payload='' @ recv_hex (pl_data p) @ '' payload_len='' @ show_nat (length (pl_data p))
          @ '' option_bearing='' @ show_bool (pl_option_bearing p) @ '' options='' @ option_list (pl_options p)
          @ '' reports='' @ report_list (pl_reports p) @ '' ocs_reports='' @ ocs_report_list (pl_ocs_reports p)
          @ wire_text wire
      | (Inr wire, Inr Buffered) \<Rightarrow> ''buffered'' @ wire_text wire
      | (Inr wire, Inr Dropped) \<Rightarrow> ''dropped'' @ wire_text wire
      | (_, Inl e) \<Rightarrow> ''error='' @ recv_error_text io_text e
      | (Inl e, _) \<Rightarrow> ''error='' @ recv_error_text io_text e)"

definition wire_json :: "wire_summary \<Rightarrow> string" where
  "wire_json w =
     '',\"src\":\"'' @ show_addr (ws_src w) @ ''\",\"dst\":\"'' @ show_addr (ws_dst w)
     @ ''\",\"src_port\":'' @ show_nat (unat (ws_src_port w)) @ '',\"dst_port\":'' @ show_nat (unat (ws_dst_port w))
     @ '',\"ip_total_len\":'' @ show_nat (unat (ws_ip_total_len w)) @ '',\"udp_len\":'' @ show_nat (unat (ws_udp_len w))
     @ '',\"surplus_len\":'' @ show_nat (ws_surplus_len w)"

definition print_json ::
  "(io_error \<Rightarrow> string) \<Rightarrow> (bytes \<Rightarrow> u32) \<Rightarrow> usize \<Rightarrow> recv_error + wire_summary \<Rightarrow> recv_error + delivery \<Rightarrow> string" where
  "print_json io_text crc index summary del =
     ''{\"index\":'' @ show_nat index @ '',\"delivery\":\"'' @
     (case (summary, del) of
        (Inr wire, Inr (Payload p)) \<Rightarrow>
          ''payload\"'' @ wire_json wire @ '',\"payload_len\":'' @ show_nat (length (pl_data p))
          @ '',\"payload_crc32c\":'' @ show_nat (unat (crc (pl_data p))) @ '',\"payload_hex\":\"'' @ recv_hex (pl_data p)
          @ ''\",\"option_bearing\":'' @ show_bool (pl_option_bearing p)
          @ '',\"options\":\"'' @ json_escape (option_list (pl_options p))
          @ ''\",\"reports\":\"'' @ json_escape (report_list (pl_reports p))
          @ ''\",\"ocs_reports\":\"'' @ json_escape (ocs_report_list (pl_ocs_reports p)) @ ''\"}''
      | (Inr wire, Inr Buffered) \<Rightarrow> ''buffered\"'' @ wire_json wire @ ''}''
      | (Inr wire, Inr Dropped) \<Rightarrow> ''dropped\"'' @ wire_json wire @ ''}''
      | (_, Inl e) \<Rightarrow> ''error\",\"error\":\"'' @ json_escape (recv_error_text io_text e) @ ''\"}''
      | (Inl e, _) \<Rightarrow> ''error\",\"error\":\"'' @ json_escape (recv_error_text io_text e) @ ''\"}'')"

section \<open>The receive loop\<close>

datatype recv_cli_error = RecvMessage string | RecvCliIo io_error | RecvPermission

definition recv_from_socket :: "socket_error \<Rightarrow> recv_cli_error" where
  "recv_from_socket e = (case e of PermissionDenied \<Rightarrow> RecvPermission | SocketIo io \<Rightarrow> RecvCliIo io)"

text \<open>What a result holds when it is not a panic.\<close>

definition as_result :: "('a, 'e) res \<Rightarrow> ('e + 'a) option" where
  "as_result r = (case r of Ok x \<Rightarrow> Some (Inr x) | Err e \<Rightarrow> Some (Inl e) | Panic \<Rightarrow> None)"

record recv_run =
  rr_received :: usize
  rr_error :: bool
  rr_cache :: reassembly_cache
  rr_lines :: "string list"

definition recv_one ::
  "stdout \<Rightarrow> (io_error \<Rightarrow> string) \<Rightarrow> (bytes \<Rightarrow> u32) \<Rightarrow> recv_args \<Rightarrow> bytes \<Rightarrow> instant \<Rightarrow> recv_run
     \<Rightarrow> (recv_run, recv_cli_error) res" where
  "recv_one out io_text crc args datagram now st =
     (let received = rr_received st + 1 in
      and_then (if ra_hexdump args
                then println out (rr_lines st) (''datagram['' @ show_nat received @ ''] '' @ recv_hex datagram)
                else Ok (rr_lines st)) (\<lambda>lines.
      case process_datagram crc datagram (rr_cache st) now of
        (d, c) \<Rightarrow>
          (case (as_result (summarize datagram), as_result d) of
             (Some summary, Some del) \<Rightarrow>
               and_then (println out lines
                           (if ra_json args then print_json io_text crc received summary del
                            else print_text io_text received summary del)) (\<lambda>lines.
               Ok \<lparr>rr_received = received, rr_error = (rr_error st \<or> isl summary \<or> isl del), rr_cache = c,
                   rr_lines = lines\<rparr>)
           | _ \<Rightarrow> Panic)))"

definition recv_finish :: "recv_run \<Rightarrow> (unit, recv_cli_error) res" where
  "recv_finish st =
     (if rr_error st
      then Err (RecvMessage ''one or more received datagrams failed header, checksum, or option processing'') else Ok ())"

text \<open>The list holds the results of the successive \<open>recv\<close> calls with the clock; no value: the call still blocks.\<close>

fun recv_loop ::
  "stdout \<Rightarrow> (io_error \<Rightarrow> string) \<Rightarrow> (bytes \<Rightarrow> u32) \<Rightarrow> recv_args \<Rightarrow> ((bytes option, socket_error) res \<times> instant) list \<Rightarrow> recv_run
     \<Rightarrow> ((unit, recv_cli_error) res \<times> recv_run) option" where
  "recv_loop out io_text crc args inputs st =
     (if \<not> rr_received st < ra_count args then Some (recv_finish st, st)
      else
        (case inputs of
           [] \<Rightarrow> None
         | (r, now) # inputs \<Rightarrow>
             (case map_err recv_from_socket r of
                Panic \<Rightarrow> Some (Panic, st)
              | Err e \<Rightarrow> Some (Err e, st)
              | Ok None \<Rightarrow> Some (recv_finish st, st)
              | Ok (Some datagram) \<Rightarrow>
                  (case recv_one out io_text crc args datagram now st of
                     Ok st \<Rightarrow> recv_loop out io_text crc args inputs st
                   | Err e \<Rightarrow> Some (Err e, st)
                   | Panic \<Rightarrow> Some (Panic, st)))))"

declare recv_loop.simps [simp del]

definition recv_limits :: "recv_args \<Rightarrow> reassembly_limits" where
  "recv_limits args =
     \<lparr>lim_max_reassembled_size = ra_max_reassembled_size args, lim_max_segments = ra_max_segments args,
      lim_max_pending_partials = ra_max_pending_partials args,
      lim_timeout = unat (ra_reassembly_timeout_ms args) * 1000000\<rparr>"

definition udpopt_recv_run ::
  "stdout \<Rightarrow> (io_error \<Rightarrow> string) \<Rightarrow> (bytes \<Rightarrow> u32) \<Rightarrow> (unit, socket_error) res \<Rightarrow> (unit, socket_error) res \<Rightarrow> recv_args
     \<Rightarrow> ((bytes option, socket_error) res \<times> instant) list \<Rightarrow> ((unit, recv_cli_error) res \<times> string list) option" where
  "udpopt_recv_run out io_text crc bind_result set_timeout args inputs =
     (if ra_count args = 0 then Some (Err (RecvMessage ''count must be at least 1''), [])
      else
        (case and_then (map_err recv_from_socket bind_result) (\<lambda>_. map_err recv_from_socket set_timeout) of
           Panic \<Rightarrow> Some (Panic, [])
         | Err e \<Rightarrow> Some (Err e, [])
         | Ok _ \<Rightarrow>
             map_option (\<lambda>(r, st). (r, rr_lines st))
               (recv_loop out io_text crc args inputs
                  \<lparr>rr_received = 0, rr_error = False, rr_cache = cache_with_limits (recv_limits args), rr_lines = []\<rparr>)))"

text \<open>The exit status of \<open>main\<close>.\<close>

definition recv_exit_code :: "(unit, recv_cli_error) res \<Rightarrow> byte option" where
  "recv_exit_code r =
     (case r of Ok _ \<Rightarrow> Some 0 | Err RecvPermission \<Rightarrow> Some 2 | Err _ \<Rightarrow> Some 1 | Panic \<Rightarrow> None)"

section \<open>Exit status\<close>

lemma summarize_no_panic: "summarize d \<noteq> Panic"
proof (cases "ip_parse d")
  case (Ok x)
  obtain ip udp_at where x: "x = (ip, udp_at)" by (cases x)
  note ip = ip_parse_Ok_D [OF Ok [unfolded x]]
  have "udp_at \<le> length d" using ip by simp
  then show ?thesis by (auto simp: summarize_def Ok x and_then_eq_Panic udp_parse_no_panic)
qed (simp_all add: summarize_def ip_parse_no_panic)

lemma summarize_accepted:
  assumes "recv_headers d = Ok h"
  shows "\<exists>s. summarize d = Ok s"
proof -
  let ?n = "unat (total_len (rh_ip h))" and ?at = "header_len (rh_ip h)"
  note ok = recv_headers_Ok [OF assms]
  note ip = ip_parse_Ok_D [OF ok(2)]
  obtain rest where rest: "8 \<le> unat (udp_length (rh_udp h))" "drop ?at (take ?n d) = udp_header_bytes (rh_udp h) @ rest"
    using ok(3) by (auto simp: udp_parse_Ok_iff)
  have "drop ?at d = drop ?at (take ?n d) @ drop ?n d"
    using ip by (subst append_take_drop_id [of ?n d, symmetric], subst drop_append) simp
  then have "udp_parse (drop ?at d) = Ok (rh_udp h)" using rest by (simp add: udp_parse_Ok_iff)
  moreover have "?at \<le> length d" using ip by simp
  ultimately show ?thesis by (simp add: summarize_def ok(2))
qed

text \<open>Standard output refuses one of the first \<open>k\<close> lines.\<close>

definition refuses :: "stdout \<Rightarrow> nat \<Rightarrow> bool" where
  "refuses out k \<longleftrightarrow> (\<exists>n line. n < k \<and> \<not> out n line)"

lemma refuses_mono: "refuses out j \<Longrightarrow> j \<le> k \<Longrightarrow> refuses out k"
  unfolding refuses_def using less_le_trans by blast

lemma println_refuses: "\<not> out n line \<Longrightarrow> n < k \<Longrightarrow> refuses out k"
  unfolding refuses_def by blast

lemma recv_one_result:
  "recv_one out io_text crc args d now st = Panic \<and> refuses out (length (rr_lines st) + (1 + of_bool (ra_hexdump args)))
   \<or> (\<exists>c ls. recv_one out io_text crc args d now st = Ok \<lparr>rr_received = rr_received st + 1,
        rr_error = (rr_error st \<or> \<not> (\<exists>h. recv_headers d = Ok h)), rr_cache = c, rr_lines = rr_lines st @ ls\<rparr>
      \<and> length ls = 1 + of_bool (ra_hexdump args))"
proof -
  obtain r c where p: "process_datagram crc d (rr_cache st) now = (r, c)" by force
  have np: "r \<noteq> Panic" using process_inner_total [of crc d "rr_cache st" now True] p by (simp add: process_datagram_def)
  have err: "r = Err e \<longleftrightarrow> recv_headers d = Err e" for e
    using process_datagram_Err_iff [of crc d "rr_cache st" now e] by (simp add: p)
  have bad: "\<not> (\<exists>h. recv_headers d = Ok h) \<longleftrightarrow> (\<exists>e. r = Err e)"
    using recv_headers_no_panic [of d] err by (cases "recv_headers d") auto
  have "(\<exists>e. summarize d = Err e) \<Longrightarrow> \<exists>e. r = Err e" using bad summarize_accepted by force
  then obtain summary del where s: "as_result (summarize d) = Some summary" "as_result r = Some del"
    "isl summary \<or> isl del \<longleftrightarrow> \<not> (\<exists>h. recv_headers d = Ok h)"
    unfolding bad using np summarize_no_panic [of d] by (cases r; cases "summarize d") (auto simp: as_result_def)
  let ?n = "rr_received st + 1"
  define dump where "dump = ''datagram['' @ show_nat ?n @ ''] '' @ recv_hex d"
  define line where "line = (if ra_json args then print_json io_text crc ?n summary del else print_text io_text ?n summary del)"
  have one: "recv_one out io_text crc args d now st =
      and_then (if ra_hexdump args then println out (rr_lines st) dump else Ok (rr_lines st)) (\<lambda>lines.
      and_then (println out lines line) (\<lambda>lines.
      Ok \<lparr>rr_received = ?n, rr_error = (rr_error st \<or> \<not> (\<exists>h. recv_headers d = Ok h)), rr_cache = c, rr_lines = lines\<rparr>))"
    unfolding dump_def line_def using s(3) by (simp add: recv_one_def p s(1,2) Let_def disj_assoc)
  show ?thesis
    unfolding one by (cases "ra_hexdump args") (auto simp: println_def intro: println_refuses)
qed

lemma recv_loop_result:
  assumes "rr_received st + length ds = ra_count args
      \<or> rr_received st + length ds < ra_count args \<and> (\<exists>now later. rest = (Ok None, now) # later)"
  shows "(\<exists>st'. recv_loop out io_text crc args (map (\<lambda>(d, now). (Ok (Some d), now)) ds @ rest) st = Some (Panic, st')
      \<and> refuses out (length (rr_lines st) + length ds * (1 + of_bool (ra_hexdump args))))
    \<or> (\<exists>st'. recv_loop out io_text crc args (map (\<lambda>(d, now). (Ok (Some d), now)) ds @ rest) st = Some (recv_finish st', st')
      \<and> (rr_error st' \<longleftrightarrow> rr_error st \<or> \<not> list_all (\<lambda>(d, _). \<exists>h. recv_headers d = Ok h) ds)
      \<and> length (rr_lines st') = length (rr_lines st) + length ds * (1 + of_bool (ra_hexdump args)))"
    (is "?panics ds st \<or> ?ends ds st")
  using assms
proof (induction ds arbitrary: st)
  case Nil
  then show ?case by (auto simp: recv_loop.simps [of _ _ _ _ _ st])
next
  case (Cons x ds)
  obtain d now where x: "x = (d, now)" by (cases x)
  let ?inputs = "map (\<lambda>(d, now). (Ok (Some d), now)) ds @ rest"
  have step: "recv_loop out io_text crc args (map (\<lambda>(d, now). (Ok (Some d), now)) (x # ds) @ rest) st =
      (case recv_one out io_text crc args d now st of
         Ok st \<Rightarrow> recv_loop out io_text crc args ?inputs st | Err e \<Rightarrow> Some (Err e, st) | Panic \<Rightarrow> Some (Panic, st))"
    using Cons.prems by (auto simp: recv_loop.simps [of _ _ _ _ _ st] x)
  from recv_one_result [of out io_text crc args d now st] show ?case
  proof (elim disjE conjE exE)
    assume "recv_one out io_text crc args d now st = Panic"
      and r: "refuses out (length (rr_lines st) + (1 + of_bool (ra_hexdump args)))"
    moreover have "refuses out (length (rr_lines st) + length (x # ds) * (1 + of_bool (ra_hexdump args)))"
      by (rule refuses_mono [OF r]) simp
    ultimately show ?thesis unfolding step by simp
  next
    fix c ls
    let ?st = "\<lparr>rr_received = rr_received st + 1,
        rr_error = (rr_error st \<or> \<not> (\<exists>h. recv_headers d = Ok h)), rr_cache = c, rr_lines = rr_lines st @ ls\<rparr>"
    assume one: "recv_one out io_text crc args d now st = Ok ?st" and "length ls = 1 + of_bool (ra_hexdump args)"
    moreover have "?panics ds ?st \<or> ?ends ds ?st" by (rule Cons.IH) (use Cons.prems in auto)
    ultimately show ?thesis unfolding step by (auto simp: x add.assoc)
  qed
qed

text \<open>
  C31: The exit status of the receiver program. When its socket delivers as many datagrams as were asked for, or fewer and then
  times out, the program ends. It panics only if standard output refuses one of the lines it prints; else
  it has printed one line for each datagram (two with the hex dump), and its exit status is 0 exactly if
  every datagram passed the header and checksum checks, else 1: options that fail do not count.
\<close>

theorem recv_program_status:
  assumes "ra_count args \<noteq> 0"
    and "length ds = ra_count args \<or> length ds < ra_count args \<and> (\<exists>now later. rest = (Ok None, now) # later)"
  shows "\<exists>r lines. udpopt_recv_run out io_text crc (Ok ()) (Ok ()) args (map (\<lambda>(d, now). (Ok (Some d), now)) ds @ rest) = Some (r, lines)
    \<and> (if r = Panic then \<exists>n line. n < length ds * (1 + of_bool (ra_hexdump args)) \<and> \<not> out n line
       else length lines = length ds * (1 + of_bool (ra_hexdump args))
         \<and> recv_exit_code r = Some (if list_all (\<lambda>(d, _). \<exists>h. recv_headers d = Ok h) ds then 0 else 1))"
proof -
  let ?st = "\<lparr>rr_received = 0, rr_error = False, rr_cache = cache_with_limits (recv_limits args), rr_lines = []\<rparr>"
  have "rr_received ?st + length ds = ra_count args
      \<or> rr_received ?st + length ds < ra_count args \<and> (\<exists>now later. rest = (Ok None, now) # later)"
    using assms(2) by simp
  note loop = recv_loop_result [OF this, of out io_text crc]
  show ?thesis
    using loop
  proof (elim disjE exE conjE)
    fix st' assume "recv_loop out io_text crc args (map (\<lambda>(d, now). (Ok (Some d), now)) ds @ rest) ?st = Some (Panic, st')"
      and "refuses out (length (rr_lines ?st) + length ds * (1 + of_bool (ra_hexdump args)))"
    then show ?thesis
      using assms(1) by (intro exI [of _ Panic] exI [of _ "rr_lines st'"]) (auto simp: udpopt_recv_run_def refuses_def)
  next
    fix st' assume "recv_loop out io_text crc args (map (\<lambda>(d, now). (Ok (Some d), now)) ds @ rest) ?st = Some (recv_finish st', st')"
      and "rr_error st' \<longleftrightarrow> rr_error ?st \<or> \<not> list_all (\<lambda>(d, _). \<exists>h. recv_headers d = Ok h) ds"
      and "length (rr_lines st') = length (rr_lines ?st) + length ds * (1 + of_bool (ra_hexdump args))"
    then show ?thesis
      using assms(1) by (intro exI [of _ "recv_finish st'"] exI [of _ "rr_lines st'"])
        (simp add: udpopt_recv_run_def recv_finish_def recv_exit_code_def)
  qed
qed

theorem recv_program_status_witness:
  "\<exists>r lines. udpopt_recv_run (\<lambda>_ _. True) (\<lambda>_. []) (\<lambda>_. 7) (Ok ()) (Ok ())
      \<lparr>ra_dst_port = 40001, ra_src_port = None, ra_own_src = None, ra_timeout_ms = 2000, ra_count = 2,
       ra_max_reassembled_size = 2926, ra_max_segments = 2, ra_max_pending_partials = 64, ra_reassembly_timeout_ms = 120000,
       ra_hexdump = False, ra_json = True\<rparr>
      [(Ok (Some [0x45]), 0), (Ok None, 1)] = Some (r, lines) \<and> length lines = 1 \<and> recv_exit_code r = Some 1"
proof -
  let ?args = "\<lparr>ra_dst_port = 40001, ra_src_port = None, ra_own_src = None, ra_timeout_ms = 2000, ra_count = 2,
       ra_max_reassembled_size = 2926, ra_max_segments = 2, ra_max_pending_partials = 64, ra_reassembly_timeout_ms = 120000,
       ra_hexdump = False, ra_json = True\<rparr>"
  have bad: "\<not> (\<exists>h. recv_headers [0x45] = Ok h)" by (simp add: recv_headers_def ip_parse_def parse_v4_def)
  show ?thesis
    using recv_program_status [of ?args "[([0x45], 0)]" "[(Ok None, 1)]" "\<lambda>_ _. True" "\<lambda>_. []" "\<lambda>_. 7"]
    by (auto simp: bad split: if_splits)
qed

end
