(* ===== verification/Oracle_Wire.thy ===== *)
theory Oracle_Wire
  imports Typed_Options Ocs Surplus
begin

text \<open>
  The invariant oracles of the wire layer, the option checksum and the typed options
  (\<open>tests/common\<close>, \<open>tests/common_ocs\<close>, \<open>tests/common_typed\<close>), which the fuzz targets \<open>wire_datagram\<close>,
  \<open>options_ocs\<close> and \<open>options_typed\<close> run on arbitrary bytes. An assertion that fails, an \<open>expect\<close> on an error
  and a slice out of range are a panic; the properties show that no input makes an oracle panic.
\<close>

section \<open>Assertions\<close>

type_synonym check_result = "(unit, unit) res"

text \<open>\<open>let Ok(x) = r else { return }\<close> and \<open>r.expect(..)\<close>\<close>

fun let_ok :: "('a, 'f) res \<Rightarrow> ('b, 'e) res \<Rightarrow> ('a \<Rightarrow> ('b, 'e) res) \<Rightarrow> ('b, 'e) res" where
  "let_ok (Ok x) other f = f x"
| "let_ok (Err e) other f = other"
| "let_ok Panic other f = Panic"

fun expect_ok :: "('a, 'f) res \<Rightarrow> ('a, 'e) res" where
  "expect_ok (Ok x) = Ok x"
| "expect_ok (Err e) = Panic"
| "expect_ok Panic = Panic"

section \<open>Wire layer\<close>

definition check_layout :: "bytes \<Rightarrow> usize \<Rightarrow> usize \<Rightarrow> surplus_layout option \<Rightarrow> check_result" where
  "check_layout buf ip_end natural_start layout =
     (let raw_surplus = ip_end - natural_start;
          want_pad = (natural_start mod 2 = 1) in
      case layout of
        None \<Rightarrow> assert_that (raw_surplus < of_bool want_pad + 2)
      | Some l \<Rightarrow>
          and_then (assert_that (starts_at l = natural_start \<and> starts_at l + surplus_len l = ip_end
            \<and> needs_pad l = want_pad \<and> surplus_range l = (starts_at l, ip_end))) (\<lambda>_.
          and_then (slice buf (fst (surplus_range l)) (snd (surplus_range l))) (\<lambda>surplus.
          and_then (assert_that (length surplus \<ge> of_bool (needs_pad l) + 2)) (\<lambda>_.
          let at = ocs_at l in
          and_then (assert_that (at = starts_at l + of_bool (needs_pad l) \<and> at mod 2 = 0 \<and> at + 2 \<le> ip_end)) (\<lambda>_.
          and_then (slice buf at (at + 2)) (\<lambda>_. Ok ()))))))"

definition check_wire_invariants :: "bytes \<Rightarrow> check_result" where
  "check_wire_invariants buf =
     let_ok (ip_parse buf) (Ok ()) (\<lambda>(ip, udp_at).
     and_then (assert_that (udp_at = header_len ip)) (\<lambda>_.
     let ip_end = header_len ip + transport_payload_len ip in
     and_then (assert_that (ip_end \<le> length buf)) (\<lambda>_.
     and_then (slice buf udp_at (length buf)) (\<lambda>rest.
     let_ok (udp_parse rest) (Ok ()) (\<lambda>udp.
     let udp_len = unat (udp_length udp);
         natural_start = udp_at + udp_len;
         layout = locate_surplus ip udp in
     if udp_len > transport_payload_len ip then assert_that (layout = None)
     else
       and_then (slice buf (udp_at + HEADER_LEN) natural_start) (\<lambda>user_data.
       and_then (compute_checksum (udp\<lparr>udp_checksum := 0\<rparr>) ip user_data) (\<lambda>_.
       check_layout buf ip_end natural_start layout)))))))"

section \<open>Option checksum\<close>

definition representative_positions :: "usize \<Rightarrow> usize list" where
  "representative_positions len = filter (\<lambda>pos. pos < len) (remdups_adj (sort [0, 1, len div 2, len - 1]))"

fun corruption_loop :: "bytes \<Rightarrow> u16 \<Rightarrow> usize list \<Rightarrow> check_result" where
  "corruption_loop body slen [] = Ok ()"
| "corruption_loop body slen (i # is) =
     and_then (idx body i) (\<lambda>b.
     let corrupted = body[i := b XOR 0x01] in
     and_then (ocs_validate corrupted slen 0x1234) (\<lambda>c.
     and_then (assert_that (c \<noteq> Valid)) (\<lambda>_.
     corruption_loop body slen is)))"

definition check_compute_validate :: "bytes \<Rightarrow> u16 \<Rightarrow> check_result" where
  "check_compute_validate bs slen =
     and_then (ocs_compute bs slen) (\<lambda>body.
     and_then (ocs_validate body slen 0x1234) (\<lambda>c.
     and_then (assert_that (c = Valid)) (\<lambda>_.
     corruption_loop body slen (representative_positions (length body)))))"

definition assert_validate :: "bytes \<Rightarrow> u16 \<Rightarrow> u16 \<Rightarrow> ocs_check \<Rightarrow> check_result" where
  "assert_validate body slen udp_checksum_field expected =
     and_then (ocs_validate body slen udp_checksum_field) (\<lambda>c. assert_that (c = expected))"

definition check_ocs_invariants :: "bytes \<Rightarrow> check_result" where
  "check_ocs_invariants bs =
     (let slen = (case u16_try_from (length bs) of Some n \<Rightarrow> n | None \<Rightarrow> 0xffff) in
      and_then (ocs_validate bs slen 0x1234) (\<lambda>_.
      if length bs < 2 then assert_validate bs slen 0x1234 (OcsError (Overrun 0))
      else
        and_then (check_compute_validate bs slen) (\<lambda>_.
        and_then (if unat slen + 1 \<le> u16_max then check_compute_validate bs (slen + 1) else Ok ()) (\<lambda>_.
        and_then (put_slice bs 0 [0, 0]) (\<lambda>zero_ocs.
        and_then (assert_validate zero_ocs slen 0 Unused) (\<lambda>_.
        and_then (assert_validate zero_ocs slen 1 IgnoreOptions) (\<lambda>_.
        assert_that (check_pad 0 True = Ok () \<and> check_pad 1 True = Err NonZeroPad \<and> check_pad 1 False = Ok ()))))))))"

section \<open>Typed options\<close>

definition implied_total_len :: "usize \<Rightarrow> usize" where
  "implied_total_len value_len = value_len + 2"

definition assert_fixed_decoder ::
  "(bytes \<Rightarrow> 't \<Rightarrow> bytes) \<Rightarrow> (bytes \<Rightarrow> ('t, parse_error) res) \<Rightarrow> bytes \<Rightarrow> byte \<Rightarrow> byte \<Rightarrow> check_result" where
  "assert_fixed_decoder encode decode v raw_kind tlen =
     (let decoded = decode v in
      if length v = unat tlen - 2 then
        and_then (expect_ok decoded) (\<lambda>option.
        let encoded = encode [] option in
        and_then (idx encoded 0) (\<lambda>k.
        and_then (assert_that (k = raw_kind)) (\<lambda>_.
        and_then (idx encoded 1) (\<lambda>n.
        and_then (assert_that (n = tlen)) (\<lambda>_.
        and_then (slice encoded 2 (length encoded)) (\<lambda>v'.
        assert_that (decode v' = Ok option)))))))
      else assert_that (decoded = Err (InvalidLength raw_kind (implied_total_len (length v)))))"

definition assert_frag_decoder :: "bytes \<Rightarrow> check_result" where
  "assert_frag_decoder v =
     (let decoded = frag_decode v in
      if length v = unat length_FRAG_NON_TERMINAL - 2 \<or> length v = unat length_FRAG_TERMINAL - 2 then
        and_then (expect_ok decoded) (\<lambda>option.
        and_then (assert_that ((rdos option \<noteq> None) = (length v = unat length_FRAG_TERMINAL - 2))) (\<lambda>_.
        let encoded = frag_encode [] option in
        and_then (idx encoded 0) (\<lambda>k.
        and_then (assert_that (k = kind_FRAG)) (\<lambda>_.
        and_then (idx encoded 1) (\<lambda>n.
        and_then (assert_that (n = (if rdos option \<noteq> None then length_FRAG_TERMINAL else length_FRAG_NON_TERMINAL))) (\<lambda>_.
        and_then (slice encoded 2 (length encoded)) (\<lambda>v'.
        assert_that (frag_decode v' = Ok option))))))))
      else assert_that (decoded = Err (InvalidLength kind_FRAG (implied_total_len (length v)))))"

definition check_typed_decoder_invariants :: "bytes \<Rightarrow> check_result" where
  "check_typed_decoder_invariants v =
     and_then (assert_fixed_decoder apc_encode apc_decode v kind_APC length_APC) (\<lambda>_.
     and_then (assert_fixed_decoder mds_encode mds_decode v kind_MDS length_MDS) (\<lambda>_.
     and_then (assert_fixed_decoder mrds_encode mrds_decode v kind_MRDS length_MRDS) (\<lambda>_.
     and_then (assert_fixed_decoder req_encode req_decode v kind_REQ length_REQ) (\<lambda>_.
     and_then (assert_fixed_decoder res_encode res_decode v kind_RES length_RES) (\<lambda>_.
     assert_frag_decoder v)))))"

lemma let_ok_eq: "let_ok r other f = (case r of Ok x \<Rightarrow> f x | Err e \<Rightarrow> other | Panic \<Rightarrow> Panic)"
  by (cases r) simp_all

lemma assert_that_eq_Ok [simp]: "assert_that b = Ok u \<longleftrightarrow> b"
  by (simp add: assert_that_def)

section \<open>No input makes an oracle fail\<close>

lemma check_layout_ok:
  assumes "natural_start = header_len ip + unat (udp_length udp)" and "ip_end = unat (total_len ip)"
    and "natural_start \<le> ip_end" and "ip_end \<le> length buf"
  shows "check_layout buf ip_end natural_start (locate_surplus ip udp) = Ok ()"
proof (cases "locate_surplus ip udp")
  case None
  then show ?thesis
    using assms locate_surplus_None_iff [of ip udp] by (auto simp: check_layout_def mod_2_odd Let_def split: if_splits)
next
  case (Some l)
  have "surplus_ok ip udp l" using Some by (simp add: locate_surplus_Some_iff)
  then have l: "starts_at l = natural_start" "starts_at l + surplus_len l = ip_end" "even (ocs_at l)"
      "ocs_at l + 2 \<le> ip_end" "needs_pad l \<longleftrightarrow> odd natural_start"
    using assms by (auto simp: surplus_ok_def)
  have w: "(natural_start mod 2 = 1) = needs_pad l" and at: "ocs_at l mod 2 = 0" using l(3,5) by presburger+
  have "of_bool (needs_pad l) + 2 \<le> surplus_len l" using l by (simp add: ocs_at_def)
  then show ?thesis
    unfolding check_layout_def Let_def Some option.case w
    using l(1,2,4) at assms(3,4) by (auto simp: surplus_range_def ocs_at_def and_then_eq_Ok)
qed

lemma check_wire_invariants_ok: "check_wire_invariants buf = Ok ()"
proof (cases "ip_parse buf")
  case (Ok x)
  obtain ip udp_at where x: "x = (ip, udp_at)" by (cases x)
  note ip = ip_parse_Ok_D [OF Ok [unfolded x]]
  have ends: "header_len ip + transport_payload_len ip = unat (total_len ip)"
    using ip by (simp add: transport_payload_len_def header_len_def)
  have start: "check_wire_invariants buf =
     let_ok (udp_parse (drop (header_len ip) buf)) (Ok ()) (\<lambda>udp.
       if unat (udp_length udp) > transport_payload_len ip then assert_that (locate_surplus ip udp = None)
       else
         and_then (slice buf (header_len ip + 8) (header_len ip + unat (udp_length udp))) (\<lambda>user_data.
         and_then (compute_checksum (udp\<lparr>udp_checksum := 0\<rparr>) ip user_data) (\<lambda>_.
         check_layout buf (unat (total_len ip)) (header_len ip + unat (udp_length udp)) (locate_surplus ip udp))))"
    using ip by (simp add: check_wire_invariants_def Ok x ends Let_def cong: if_cong)
  show ?thesis
  proof (cases "udp_parse (drop (header_len ip) buf)")
    case u: (Ok udp)
    have len: "8 \<le> unat (udp_length udp)" using u by (simp add: udp_parse_Ok_iff)
    show ?thesis
    proof (cases "unat (udp_length udp) > transport_payload_len ip")
      case True
      then have "locate_surplus ip udp = None" using ends by (simp add: locate_surplus_None_iff)
      then show ?thesis using True by (simp add: start u)
    next
      case False
      let ?d = "take (unat (udp_length udp) - 8) (drop (header_len ip + 8) buf)"
      have fits: "header_len ip + unat (udp_length udp) \<le> unat (total_len ip)" using False ends by simp
      then have "unat (udp_length (udp\<lparr>udp_checksum := 0\<rparr>)) = 8 + length ?d" using len ip(4) by simp
      then obtain c where c: "compute_checksum (udp\<lparr>udp_checksum := 0\<rparr>) ip ?d = (Ok c :: (_, unit) res)"
        using compute_checksum_total by blast
      have s: "(slice buf (header_len ip + 8) (header_len ip + unat (udp_length udp)) :: (_, unit) res) = Ok ?d"
        using len fits ip(4) by simp
      show ?thesis
        using False check_layout_ok [OF refl refl fits ip(4)] by (simp add: start u s c del: slice_Ok)
    qed
  qed (use udp_parse_no_panic in \<open>simp_all add: start\<close>)
qed (simp_all add: check_wire_invariants_def ip_parse_no_panic)

lemma two_bytes: "2 \<le> length bs \<Longrightarrow> \<exists>a b rest. bs = a # b # rest"
  by (auto simp: numeral_2_eq_2 Suc_le_length_iff)

lemma flip_neq: "b XOR 1 \<noteq> (b :: byte)"
  by (metis bit.xor_left_self bit.xor_self xor.left_neutral xor.right_neutral zero_neq_one)

lemma bit_flip_word:
  fixes a b :: byte
  shows "u16_from_be_bytes (a XOR 1) b \<noteq> u16_from_be_bytes a b"
    and "u16_from_be_bytes a (b XOR 1) \<noteq> u16_from_be_bytes a b"
    and "{u16_from_be_bytes a b, u16_from_be_bytes (a XOR 1) b} \<noteq> {0, 0xffff}"
    and "{u16_from_be_bytes a b, u16_from_be_bytes a (b XOR 1)} \<noteq> {0, 0xffff}"
proof -
  have inj: "u16_from_be_bytes p q = u16_from_be_bytes r s \<longleftrightarrow> p = r \<and> q = s" for p q r s
    by (metis u16_to_be_bytes_inverse list.inject)
  show "u16_from_be_bytes (a XOR 1) b \<noteq> u16_from_be_bytes a b" "u16_from_be_bytes a (b XOR 1) \<noteq> u16_from_be_bytes a b"
    using flip_neq by (simp_all add: inj)
  have z: "u16_from_be_bytes 0 0 = 0" "u16_from_be_bytes 255 255 = 0xffff" by (simp_all add: u16_from_be_bytes_def)
  show "{u16_from_be_bytes a b, u16_from_be_bytes (a XOR 1) b} \<noteq> {0, 0xffff}"
    "{u16_from_be_bytes a b, u16_from_be_bytes a (b XOR 1)} \<noteq> {0, 0xffff}"
    unfolding z [symmetric] doubleton_eq_iff inj by auto
qed

lemma ocs_value_total:
  assumes "words_total xs = words_total ys"
  shows "ocs_value xs n = ocs_value ys n"
proof -
  have "checksum_sum (add_u16 (add_slice checksum_new (0 # 0 # xs)) n) = checksum_sum (add_u16 (add_slice checksum_new (0 # 0 # ys)) n)"
    by (rule word_unat_eq_iff [THEN iffD2])
      (simp add: unat_checksum_sum cs.val_add16 cs.inv_addb cs.val_addb cs.inv_new assms del: add_slice.simps)
  then show ?thesis by (simp add: ocs_value_def checksum_finish_def del: add_slice.simps)
qed

lemma ocs_value_flip:
  assumes "j < length opts"
  shows "ocs_value (opts[j := opts ! j XOR 1]) n \<noteq> ocs_value opts n"
proof (cases "even j")
  case True
  show ?thesis
  proof (cases "j + 1 < length opts")
    case t: True
    have o: "opts = take j opts @ u16_to_be_bytes (u16_from_be_bytes (opts ! j) (opts ! (j + 1))) @ drop (j + 2) opts"
      using t by (simp add: id_take_nth_drop [symmetric] Cons_nth_drop_Suc)
    have o': "opts[j := opts ! j XOR 1] =
        take j opts @ u16_to_be_bytes (u16_from_be_bytes (opts ! j XOR 1) (opts ! (j + 1))) @ drop (j + 2) opts"
      using t by (simp add: upd_conv_take_nth_drop Cons_nth_drop_Suc)
    show ?thesis
      using ocs_value_word_change [of "take j opts" "u16_from_be_bytes (opts ! j) (opts ! (j + 1))"
          "u16_from_be_bytes (opts ! j XOR 1) (opts ! (j + 1))" "drop (j + 2) opts" n] bit_flip_word True assms o o'
      by (metis length_take min.absorb4)
  next
    case f: False
    have pad: "ocs_value (xs @ [a]) n = ocs_value (xs @ u16_to_be_bytes (u16_from_be_bytes a 0) @ []) n" if "length xs = j" for xs a
      by (rule ocs_value_total) (use True that in \<open>simp add: words_total_append\<close>)
    have o: "opts = take j opts @ [opts ! j]" using f assms by (metis Suc_eq_plus1 take_Suc_conv_app_nth take_all_iff not_less)
    have o': "opts[j := opts ! j XOR 1] = take j opts @ [opts ! j XOR 1]"
      using f assms by (simp add: upd_conv_take_nth_drop)
    show ?thesis
      using ocs_value_word_change [of "take j opts" "u16_from_be_bytes (opts ! j) 0" "u16_from_be_bytes (opts ! j XOR 1) 0" "[]" n]
        bit_flip_word [of "opts ! j" 0] True assms o' pad [of "take j opts"] o by (metis length_take min.absorb4)
  qed
next
  case False
  then obtain k where k: "j = k + 1" "even k" by (metis oddE even_mult_iff even_numeral)
  have o: "opts = take k opts @ u16_to_be_bytes (u16_from_be_bytes (opts ! k) (opts ! j)) @ drop (k + 2) opts"
    using assms k by (simp add: id_take_nth_drop [symmetric] Cons_nth_drop_Suc)
  have o': "opts[j := opts ! j XOR 1] =
      take k opts @ u16_to_be_bytes (u16_from_be_bytes (opts ! k) (opts ! j XOR 1)) @ drop (k + 2) opts"
    using assms k by (simp add: upd_conv_take_nth_drop take_Suc_conv_app_nth)
  have "even (length (take k opts))" using assms k by simp
  then show ?thesis
    using ocs_value_word_change [of "take k opts" "u16_from_be_bytes (opts ! k) (opts ! j)"
        "u16_from_be_bytes (opts ! k) (opts ! j XOR 1)" "drop (k + 2) opts" n] bit_flip_word o o' by metis
qed

lemma validate_flipped:
  fixes n :: u16
  assumes "i < length opts + 2"
  shows "\<exists>c. (ocs_validate ((u16_to_be_bytes (ocs_value opts n) @ opts)[i := (u16_to_be_bytes (ocs_value opts n) @ opts) ! i XOR 1]) n u
    :: (_, 'e) res) = Ok c \<and> c \<noteq> Valid"
proof -
  obtain a b where ab: "u16_to_be_bytes (ocs_value opts n) = [a, b]" by (simp add: u16_to_be_bytes_def)
  then have v: "ocs_value opts n = u16_from_be_bytes a b" by (metis u16_from_be_bytes_inverse u16_to_be_bytes_def list.inject)
  have "i = 0 \<or> i = 1 \<or> (\<exists>j. i = j + 2 \<and> j < length opts)" using assms by presburger
  then consider "i = 0" | "i = 1" | j where "i = j + 2" "j < length opts" by blast
  then show ?thesis
  proof cases
    case 3
    then show ?thesis using ocs_value_flip [of j opts n] by (auto simp: ab ocs_validate_eq v [symmetric])
  qed (use bit_flip_word [of a b] in \<open>auto simp: ab ocs_validate_eq v\<close>)
qed

lemma corruption_loop_ok:
  "\<forall>i \<in> set is. i < length opts + 2 \<Longrightarrow>
     corruption_loop (u16_to_be_bytes (ocs_value opts n) @ opts) n is = Ok ()"
proof (induction "is")
  case (Cons i js)
  obtain c where "(ocs_validate ((u16_to_be_bytes (ocs_value opts n) @ opts)
      [i := (u16_to_be_bytes (ocs_value opts n) @ opts) ! i XOR 1]) n 0x1234 :: (_, unit) res) = Ok c" "c \<noteq> Valid"
    using validate_flipped [of i opts n "0x1234"] Cons.prems by auto
  then show ?case using Cons by simp
qed simp

lemma check_compute_validate_ok:
  assumes "2 \<le> length bs"
  shows "check_compute_validate bs n = Ok ()"
proof -
  obtain a b opts where bs: "bs = a # b # opts" using two_bytes [OF assms] by blast
  have "\<forall>i \<in> set (representative_positions (length (u16_to_be_bytes (ocs_value opts n) @ opts))). i < length opts + 2"
    by (auto simp: representative_positions_def)
  from corruption_loop_ok [OF this, of n] show ?thesis
    by (simp add: check_compute_validate_def bs ocs_compute_Ok ocs_validate_computed)
qed

lemma check_ocs_invariants_ok: "check_ocs_invariants bs = Ok ()"
proof (cases "length bs < 2")
  case True
  then show ?thesis by (simp add: check_ocs_invariants_def assert_validate_def ocs_validate_def OCS_LEN_def)
next
  case False
  then obtain a b opts where bs: "bs = a # b # opts" using two_bytes [of bs] by auto
  have "u16_from_be_bytes 0 0 = 0" by (simp add: u16_from_be_bytes_def)
  then have z: "(ocs_validate (0 # 0 # opts) m u :: (_, unit) res) = Ok (if u = 0 then Unused else IgnoreOptions)" for m u
    by (simp add: ocs_validate_eq)
  have p: "(put_slice bs 0 [0, 0] :: (_, unit) res) = Ok (0 # 0 # opts)" by (simp add: bs)
  have v: "\<exists>c. (ocs_validate bs m u :: (_, unit) res) = Ok c" for m u by (simp add: bs ocs_validate_eq)
  have c: "check_compute_validate bs m = Ok ()" for m using check_compute_validate_ok [of bs m] False by simp
  obtain w where "(ocs_validate bs (case u16_try_from (length bs) of None \<Rightarrow> 0xffff | Some n \<Rightarrow> n) 0x1234 :: (_, unit) res) = Ok w"
    using v by blast
  then show ?thesis
    using False by (simp add: check_ocs_invariants_def Let_def p z c assert_validate_def check_pad_def del: put_slice_Ok)
qed

context typed_option
begin

lemma encoded_shape:
  assumes "length (val t) \<le> 252"
  shows "encode [] t = to_byte KIND # word_of_nat (length (val t) + 2) # val t"
  using assms by (simp add: encode_val option_bytes_def Let_def)

lemma fixed_decoder_ok:
  assumes "fixed_value_lens (to_byte KIND) = [unat tlen - 2]" and "2 \<le> unat tlen" and "unat tlen \<le> 254"
  shows "assert_fixed_decoder encode decode v (to_byte KIND) tlen = Ok ()"
proof (cases "length v = unat tlen - 2")
  case True
  then obtain t where t: "decode v = Ok t" using decode_good [of v] assms(1) by auto
  then have v: "val t = v" by (rule val_decode)
  have "word_of_nat (length v + 2) = tlen" using True assms(2) by (simp del: of_nat_add)
  then show ?thesis
    using True t encoded_shape [of t] assms(3) by (simp add: assert_fixed_decoder_def v)
next
  case False
  then show ?thesis using decode_bad [of v] assms(1) by (simp add: assert_fixed_decoder_def implied_total_len_def)
qed

end

lemma frag_decoder_ok: "assert_frag_decoder v = Ok ()"
proof (cases "length v = 8 \<or> length v = 10")
  case True
  then obtain f where f: "frag_decode v = Ok f" using frag_opt.decode_good [of v] by (auto simp: fixed_value_lens_frag)
  then have v: "frag_wire_value f = v" by (rule frag_wire_value_decode)
  have len: "length v = (if rdos f = None then 8 else 10)" using v length_frag_wire_value [of f] by simp
  have "frag_encode [] f = kind_FRAG # (if rdos f \<noteq> None then length_FRAG_TERMINAL else length_FRAG_NON_TERMINAL) # v"
    using frag_opt.encoded_shape [of f] len by (auto simp: v length_FRAG_TERMINAL_def length_FRAG_NON_TERMINAL_def)
  then show ?thesis
    using True f len by (auto simp: assert_frag_decoder_def Let_def length_FRAG_TERMINAL_def length_FRAG_NON_TERMINAL_def)
next
  case False
  then show ?thesis
    by (simp add: assert_frag_decoder_def Let_def frag_decode_bad implied_total_len_def length_FRAG_TERMINAL_def length_FRAG_NON_TERMINAL_def)
qed

lemma check_typed_decoder_invariants_ok: "check_typed_decoder_invariants v = Ok ()"
proof -
  note fixed = apc_opt.fixed_decoder_ok mds_opt.fixed_decoder_ok mrds_opt.fixed_decoder_ok req_opt.fixed_decoder_ok
    res_opt.fixed_decoder_ok
  have lens: "unat length_APC = 6" "unat length_MDS = 4" "unat length_MRDS = 5" "unat length_REQ = 6" "unat length_RES = 6"
    by (simp_all add: length_APC_def length_MDS_def length_MRDS_def length_REQ_def length_RES_def)
  show ?thesis
    using fixed [where v = v] frag_decoder_ok [of v]
    by (simp add: check_typed_decoder_invariants_def fixed_value_lens_simps lens)
qed

end
