(* ===== verification/Oracle_Options.thy ===== *)
theory Oracle_Options
  imports Oracle_Wire Option_Serialize
begin

text \<open>
  The oracles of the option parser and of the serializer (\<open>tests/common_options\<close>), which the fuzz targets
  \<open>options_tlv\<close> and \<open>options_serialize\<close> run on arbitrary bytes: a second, independent reading of the TLV format
  and of the canonical order, compared step by step with the iterator and the builder. A pointer into the
  bytes is the position of the value.
\<close>

section \<open>The parser oracle\<close>

record expected_option =
  ex_kind :: option_kind
  ex_value_start :: "usize option"
  ex_value_end :: usize
  ex_next_pos :: usize
  ex_is_eol :: bool

datatype expected_step_result = StepDone | StepOption expected_option | StepError parse_error

definition single_step :: "option_kind \<Rightarrow> usize \<Rightarrow> bool \<Rightarrow> expected_step_result" where
  "single_step k pos eol =
     StepOption \<lparr>ex_kind = k, ex_value_start = None, ex_value_end = pos + 1, ex_next_pos = pos + 1, ex_is_eol = eol\<rparr>"

definition sized_step :: "bytes \<Rightarrow> usize \<Rightarrow> option_kind \<Rightarrow> usize \<Rightarrow> usize \<Rightarrow> expected_step_result" where
  "sized_step bs pos k hlen tlen =
     (let e = pos + tlen in
      if e > length bs then StepError (Overrun pos)
      else StepOption \<lparr>ex_kind = k, ex_value_start = Some (pos + hlen), ex_value_end = e, ex_next_pos = e, ex_is_eol = False\<rparr>)"

definition expected_step :: "bytes \<Rightarrow> usize \<Rightarrow> (expected_step_result, unit) res" where
  "expected_step bs pos =
     (if pos \<ge> length bs then Ok StepDone else
      and_then (idx bs pos) (\<lambda>raw.
      let k = from_byte raw in
      if raw = kind_EOL then Ok (single_step k pos True)
      else if raw = kind_NOP then Ok (single_step k pos False)
      else if \<not> pos + 1 < length bs then Ok (StepError (Overrun pos))
      else and_then (idx bs (pos + 1)) (\<lambda>len_byte.
      if len_byte = kind_EXTENDED_LENGTH_MARKER then
        if pos + 4 > length bs then Ok (StepError (Overrun pos)) else
        and_then (idx bs (pos + 2)) (\<lambda>b2. and_then (idx bs (pos + 3)) (\<lambda>b3.
        let tlen = unat (u16_from_be_bytes b2 b3) in
        if tlen < unat kind_EXTENDED_LENGTH_MARKER then Ok (StepError (InvalidLength raw tlen))
        else Ok (sized_step bs pos k 4 tlen)))
      else
        let tlen = unat len_byte in
        if tlen < 2 then Ok (StepError (InvalidLength raw tlen))
        else Ok (sized_step bs pos k 2 tlen))))"

definition assert_exhausted :: "options_iter \<Rightarrow> usize \<Rightarrow> check_result" where
  "assert_exhausted it max_run =
     and_then (options_next it) (\<lambda>(x, it). assert_that (x = None \<and> max_nop_run it = max_run))"

definition check_item :: "bytes \<Rightarrow> usize \<Rightarrow> expected_option \<Rightarrow> item option \<Rightarrow> (option_ref, unit) res" where
  "check_item bs pos e x =
     and_then (expect_some x) (\<lambda>item.
     and_then (case item of Inl _ \<Rightarrow> Panic | Inr r \<Rightarrow> Ok r) (\<lambda>r.
     and_then (assert_that (ref_kind r = ex_kind e \<and> ex_next_pos e > pos)) (\<lambda>_.
     and_then (case ex_value_start e of
         Some value_start \<Rightarrow>
           and_then (assert_that (ref_at r = Some value_start)) (\<lambda>_.
           and_then (slice bs value_start (ex_value_end e)) (\<lambda>v. assert_that (ref_value r = v)))
       | None \<Rightarrow> assert_that (ref_value r = [])) (\<lambda>_. Ok r))))"

lemma expected_step_Option: "expected_step bs pos = Ok (StepOption e) \<Longrightarrow> pos < length bs"
  by (auto simp: expected_step_def split: if_splits)

lemma check_item_progress: "check_item bs pos e x = Ok r \<Longrightarrow> pos < ex_next_pos e"
  by (auto simp: check_item_def and_then_eq_Ok assert_that_def split: if_splits)

function (sequential) tlv_loop :: "bytes \<Rightarrow> options_iter \<Rightarrow> usize \<Rightarrow> usize \<Rightarrow> usize \<Rightarrow> usize \<Rightarrow> check_result" where
  "tlv_loop bs it yielded current_run max_run pos =
     (case expected_step bs pos of
        Panic \<Rightarrow> Panic
      | Err u \<Rightarrow> Err u
      | Ok StepDone \<Rightarrow> assert_exhausted it max_run
      | Ok (StepOption e) \<Rightarrow>
          and_then (assert_that (yielded + 1 \<le> length bs + 1)) (\<lambda>_.
          and_then (options_next it) (\<lambda>(x, it).
          and_then (check_item bs pos e x) (\<lambda>r.
          let current_run = (if ref_kind r = Nop then current_run + 1 else 0);
              max_run = (if ref_kind r = Nop then max max_run current_run else max_run) in
          and_then (assert_that (max_nop_run it = max_run)) (\<lambda>_.
          if ex_is_eol e then assert_exhausted it max_run
          else tlv_loop bs it (yielded + 1) current_run max_run (ex_next_pos e)))))
      | Ok (StepError e) \<Rightarrow>
          and_then (assert_that (yielded + 1 \<le> length bs + 1)) (\<lambda>_.
          and_then (options_next it) (\<lambda>(x, it).
          and_then (assert_that (x = Some (Inl e))) (\<lambda>_.
          assert_exhausted it max_run))))"
  by pat_completeness auto
termination
  by (relation "measure (\<lambda>(bs, it, yielded, c, m, pos). length bs - pos)")
    (auto intro!: diff_less_mono2 dest: expected_step_Option check_item_progress)

declare tlv_loop.simps [simp del]

definition check_tlv_parser_invariants :: "bytes \<Rightarrow> check_result" where
  "check_tlv_parser_invariants bs = tlv_loop bs (options_iter_new bs) 0 0 0 0"

section \<open>The serializer oracle\<close>

definition oracle_canonical_rank :: "byte \<Rightarrow> u16 \<times> byte" where
  "oracle_canonical_rank k =
     ((if k = kind_FRAG then 0 else if k = kind_APC then 1 else if k = kind_MDS then 2 else if k = kind_MRDS then 3
       else if k = kind_REQ then 4 else if k = kind_RES then 5 else 1000 + ucast k), k)"

definition oracle_out_of_scope :: "byte \<Rightarrow> bool" where
  "oracle_out_of_scope k \<longleftrightarrow>
     k = kind_TIME \<or> k = kind_AUTH \<or> k = kind_EXP \<or> (kind_SAFE_RESERVED_MIN \<le> k \<and> k \<le> kind_SAFE_RESERVED_MAX)"

definition has_valid_fixed_value_len :: "byte \<Rightarrow> usize \<Rightarrow> bool" where
  "has_valid_fixed_value_len k n =
     (if k = kind_APC then n = unat length_APC - 2
      else if k = kind_FRAG then n = unat length_FRAG_NON_TERMINAL - 2 \<or> n = unat length_FRAG_TERMINAL - 2
      else if k = kind_MDS then n = unat length_MDS - 2
      else if k = kind_MRDS then n = unat length_MRDS - 2
      else if k = kind_REQ then n = unat length_REQ - 2
      else if k = kind_RES then n = unat length_RES - 2
      else True)"

definition is_builder_accepted :: "raw_option \<Rightarrow> bool" where
  "is_builder_accepted opt \<longleftrightarrow>
     (let k = to_byte (opt_kind opt) in
      k \<noteq> kind_EOL \<and> k \<noteq> kind_NOP \<and> k < kind_UNSAFE_MIN \<and> \<not> oracle_out_of_scope k
      \<and> has_valid_fixed_value_len k (length (opt_value opt)))"

definition oracle_encoded_len :: "usize \<Rightarrow> usize" where
  "oracle_encoded_len n = (if n \<le> 252 then n + 2 else n + 4)"

fun oracle_len_loop :: "usize \<Rightarrow> raw_option list \<Rightarrow> usize option" where
  "oracle_len_loop len [] = Some len"
| "oracle_len_loop len (opt # opts) =
     Option.bind (if len mod 2 = 1 then checked_add len 1 else Some len) (\<lambda>len.
     Option.bind (checked_add len (oracle_encoded_len (length (opt_value opt)))) (\<lambda>len.
     oracle_len_loop len opts))"

definition serialized_body_len_for_oracle :: "raw_option list \<Rightarrow> usize option" where
  "serialized_body_len_for_oracle opts =
     Option.bind (oracle_len_loop (unat length_OCS) opts) (\<lambda>len.
     Option.bind (checked_add len 1) (\<lambda>len.
     if len mod 2 = 1 then checked_add len 1 else Some len))"

fun oracle_patch_loop :: "u16 \<Rightarrow> raw_option list \<Rightarrow> (raw_option list, unit) res" where
  "oracle_patch_loop start [] = Ok []"
| "oracle_patch_loop start (opt # opts) =
     and_then
       (if to_byte (opt_kind opt) = kind_FRAG
        then and_then (put_slice (opt_value opt) 0 (u16_to_be_bytes start)) (\<lambda>v. Ok (opt\<lparr>opt_value := v\<rparr>))
        else Ok opt) (\<lambda>opt.
     and_then (oracle_patch_loop start opts) (\<lambda>opts. Ok (opt # opts)))"

text \<open>\<open>Err\<close> is the \<open>None\<close> of the source, so that the indexing of the value can still panic.\<close>

definition patch_frag_start_for_oracle :: "raw_option list \<Rightarrow> (raw_option list, unit) res" where
  "patch_frag_start_for_oracle opts =
     and_then (ok_or () (serialized_body_len_for_oracle opts)) (\<lambda>body_len.
     and_then (ok_or () (u16_try_from (unat length_UDP_HEADER + body_len))) (\<lambda>start.
     oracle_patch_loop start opts))"

fun accepted_loop :: "bool \<Rightarrow> raw_option list \<Rightarrow> bool" where
  "accepted_loop seen_frag [] = True"
| "accepted_loop seen_frag (opt # opts) =
     (is_builder_accepted opt
      \<and> (if to_byte (opt_kind opt) = kind_FRAG then \<not> seen_frag \<and> accepted_loop True opts
         else accepted_loop seen_frag opts))"

definition canonical_semantic_options :: "raw_option list \<Rightarrow> (raw_option list, unit) res" where
  "canonical_semantic_options opts =
     (if \<not> accepted_loop False opts then Err ()
      else
        let indexed = sort_key (\<lambda>(_, opt). oracle_canonical_rank (to_byte (opt_kind opt))) (enumerate 0 opts);
            sorted = map (\<lambda>(_, opt). \<lparr>opt_kind = from_byte (to_byte (opt_kind opt)), opt_value = opt_value opt\<rparr>) indexed
        in patch_frag_start_for_oracle sorted)"

fun parsed_loop :: "item list \<Rightarrow> (raw_option list, unit) res" where
  "parsed_loop [] = Ok []"
| "parsed_loop (Inl e # xs) = Panic"
| "parsed_loop (Inr r # xs) =
     (if to_byte (ref_kind r) = kind_EOL \<or> to_byte (ref_kind r) = kind_NOP then parsed_loop xs
      else and_then (parsed_loop xs) (\<lambda>opts. Ok (raw_from_ref r # opts)))"

definition parsed_semantic_options :: "bytes \<Rightarrow> (raw_option list, unit) res" where
  "parsed_semantic_options body =
     and_then (assert_that (length body \<ge> 2)) (\<lambda>_.
     and_then (slice body 0 2) (\<lambda>ocs.
     and_then (assert_that (ocs = [0, 0])) (\<lambda>_.
     and_then (slice body 2 (length body)) (\<lambda>rest.
     and_then (options_items (options_iter_new rest)) (\<lambda>(items, _). parsed_loop items)))))"

definition finish_raw_options :: "raw_option list \<Rightarrow> (bytes, serialize_error) res" where
  "finish_raw_options opts = builder_finish (extend_raw builder_new opts)"

definition check_serializer_invariants :: "raw_option list \<Rightarrow> check_result" where
  "check_serializer_invariants opts =
     let_ok (finish_raw_options opts) (Ok ()) (\<lambda>body.
     and_then (slice body 0 2) (\<lambda>ocs.
     and_then (assert_that (ocs = [0, 0] \<and> length body mod 2 = 0)) (\<lambda>_.
     and_then (slice body 2 (length body)) (\<lambda>rest.
     and_then (check_tlv_parser_invariants rest) (\<lambda>_.
     and_then (expect_ok (canonical_semantic_options opts)) (\<lambda>expected.
     and_then (parsed_semantic_options body) (\<lambda>parsed.
     assert_that (parsed = expected))))))))"

function raw_options_loop :: "bytes \<Rightarrow> usize \<Rightarrow> raw_option list \<Rightarrow> (raw_option list, unit) res" where
  "raw_options_loop bs pos opts =
     (if pos + 3 \<le> length bs \<and> length opts < 4 then
        and_then (idx bs pos) (\<lambda>raw.
        and_then (idx bs (pos + 1)) (\<lambda>b1.
        and_then (idx bs (pos + 2)) (\<lambda>b2.
        let value_len = min (unat b1 OR push_bit 8 (unat (b2 AND 0x01))) 260;
            pos = pos + 3;
            available = length bs - pos;
            n = min value_len available in
        and_then (slice bs pos (pos + n)) (\<lambda>v.
        raw_options_loop bs (pos + n) (opts @ [\<lparr>opt_kind = from_byte raw, opt_value = v\<rparr>])))))
      else Ok opts)"
  by pat_completeness auto
termination by (relation "measure (\<lambda>(bs, pos, opts). 4 - length opts)") auto

declare raw_options_loop.simps [simp del]

definition raw_options_from_fuzz_bytes :: "bytes \<Rightarrow> (raw_option list, unit) res" where
  "raw_options_from_fuzz_bytes bs = raw_options_loop bs 0 []"

section \<open>The parser oracle never fails\<close>

lemma drop_Cons_nth: "pos < length bs \<Longrightarrow> drop pos bs = bs ! pos # drop (pos + 1) bs"
  by (simp add: Cons_nth_drop_Suc)

lemma expected_step_spec:
  assumes "pos < length bs"
  shows "expected_step bs pos =
    (case first_option pos (drop pos bs) of
       (Inl e, _) \<Rightarrow> Ok (StepError e)
     | (Inr r, n, cont) \<Rightarrow>
         Ok (StepOption \<lparr>ex_kind = ref_kind r, ex_value_start = ref_at r, ex_value_end = pos + n,
           ex_next_pos = pos + n, ex_is_eol = (\<not> cont)\<rparr>))"
proof -
  consider "pos + 1 = length bs" | "pos + 2 = length bs" | "pos + 3 = length bs" | "pos + 4 \<le> length bs"
    using assms by linarith
  then show ?thesis
  proof cases
    case 4
    then have d: "drop pos bs = bs ! pos # bs ! (pos + 1) # bs ! (pos + 2) # bs ! (pos + 3) # drop (pos + 4) bs"
      by (simp add: drop_Cons_nth numeral_eq_Suc)
    show ?thesis using 4
      by (auto simp: expected_step_def d Let_def single_step_def sized_step_def from_byte_def kind_EXTENDED_LENGTH_MARKER_def)
  next
    case 1
    then have d: "drop pos bs = [bs ! pos]" by (simp add: drop_Cons_nth)
    show ?thesis using 1 by (auto simp: expected_step_def d single_step_def)
  next
    case 2
    then have d: "drop pos bs = [bs ! pos, bs ! (pos + 1)]" by (simp add: drop_Cons_nth)
    show ?thesis using 2 by (auto simp: expected_step_def d single_step_def sized_step_def Let_def)
  next
    case 3
    then have d: "drop pos bs = [bs ! pos, bs ! (pos + 1), bs ! (pos + 2)]" by (simp add: drop_Cons_nth numeral_eq_Suc)
    show ?thesis using 3 by (auto simp: expected_step_def d single_step_def sized_step_def Let_def)
  qed
qed

lemma first_option_value:
  assumes "first_option off bs = (Inr r, n, cont)"
  shows "case ref_at r of None \<Rightarrow> ref_value r = []
    | Some at \<Rightarrow> off \<le> at \<and> at \<le> off + n \<and> ref_value r = take (off + n - at) (drop (at - off) bs)"
  using assms
  by (cases "(off, bs)" rule: first_option.cases)
    (auto simp: Let_def split: if_splits list.splits)

lemma check_item_ok:
  assumes "first_option pos (drop pos bs) = (Inr r, n, cont)" and "pos < length bs"
  shows "check_item bs pos \<lparr>ex_kind = ref_kind r, ex_value_start = ref_at r, ex_value_end = pos + n,
      ex_next_pos = pos + n, ex_is_eol = (\<not> cont)\<rparr> (Some (Inr r)) = Ok r"
proof -
  note n = first_option_Inr [OF assms(1)]
  show ?thesis
    using first_option_value [OF assms(1)] n(1,2) assms(2)
    by (cases "ref_at r") (auto simp: check_item_def)
qed

lemma assert_exhausted_ok: "iter_rest it = [] \<Longrightarrow> it_max_nop_run it = m \<Longrightarrow> assert_exhausted it m = Ok ()"
  by (simp add: assert_exhausted_def options_next_end max_nop_run_def)

lemma tlv_loop_ok:
  assumes "it_bytes it = bs" and "it_pos it = pos" and "\<not> it_done it" and "yielded \<le> pos"
    and "it_current_nop_run it = current_run" and "it_max_nop_run it = max_run"
  shows "tlv_loop bs it yielded current_run max_run pos = Ok ()"
  using assms
proof (induction "length bs - pos" arbitrary: it yielded current_run max_run pos rule: less_induct)
  case less
  have rest: "iter_rest it = drop pos bs" using less.prems by (simp add: iter_rest_def)
  show ?case
  proof (cases "pos < length bs")
    case False
    then show ?thesis
      using less.prems rest by (simp add: tlv_loop.simps [of bs it] expected_step_def assert_exhausted_ok)
  next
    case True
    obtain x n cont where f: "first_option pos (drop pos bs) = (x, n, cont)" by (metis prod.exhaust)
    have next_eq: "(options_next it :: (_, unit) res) = Ok (Some x, iter_after it x n cont)"
      using options_next_step [of it] True by (simp add: rest less.prems f)
    have after: "iter_rest (iter_after it x n cont) = (if cont then drop n (drop pos bs) else [])"
      using iter_rest_after [of it x n cont] True by (simp add: rest less.prems f)
    show ?thesis
    proof (cases x)
      case (Inl e)
      then have "iter_rest (iter_after it x n cont) = []" using first_option_Inl [OF f [unfolded Inl]] after by simp
      then show ?thesis
        using less.prems True
        by (simp add: tlv_loop.simps [of bs it] expected_step_spec f Inl next_eq assert_exhausted_ok iter_after_def)
    next
      case (Inr r)
      note n = first_option_Inr [OF f [unfolded Inr]]
      let ?it = "iter_after it x n cont"
      let ?c = "if ref_kind r = Nop then current_run + 1 else 0"
      let ?m = "if ref_kind r = Nop then max max_run ?c else max_run"
      have it: "it_bytes ?it = bs" "it_pos ?it = pos + n" "it_done ?it = (\<not> cont)" "it_current_nop_run ?it = ?c"
          "it_max_nop_run ?it = ?m"
        using less.prems by (simp_all add: iter_after_def Inr)
      have IH: "tlv_loop bs ?it (yielded + 1) ?c ?m (pos + n) = Ok ()" if cont
        by (rule less.hyps) (use that n True it less.prems(4) in auto)
      have step: "tlv_loop bs it yielded current_run max_run pos =
          (if cont then tlv_loop bs ?it (yielded + 1) ?c ?m (pos + n) else assert_exhausted ?it ?m)"
        using less.prems(4) True check_item_ok [OF f [unfolded Inr] True] it(5)
        by (simp add: tlv_loop.simps [of bs it] expected_step_spec f Inr next_eq [unfolded Inr] max_nop_run_def Let_def)
      show ?thesis
      proof (cases cont)
        case False
        then have "iter_rest ?it = []" using after by simp
        then show ?thesis using assert_exhausted_ok [of ?it ?m] it(5) step False by simp
      qed (use step IH in simp)
    qed
  qed
qed

lemma check_tlv_parser_invariants_ok: "check_tlv_parser_invariants bs = Ok ()"
  unfolding check_tlv_parser_invariants_def by (rule tlv_loop_ok) (simp_all add: options_iter_new_def)

section \<open>The serializer oracle never fails\<close>

lemma oracle_canonical_rank_eq: "oracle_canonical_rank k = canonical_rank k"
  by (simp add: oracle_canonical_rank_def canonical_rank_def)

lemma is_builder_accepted_valid: "valid_option opt \<Longrightarrow> is_builder_accepted opt"
  by (auto simp: valid_option_def is_builder_accepted_def has_valid_fixed_value_len_def fixed_value_lens_def
      FRAG_VALUE_LENS_def oracle_out_of_scope_def is_out_of_scope_assigned_safe_kind_def Let_def word_less_nat_alt
      kind_UNSAFE_MIN_def split: if_splits)

lemma accepted_loop_valid:
  "\<forall>opt \<in> set opts. valid_option opt \<Longrightarrow> (if seen then frag_count opts = 0 else frag_count opts \<le> 1) \<Longrightarrow>
     accepted_loop seen opts"
  by (induction opts arbitrary: seen) (auto simp: is_builder_accepted_valid frag_count_def split: if_splits)

lemma map_insort_key: "map g (insort_key (\<lambda>x. f (g x)) x xs) = insort_key f (g x) (map g xs)"
  by (induction xs) simp_all

lemma map_sort_key: "map g (sort_key (\<lambda>x. f (g x)) xs) = sort_key f (map g xs)"
  by (induction xs) (simp_all add: map_insort_key)

definition canon :: "raw_option \<Rightarrow> raw_option" where
  "canon opt = \<lparr>opt_kind = from_byte (to_byte (opt_kind opt)), opt_value = opt_value opt\<rparr>"

lemma canon_simps [simp]: "to_byte (opt_kind (canon opt)) = to_byte (opt_kind opt)" "opt_value (canon opt) = opt_value opt"
  by (simp_all add: canon_def)

lemma oracle_sorted:
  "map (\<lambda>(_, opt). \<lparr>opt_kind = from_byte (to_byte (opt_kind opt)), opt_value = opt_value opt\<rparr>)
     (sort_key (\<lambda>(_, opt). oracle_canonical_rank (to_byte (opt_kind opt))) (enumerate 0 opts)) = map canon (sort_canonical opts)"
proof -
  have "map canon (map snd (sort_key (\<lambda>p. canonical_rank (to_byte (opt_kind (snd p)))) (enumerate 0 opts))) =
      map canon (sort_canonical opts)"
    unfolding map_sort_key [of snd "\<lambda>opt. canonical_rank (to_byte (opt_kind opt))"] by (simp add: sort_canonical_def)
  then show ?thesis by (simp add: oracle_canonical_rank_eq case_prod_beta' comp_def canon_def [abs_def])
qed

lemma checked_body_add_usize: "checked_body_add a b = Ok c \<Longrightarrow> checked_add a b = Some c"
  by (auto simp: checked_body_add_Ok_iff BODY_LEN_MAX_def usize_max_def u16_max_def)

lemma oracle_len_loop_eq:
  "body_len_loop len opts = Ok n \<Longrightarrow> oracle_len_loop len (map canon opts) = Some n"
  by (induction opts arbitrary: len)
    (auto simp: and_then_eq_Ok oracle_encoded_len_def encoded_len_def DEFAULT_VALUE_LEN_MAX_def checked_add_def
      dest!: checked_body_add_usize split: if_splits)

lemma serialized_body_len_for_oracle_eq:
  "serialized_body_len opts = Ok n \<Longrightarrow> serialized_body_len_for_oracle (map canon opts) = Some n"
  by (auto simp: serialized_body_len_def serialized_body_len_for_oracle_def and_then_eq_Ok OCS_PLACEHOLDER_LEN_def checked_add_def
      dest!: oracle_len_loop_eq checked_body_add_usize split: if_splits)

lemma canon_patched: "canon (patched start opt) = patched start (canon opt)"
  by (simp add: canon_def patched_def)

lemma oracle_patch_loop_Ok:
  "\<forall>opt \<in> set opts. valid_option opt \<Longrightarrow> oracle_patch_loop start (map canon opts) = Ok (map canon (map (patched start) opts))"
proof (induction opts)
  case (Cons opt opts)
  have "2 \<le> length (opt_value opt)" if "to_byte (opt_kind opt) = kind_FRAG"
    using valid_frag_length [of opt] Cons.prems that by auto
  then show ?case using Cons by (auto simp: canon_def patched_def numeral_2_eq_2)
qed simp

lemma canonical_semantic_options_eq:
  assumes "valid_options opts" and "8 + length (canonical_body (sort_canonical opts)) \<le> u16_max"
  shows "canonical_semantic_options opts = Ok (map canon (written_options opts))"
proof -
  have acc: "accepted_loop False opts" using assms(1) by (simp add: accepted_loop_valid valid_options_def)
  have val: "\<forall>opt \<in> set (sort_canonical opts). valid_option opt" using assms(1) by (simp add: valid_options_def)
  have "length (canonical_body (sort_canonical opts)) \<le> BODY_LEN_MAX" using assms(2) by (simp add: BODY_LEN_MAX_def)
  then have "serialized_body_len (sort_canonical opts) = Ok (length (canonical_body (sort_canonical opts)))"
    by (simp add: serialized_body_len_Ok_iff)
  note len = serialized_body_len_for_oracle_eq [OF this]
  show ?thesis
    using assms(2) acc oracle_patch_loop_Ok [OF val]
    by (simp add: canonical_semantic_options_def oracle_sorted patch_frag_start_for_oracle_def len u16_try_from_def
        written_options_def Let_def length_UDP_HEADER_def)
qed

lemma parsed_loop_stream:
  "\<forall>opt \<in> set opts. framed_option opt \<Longrightarrow> parsed_loop (stream_items off p opts @ [eol_item]) = Ok (map canon opts)"
proof (induction opts arbitrary: off p)
  case (Cons opt opts)
  then show ?case
    by (auto simp: Let_def nop_item_def option_item_def framed_option_def raw_from_ref_def canon_def)
qed (simp add: eol_item_def)

lemma canonical_body_OCS: "\<exists>rest. canonical_body opts = 0 # 0 # rest"
  by (simp add: canonical_body_def Let_def)

lemma check_serializer_invariants_ok: "check_serializer_invariants opts = Ok ()"
proof (cases "finish_raw_options opts")
  case (Ok body)
  then have fin: "valid_options opts" "8 + length (canonical_body (sort_canonical opts)) \<le> u16_max"
      "body = canonical_body (written_options opts)"
    by (auto simp: finish_raw_options_def builder_finish_Ok_iff extend_raw_def builder_new_def)
  obtain rest where rest: "body = 0 # 0 # rest" using canonical_body_OCS fin(3) by blast
  have even: "length rest mod 2 = 0" using even_length_canonical_body [of "written_options opts"] fin(3) rest
    by (metis even_Suc even_iff_mod_2_eq_zero length_Cons)
  have framed: "\<forall>opt \<in> set (written_options opts). framed_option opt"
    using fin(1) by (auto simp: written_options_def valid_options_def Let_def intro: valid_framed)
  obtain it where items: "(options_items (options_iter_new rest) :: (_, unit) res) = Ok (parse_spec 0 rest, it)"
    using options_items_parse [of "options_iter_new rest"] by (auto simp: options_iter_new_def iter_rest_def)
  have "parse_spec 0 rest = stream_items 0 False (written_options opts) @ [eol_item]"
    using parse_canonical_body [OF framed, folded fin(3)] by (simp add: rest)
  then have "parsed_semantic_options body = Ok (map canon (written_options opts))"
    using parsed_loop_stream [OF framed] by (simp add: parsed_semantic_options_def rest items)
  then show ?thesis
    using canonical_semantic_options_eq [OF fin(1,2)] even
    by (simp add: check_serializer_invariants_def Ok rest check_tlv_parser_invariants_ok mod_Suc)
qed (simp_all add: check_serializer_invariants_def finish_raw_options_def builder_finish_no_panic)

lemma raw_options_loop_total: "\<exists>out. raw_options_loop bs pos opts = Ok out"
proof (induction "4 - length opts" arbitrary: pos opts rule: less_induct)
  case less
  show ?case
  proof (cases "pos + 3 \<le> length bs \<and> length opts < 4")
    case True
    define n where "n = min (min (unat (bs ! (pos + 1)) OR push_bit 8 (unat (bs ! (pos + 2) AND 0x01))) 260) (length bs - (pos + 3))"
    have "n \<le> length bs - (pos + 3)" unfolding n_def by (rule min.cobounded2)
    then have "pos + 3 + n \<le> length bs" using True by linarith
    then obtain v where v: "(slice bs (pos + 3) (pos + 3 + n) :: (_, unit) res) = Ok v" by simp
    have "raw_options_loop bs pos opts = raw_options_loop bs (pos + 3 + n) (opts @ [\<lparr>opt_kind = from_byte (bs ! pos), opt_value = v\<rparr>])"
      using True v [unfolded n_def] by (simp add: raw_options_loop.simps [of bs pos] n_def Let_def del: slice_Ok)
    moreover have "4 - length (opts @ [\<lparr>opt_kind = from_byte (bs ! pos), opt_value = v\<rparr>]) < 4 - length opts" using True by auto
    ultimately show ?thesis using less by metis
  next
    case False
    then show ?thesis by (subst raw_options_loop.simps, subst if_not_P) simp_all
  qed
qed

end
