(* ===== verification/Oracle_Frag.thy ===== *)
theory Oracle_Frag
  imports Oracle_Options Frag_Roundtrip
begin

text \<open>
  The oracles of fragmentation and reassembly (\<open>tests/common_frag_split\<close>, \<open>tests/common_frag_reassembly\<close>) with the
  option bodies they derive from arbitrary bytes, run by the fuzz targets \<open>frag_split\<close> and \<open>frag_reassembly\<close>.
  The clock that the reassembly oracle reads before each insertion is a parameter.
\<close>

section \<open>Derived option bodies\<close>

text \<open>\<open>if data.len() >= at_least { builder.push(kind, data[from..to].to_vec()) }\<close>\<close>

definition push_if :: "bool \<Rightarrow> options_builder \<Rightarrow> option_kind \<Rightarrow> bytes \<Rightarrow> usize \<Rightarrow> usize \<Rightarrow> (options_builder, unit) res" where
  "push_if c b k data from to =
     (if c then and_then (slice data from to) (\<lambda>v. Ok (builder_push b k v)) else Ok b)"

definition options_body_from_fuzz_bytes :: "bytes \<Rightarrow> (bytes, unit) res" where
  "options_body_from_fuzz_bytes data =
     (if data = [] then Ok [] else
      and_then (idx data 0) (\<lambda>b0.
      if b0 mod 4 = 0 then Ok [] else
      let n = length data in
      and_then (push_if (n \<ge> 4) builder_new Req data 0 4) (\<lambda>b.
      and_then (push_if (n \<ge> 8) b Res data 4 8) (\<lambda>b.
      and_then (push_if (n \<ge> 10) b Mds data 8 10) (\<lambda>b.
      and_then (push_if (n \<ge> 13) b Mrds data 10 13) (\<lambda>b.
      and_then (push_if (n > 13) b (Other 10) data 13 (min n 45)) (\<lambda>b.
      expect_ok (builder_finish b))))))))"

section \<open>The splitter oracle\<close>

definition first_option_ref :: "bytes \<Rightarrow> (option_ref, unit) res" where
  "first_option_ref surplus_body =
     and_then (slice surplus_body 0 (unat length_OCS)) (\<lambda>ocs.
     and_then (assert_that (ocs = [0, 0])) (\<lambda>_.
     and_then (slice surplus_body (unat length_OCS) (length surplus_body)) (\<lambda>opts.
     and_then (options_next (options_iter_new opts)) (\<lambda>(x, _).
     and_then (expect_some x) (\<lambda>item. case item of Inl _ \<Rightarrow> Panic | Inr r \<Rightarrow> Ok r)))))"

definition frag_and_data :: "bytes \<Rightarrow> option_ref \<Rightarrow> (frag \<times> bytes, unit) res" where
  "frag_and_data surplus_body option =
     and_then (expect_ok (frag_decode (ref_value option))) (\<lambda>f.
     and_then (expect_some (checked_sub (unat (frag_start f)) (unat length_UDP_HEADER))) (\<lambda>data_start.
     and_then (assert_that (data_start \<le> length surplus_body)) (\<lambda>_.
     and_then (slice surplus_body data_start (length surplus_body)) (\<lambda>data. Ok (f, data)))))"

definition parsed_frag :: "bytes \<Rightarrow> (frag \<times> bytes, unit) res" where
  "parsed_frag surplus_body =
     and_then (first_option_ref surplus_body) (\<lambda>option.
     and_then (assert_that (to_byte (ref_kind option) = kind_FRAG)) (\<lambda>_.
     frag_and_data surplus_body option))"

text \<open>The reassembly oracle leaves out the assertion on the Kind.\<close>

definition reassembly_parsed_frag :: "bytes \<Rightarrow> (frag \<times> bytes, unit) res" where
  "reassembly_parsed_frag surplus_body =
     and_then (first_option_ref surplus_body) (frag_and_data surplus_body)"

fun fragments_loop ::
  "bytes \<Rightarrow> split_config \<Rightarrow> usize \<Rightarrow> bytes \<Rightarrow> fragment list \<Rightarrow> (bytes, unit) res" where
  "fragments_loop payload config expected_offset tail [] = Ok tail"
| "fragments_loop payload config expected_offset tail (fr # frs) =
     and_then (assert_that (length (fr_surplus_body fr) \<le> max_fragment_surplus_len config)) (\<lambda>_.
     and_then (parsed_frag (fr_surplus_body fr)) (\<lambda>(f, data).
     and_then (assert_that (identification f = split_identification config \<and> frag_offset f = fr_frag_offset fr
       \<and> unat (fr_frag_offset fr) = expected_offset \<and> rdos f = fr_rdos fr \<and> fr_terminal fr = (rdos f \<noteq> None))) (\<lambda>_.
     and_then
       (if fr_terminal fr then
          and_then (add_u16_checked (ucast length_UDP_HEADER) (word_of_nat (length payload))) (\<lambda>n.
          assert_that (fr_rdos fr = Some n))
        else assert_that (fr_rdos fr = None)) (\<lambda>_.
     fragments_loop payload config (expected_offset + length data) (tail @ data) frs))))"

definition expected_tail :: "bytes \<Rightarrow> bytes \<Rightarrow> bytes" where
  "expected_tail payload options_body =
     payload @ (if options_body \<noteq> [] \<and> (unat length_UDP_HEADER + length payload) mod 2 = 1 then [0] else []) @ options_body"

definition check_fragments :: "bytes \<Rightarrow> bytes \<Rightarrow> split_config \<Rightarrow> fragment list \<Rightarrow> check_result" where
  "check_fragments payload options_body config fragments =
     and_then (assert_that (fragments \<noteq> [] \<and> length fragments \<le> unat (peer_max_segments (peer config))
       \<and> length (filter fr_terminal fragments) = 1)) (\<lambda>_.
     and_then (assert_that (fr_terminal (last fragments))) (\<lambda>_.
     let atomic = (length fragments = 1 \<and> fr_terminal (hd fragments)) in
     and_then (fragments_loop payload config (if atomic then 0 else unat length_UDP_HEADER) [] fragments) (\<lambda>tail.
     assert_that (tail = expected_tail payload options_body))))"

definition check_split_invariants :: "bytes \<Rightarrow> bytes \<Rightarrow> split_config \<Rightarrow> check_result" where
  "check_split_invariants payload options_body config =
     let_ok (split_datagram payload options_body config) (Ok ()) (\<lambda>fragments.
     check_fragments payload options_body config fragments)"

section \<open>The reassembly oracle\<close>

text \<open>\<open>order.swap(i, j)\<close>\<close>

definition swap :: "'a list \<Rightarrow> usize \<Rightarrow> usize \<Rightarrow> ('a list, 'e) res" where
  "swap xs i j =
     (if i < length xs \<and> j < length xs then Ok (xs[i := xs ! j, j := xs ! i]) else Panic)"

definition seed_choice :: "bytes \<Rightarrow> usize \<Rightarrow> byte" where
  "seed_choice seed i = (if i < length seed then seed ! i else 0)"

fun order_loop :: "bytes \<Rightarrow> (usize \<times> usize) list \<Rightarrow> usize list \<Rightarrow> (usize list, unit) res" where
  "order_loop seed [] order = Ok order"
| "order_loop seed ((seed_index, upper) # steps) order =
     and_then (swap order upper (unat (seed_choice seed seed_index) mod (upper + 1))) (\<lambda>order.
     order_loop seed steps order)"

definition fragment_order :: "usize \<Rightarrow> bytes \<Rightarrow> (usize list, unit) res" where
  "fragment_order n seed = order_loop seed (enumerate 0 (rev [1..<n])) [0..<n]"

fun insert_loop ::
  "(usize \<Rightarrow> instant) \<Rightarrow> frag_key \<Rightarrow> fragment list \<Rightarrow> usize \<Rightarrow> (usize \<times> usize) list \<Rightarrow> reassembly_cache
     \<Rightarrow> reassembly_outcome option \<Rightarrow> (reassembly_outcome option \<times> reassembly_cache, unit) res" where
  "insert_loop clock key fragments n [] c completed = Ok (completed, c)"
| "insert_loop clock key fragments n ((position, index) # order) c completed =
     and_then (idx fragments index) (\<lambda>fr.
     and_then (reassembly_parsed_frag (fr_surplus_body fr)) (\<lambda>(f, data).
     and_then (cache_insert c key f data (clock position)) (\<lambda>(out, c).
     if position + 1 = n then insert_loop clock key fragments n order c (Some out)
     else and_then (assert_that (out = Incomplete)) (\<lambda>_. insert_loop clock key fragments n order c completed))))"

definition oracle_limits :: reassembly_limits where
  "oracle_limits =
     \<lparr>lim_max_reassembled_size = u16_max, lim_max_segments = 255, lim_max_pending_partials = 8,
      lim_timeout = REASSEMBLY_TIMEOUT_MAX\<rparr>"

definition check_reassembly_invariants :: "(usize \<Rightarrow> instant) \<Rightarrow> bytes \<Rightarrow> bytes \<Rightarrow> split_config \<Rightarrow> bytes \<Rightarrow> check_result" where
  "check_reassembly_invariants clock payload options_body config seed =
     (let config = config\<lparr>peer := \<lparr>peer_max_reassembled_size = 0xffff, peer_max_segments = 0xff\<rparr>\<rparr> in
      let_ok (split_datagram payload options_body config) (Ok ()) (\<lambda>fragments.
      let c = cache_with_limits oracle_limits;
          key = \<lparr>key_src = Ipv4Addr 192 0 2 1, key_dst = Ipv4Addr 198 51 100 2, key_src_port = 12345, key_dst_port = 54321,
                 key_identification = split_identification config\<rparr> in
      and_then (fragment_order (length fragments) seed) (\<lambda>order.
      and_then (insert_loop clock key fragments (length order) (enumerate 0 order) c None) (\<lambda>(completed, c).
      and_then (expect_some completed) (\<lambda>out.
      case out of
        Complete r \<Rightarrow>
          assert_that (c_tail r = expected_tail payload options_body
            \<and> unat (c_udp_length r) = unat length_UDP_HEADER + length payload \<and> cache_is_empty c)
      | _ \<Rightarrow> Panic)))))"

section \<open>The splitter oracle never fails\<close>

lemma first_option_ref_fragment:
  "first_option_ref (fragment_options_body ident off r @ data) =
     Ok \<lparr>ref_kind = Frag, ref_value = frag_wire_value (fragment_frag ident off r), ref_at = Some 2\<rparr>"
proof -
  let ?opt = "\<lparr>opt_kind = Frag, opt_value = frag_wire_value (fragment_frag ident off r)\<rparr>"
  let ?it = "options_iter_new (option_bytes ?opt @ data)"
  have framed: "framed_option ?opt" using valid_framed [OF frag_opt.val_valid] .
  have rest: "iter_rest ?it = option_bytes ?opt @ data" "it_pos ?it = 0" by (simp_all add: options_iter_new_def iter_rest_def)
  have "(options_next ?it :: (_, unit) res) = Ok (Some (option_item 0 ?opt), iter_after ?it (option_item 0 ?opt) (length (option_bytes ?opt)) True)"
    using options_next_step [of ?it] first_option_framed [OF framed, of 0 data] by (simp add: rest)
  then show ?thesis
    by (simp add: first_option_ref_def fragment_options_body_eq option_item_def length_OCS_def from_byte_named)
qed

lemma frag_and_data_fragment:
  "frag_and_data (fragment_options_body ident off r @ data)
     \<lparr>ref_kind = Frag, ref_value = frag_wire_value (fragment_frag ident off r), ref_at = Some 2\<rparr> =
     Ok (fragment_frag ident off r, data)"
  by (cases r) (simp_all add: frag_and_data_def fragment_frag_def length_UDP_HEADER_def checked_sub_def)

lemmas parsed_fragment = first_option_ref_fragment frag_and_data_fragment

lemma parsed_frag_fragment: "parsed_frag (fragment_options_body ident off r @ data) = Ok (fragment_frag ident off r, data)"
  by (simp add: parsed_frag_def parsed_fragment)

lemma reassembly_parsed_frag_fragment:
  "reassembly_parsed_frag (fragment_options_body ident off r @ data) = Ok (fragment_frag ident off r, data)"
  by (simp add: reassembly_parsed_frag_def parsed_fragment)

lemma expected_tail_eq: "expected_tail payload body = reassembled_tail payload body"
  by (simp add: expected_tail_def reassembled_tail_def rdos_needs_options_pad_def)

lemma fragments_loop_step:
  assumes "fr = fragment_of tail atomic r (split_identification config) (a, b, t)" and "a \<le> b" and "b \<le> length tail"
    and "(if t then 14 else 12) + (b - a) \<le> max_fragment_surplus_len config"
    and "unat r = 8 + length payload" and "unat (fr_frag_offset fr) = off"
  shows "fragments_loop payload config off acc (fr # frs) =
    fragments_loop payload config (off + (b - a)) (acc @ take (b - a) (drop a tail)) frs"
proof -
  have "word_of_nat (8 + length payload) = r" unfolding assms(5) [symmetric] by simp
  moreover have "8 + unat (word_of_nat (length payload) :: u16) \<le> u16_max"
    using assms(5) unat_u16_le_max [of r] by (simp add: unat_of_nat_u16)
  ultimately have r: "add_u16_checked (ucast length_UDP_HEADER) (word_of_nat (length payload)) = (Ok r :: (_, unit) res)"
    by (simp add: length_UDP_HEADER_def add_u16_checked_def)
  have body: "fr_surplus_body fr = fragment_options_body (split_identification config) (fr_frag_offset fr) (fr_rdos fr)
      @ take (b - a) (drop a tail)"
    by (simp add: assms(1) fragment_of_def Let_def)
  have fields: "fr_terminal fr = t" "fr_rdos fr = (if t then Some r else None)" by (simp_all add: assms(1) fragment_of_def Let_def)
  have len: "length (fr_surplus_body fr) \<le> max_fragment_surplus_len config"
    using assms(2-4) by (auto simp: body fields split: if_splits)
  have p: "parsed_frag (fr_surplus_body fr) =
      Ok (fragment_frag (split_identification config) (fr_frag_offset fr) (fr_rdos fr), take (b - a) (drop a tail))"
    unfolding body by (rule parsed_frag_fragment)
  show ?thesis
    using len assms(2,3) by (simp add: p) (simp add: fragment_frag_def fields r assms(6))
qed

lemma fragments_loop_tiles:
  assumes "unat r = 8 + length payload" and "14 \<le> max_fragment_surplus_len config" and "8 + length tail \<le> u16_max"
  shows "tiles (max_fragment_surplus_len config - 14) (max_fragment_surplus_len config - 12) s e ranges \<Longrightarrow> e \<le> length tail \<Longrightarrow>
    fragments_loop payload config (8 + s) acc (map (fragment_of tail False r (split_identification config)) ranges) =
      Ok (acc @ take (e - s) (drop s tail))"
proof (induction "max_fragment_surplus_len config - 14" "max_fragment_surplus_len config - 12" s e ranges
    arbitrary: acc rule: tiles.induct)
  case (2 s e a b t)
  have "unat (fr_frag_offset (fragment_of tail False r (split_identification config) (a, b, t))) = 8 + a"
    using 2 assms(3) by (simp add: fragment_of_def Let_def unat_of_nat_u16 del: of_nat_add)
  then show ?case
    using 2 assms by (simp del: fragments_loop.simps(2)) (subst fragments_loop_step [OF refl], auto)
next
  case (3 s e a b t x xs)
  have le: "b \<le> e" using 3(2) tiles_le by fastforce
  have "unat (fr_frag_offset (fragment_of tail False r (split_identification config) (a, b, t))) = 8 + a"
    using 3(2,3) le assms(3) by (simp add: fragment_of_def Let_def unat_of_nat_u16 del: of_nat_add)
  then have "fragments_loop payload config (8 + s) acc (map (fragment_of tail False r (split_identification config)) ((a, b, t) # x # xs)) =
      fragments_loop payload config (8 + s + (b - a)) (acc @ take (b - a) (drop a tail))
        (map (fragment_of tail False r (split_identification config)) (x # xs))"
    using 3(2,3) le assms by (simp only: list.map) (subst fragments_loop_step [OF refl], auto)
  also have "\<dots> = Ok ((acc @ take (b - a) (drop a tail)) @ take (e - b) (drop b tail))"
    using 3(1) [of "acc @ take (b - a) (drop a tail)"] 3(2,3) by simp
  also have "\<dots> = Ok (acc @ take (e - s) (drop s tail))"
    using take_drop_join [of s b e tail] 3(2) le by simp
  finally show ?case .
qed simp

lemma check_split_invariants_ok: "check_split_invariants payload body config = Ok ()"
proof (cases "split_datagram payload body config")
  case (Ok frs)
  let ?tail = "reassembled_tail payload body" and ?id = "split_identification config"
  obtain r ranges where r: "unat r = 8 + length payload" and sr: "split_ranges config (length ?tail) ranges"
    and frs: "frs = map (fragment_of ?tail (length ranges = 1) r ?id) ranges"
    by (rule split_datagram_Ok [OF Ok])
  note s = sr [unfolded split_ranges_def]
  have len: "8 + length ?tail \<le> u16_max" using s unat_u16_le_max le_trans by blast
  have "fr_terminal (fragment_of ?tail (length ranges = 1) r ?id x) = snd (snd x)" for x by (cases x) (simp add: fragment_of_simps)
  then have trm: "map fr_terminal frs = replicate (length frs - 1) False @ [True]"
    using tiles_terminal_iff [of _ _ _ _ ranges] s by (auto simp: frs comp_def)
  then have ne: "frs \<noteq> []" by auto
  have last: "fr_terminal (last frs)" using trm ne by (metis last_map last_snoc)
  have one: "length (filter fr_terminal frs) = 1"
  proof -
    have "filter id (map fr_terminal frs) = [True]" unfolding trm by simp
    from arg_cong [OF this, of length] show ?thesis by (simp add: filter_map comp_def)
  qed
  have "fragments_loop payload config (if length frs = 1 then 0 else 8) [] frs = Ok ?tail"
  proof (cases "length ranges = 1")
    case False
    then show ?thesis using fragments_loop_tiles [OF r _ len, of config 0 "length ?tail" ranges "[]"] s by (simp add: frs)
  next
    case True
    then obtain a b t where ranges: "ranges = [(a, b, t)]" by (cases ranges) auto
    show ?thesis
      using s r by (simp add: frs ranges del: fragments_loop.simps(2)) (subst fragments_loop_step [OF refl], auto simp: fragment_of_atomic)
  qed
  moreover have "(length frs = 1 \<and> fr_terminal (hd frs)) = (length frs = 1)" using last by (cases frs) auto
  moreover have "length frs \<le> unat (peer_max_segments (peer config))" using s by (simp add: frs)
  moreover have "unat length_UDP_HEADER = 8" by (simp add: length_UDP_HEADER_def)
  ultimately show ?thesis
    using ne last one by (simp only: check_split_invariants_def Ok check_fragments_def expected_tail_eq Let_def) simp
qed (simp_all add: check_split_invariants_def split_datagram_no_panic)

section \<open>The reassembly oracle never fails\<close>

lemma order_loop_perm:
  "\<forall>(i, u) \<in> set steps. u < length order \<Longrightarrow> \<exists>out. order_loop seed steps order = Ok out \<and> mset out = mset order"
proof (induction steps arbitrary: order)
  case (Cons x steps)
  obtain i u where x: "x = (i, u)" by (cases x)
  let ?j = "unat (seed_choice seed i) mod (u + 1)"
  have u: "u < length order" using Cons.prems x by auto
  have j: "?j < length order" using u by (metis Suc_eq_plus1 less_Suc_eq_le mod_less_divisor order_le_less_trans zero_less_Suc)
  have "mset (order[u := order ! ?j, ?j := order ! u]) = mset order" using mset_swap [OF j u] .
  then show ?case using Cons.IH [of "order[u := order ! ?j, ?j := order ! u]"] Cons.prems u j by (simp add: x swap_def)
qed simp

lemma fragment_order_perm: "\<exists>order. fragment_order n seed = Ok order \<and> mset order = mset [0..<n]"
  unfolding fragment_order_def by (rule order_loop_perm) (auto simp: in_set_enumerate_eq rev_nth)

definition oracle_processing :: fragment_processing where
  "oracle_processing = \<lparr>fp_options = [], fp_option_failures = [], fp_ocs_nonzero = None\<rparr>"

lemma insert_loop_feed:
  assumes "\<forall>fr \<in> set frs. \<exists>data. fr_surplus_body fr = fragment_options_body ident (fr_frag_offset fr) (fr_rdos fr) @ data"
  shows "\<forall>i \<in> set order. i < length frs \<Longrightarrow> order \<noteq> [] \<Longrightarrow> n = k + length order \<Longrightarrow>
    feed c key (map (\<lambda>(pos, i). fragment_arrival ident (frs ! i) oracle_processing (clock pos)) (enumerate k order)) =
      (Ok (replicate (length order - 1) Incomplete @ [out], c') :: (_, unit) res) \<Longrightarrow>
    insert_loop clock key frs n (enumerate k order) c completed = Ok (Some out, c')"
proof (induction order arbitrary: k c completed)
  case (Cons i order)
  have "frs ! i \<in> set frs" using Cons.prems(1) by simp
  then obtain data where body: "fr_surplus_body (frs ! i) = fragment_options_body ident (fr_frag_offset (frs ! i)) (fr_rdos (frs ! i)) @ data"
    using assms by blast
  have arr: "fragment_arrival ident (frs ! i) oracle_processing (clock k) =
      (fragment_frag ident (fr_frag_offset (frs ! i)) (fr_rdos (frs ! i)), data, oracle_processing, clock k)"
    by (cases "fr_rdos (frs ! i)") (simp_all add: fragment_arrival_def body fragment_frag_def)
  let ?as = "map (\<lambda>(pos, i). fragment_arrival ident (frs ! i) oracle_processing (clock pos)) (enumerate (Suc k) order)"
  obtain out1 c1 outs where step: "(insert_with_options_and_failures c key (fragment_frag ident (fr_frag_offset (frs ! i)) (fr_rdos (frs ! i)))
        data oracle_processing (clock k) :: (_, unit) res) = Ok (out1, c1)"
    and rest: "(feed c1 key ?as :: (_, unit) res) = Ok (outs, c')" and outs: "out1 # outs = replicate (length order) Incomplete @ [out]"
    using Cons.prems(4) by (auto simp: arr and_then_eq_Ok)
  have ins: "(cache_insert c key (fragment_frag ident (fr_frag_offset (frs ! i)) (fr_rdos (frs ! i))) data (clock k) :: (_, unit) res) = Ok (out1, c1)"
    using step by (simp add: cache_insert_def insert_with_options_def oracle_processing_def)
  have parsed: "reassembly_parsed_frag (fr_surplus_body (frs ! i)) = Ok (fragment_frag ident (fr_frag_offset (frs ! i)) (fr_rdos (frs ! i)), data)"
    unfolding body by (rule reassembly_parsed_frag_fragment)
  show ?case
  proof (cases "order = []")
    case True
    then show ?thesis using Cons.prems(1,3) outs rest by (simp add: parsed ins)
  next
    case False
    then have o: "out1 = Incomplete" "outs = replicate (length order - 1) Incomplete @ [out]"
      using outs by (cases order; simp)+
    have "insert_loop clock key frs n (enumerate (Suc k) order) c1 completed = Ok (Some out, c')"
      using Cons.IH [of "Suc k" c1 completed] Cons.prems(1,3) False rest o(2) by simp
    then show ?thesis using Cons.prems(1,3) False by (simp add: parsed ins o(1))
  qed
qed simp

lemma feed_frame:
  "cache_inv c \<Longrightarrow> feed c key as = (Ok (outs, c') :: (_, 'e) res) \<Longrightarrow> k \<noteq> key \<Longrightarrow> hm_get (partials c) k = None \<Longrightarrow>
     hm_get (partials c') k = None \<and> cache_inv c'"
proof (induction as arbitrary: c outs)
  case (Cons a as)
  obtain f data proc now where a: "a = (f, data, proc, now)" by (cases a)
  obtain out c1 outs' where i: "(insert_with_options_and_failures c key f data proc now :: (_, 'e) res) = Ok (out, c1)"
    and r: "(feed c1 key as :: (_, 'e) res) = Ok (outs', c')"
    using Cons.prems(2) by (auto simp: a and_then_eq_Ok)
  have "hm_get (partials c1) k = None"
    using insert_frame [OF Cons.prems(1) i Cons.prems(3)] Cons.prems(4) by (simp add: hm_get_gc [OF cache_inv_wf [OF Cons.prems(1)]])
  then show ?case using Cons.IH [OF cache_inv_step(1) [OF Cons.prems(1) i] r Cons.prems(3)] by simp
qed simp

lemma cache_empty_iff: "cache_is_empty c \<longleftrightarrow> (\<forall>k. hm_get (partials c) k = None)"
  unfolding cache_is_empty_def hm_get_map_of by (metis ext map_of_eq_empty_iff)

lemma permuted_fragments:
  assumes "mset order = mset [0..<length frs]"
  shows "mset (map fst (map (\<lambda>(pos, i). (frs ! i, proc, clock pos)) (enumerate 0 order))) = mset frs"
proof -
  have "map fst (map (\<lambda>(pos, i). (frs ! i, proc, clock pos)) (enumerate 0 order)) = map ((!) frs) order"
    by (simp add: comp_def case_prod_beta' flip: map_map [of "(!) frs" snd, unfolded comp_def])
  then have "mset (map fst (map (\<lambda>(pos, i). (frs ! i, proc, clock pos)) (enumerate 0 order))) = image_mset ((!) frs) (mset [0..<length frs])"
    by (simp only: mset_map assms)
  then show ?thesis by (metis map_nth mset_map)
qed

lemma check_reassembly_invariants_ok:
  assumes "\<forall>i < 255. clock i < clock 0 + REASSEMBLY_TIMEOUT_MAX"
  shows "check_reassembly_invariants clock payload body config seed = Ok ()"
proof -
  let ?cfg = "config\<lparr>peer := \<lparr>peer_max_reassembled_size = 0xffff, peer_max_segments = 0xff\<rparr>\<rparr>"
  let ?c = "cache_with_limits oracle_limits" and ?id = "split_identification config" and ?tail = "reassembled_tail payload body"
  let ?key = "\<lparr>key_src = Ipv4Addr 192 0 2 1, key_dst = Ipv4Addr 198 51 100 2, key_src_port = 12345, key_dst_port = 54321,
                 key_identification = split_identification config\<rparr>"
  show ?thesis
  proof (cases "split_datagram payload body ?cfg")
    case (Ok frs)
    obtain r ranges where r: "unat r = 8 + length payload" and sr: "split_ranges ?cfg (length ?tail) ranges"
      and frs: "frs = map (fragment_of ?tail (length ranges = 1) r (split_identification ?cfg)) ranges"
      by (rule split_datagram_Ok [OF Ok])
    have lims: "8 + length ?tail \<le> u16_max" "length frs \<le> 255" "frs \<noteq> []"
      using sr tiles_last by (auto simp: split_ranges_def frs u16_max_def)
    have bodies: "\<forall>fr \<in> set frs. \<exists>data. fr_surplus_body fr = fragment_options_body ?id (fr_frag_offset fr) (fr_rdos fr) @ data"
      by (auto simp: frs fragment_of_def Let_def split: prod.splits)
    obtain order where order: "fragment_order (length frs) seed = Ok order" "mset order = mset [0..<length frs]"
      using fragment_order_perm by blast
    have len: "length order = length frs" and set: "\<forall>i \<in> set order. i < length frs"
      using order(2) mset_eq_length mset_eq_setD by fastforce+
    let ?xs = "map (\<lambda>(pos, i). (frs ! i, oracle_processing, clock pos)) (enumerate 0 order)"
    have perm: "mset (map fst ?xs) = mset frs" using order(2) by (rule permuted_fragments)
    have ne: "order \<noteq> []" using len lims(3) by auto
    then have hd: "snd (snd (hd ?xs)) = clock 0" by (cases order) simp_all
    have pos: "pos < 255" if "(pos, i) \<in> set (enumerate 0 order)" for pos i
      using that lims(2) len by (auto simp: in_set_enumerate_eq)
    have now: "clock pos - clock 0 < REASSEMBLY_TIMEOUT_MAX" if "(pos, i) \<in> set (enumerate 0 order)" for pos i
      using assms pos [OF that] by (auto simp: REASSEMBLY_TIMEOUT_MAX_def less_diff_conv2 not_less)
    then have times: "\<forall>(fr, proc, now) \<in> set ?xs. now - snd (snd (hd ?xs)) < min (lim_timeout (cache_limits ?c)) REASSEMBLY_TIMEOUT_MAX"
      unfolding hd by (auto simp: now cache_with_limits_def oracle_limits_def)
    have c: "cache_inv ?c" "hm_get (partials ?c) k = None" for k
      by (simp_all add: cache_inv_with_limits) (simp add: cache_with_limits_def hm_get_map_of hm_new_def)
    obtain res c' where feed: "(feed ?c ?key (map (\<lambda>(fr, proc, now). fragment_arrival (split_identification ?cfg) fr proc now) ?xs) :: (_, unit) res) =
        Ok (replicate (length frs - 1) Incomplete @ [Complete res], c')"
      and res: "c_tail res = ?tail" "unat (c_udp_length res) = 8 + length payload" "hm_get (partials c') ?key = None"
      using split_feed [OF Ok perm c(1) c(2) _ _ _ times, of ?key] lims
      by (auto simp: cache_with_limits_def oracle_limits_def hm_len_def hm_new_def)
    have "insert_loop clock ?key frs (length order) (enumerate 0 order) ?c None = Ok (Some (Complete res), c')"
      using insert_loop_feed [OF bodies set ne, of "length order" 0 ?c ?key clock "Complete res" c' None] feed
      by (simp add: comp_def case_prod_beta' len)
    moreover have "cache_is_empty c'"
      unfolding cache_empty_iff using feed_frame [OF c(1) feed _ c(2)] res(3) by metis
    ultimately show ?thesis
      using order(1) res by (simp add: check_reassembly_invariants_def Ok expected_tail_eq length_UDP_HEADER_def Let_def)
  qed (simp_all add: check_reassembly_invariants_def split_datagram_no_panic)
qed

section \<open>The derived option bodies\<close>

text \<open>A few valid options with short values, none of them FRAG.\<close>

definition short_options :: "nat \<Rightarrow> options_builder \<Rightarrow> bool" where
  "short_options n b \<longleftrightarrow> length (b_options b) \<le> n
     \<and> list_all (\<lambda>opt. valid_option opt \<and> length (opt_value opt) \<le> 32 \<and> to_byte (opt_kind opt) \<noteq> kind_FRAG) (b_options b)"

lemma length_option_stream_le:
  "length (option_stream p opts) \<le> sum_list (map (\<lambda>opt. length (opt_value opt) + 5) opts)"
  by (induction p opts rule: option_stream.induct) (auto simp: encoded_len_def)

lemma short_options_finish:
  assumes "short_options n b" and "n \<le> 1000"
  shows "\<exists>body. builder_finish b = Ok body \<and> 2 \<le> length body \<and> length body \<le> 4 + n * 37"
proof -
  let ?s = "sort_canonical (b_options b)"
  have all: "\<forall>opt \<in> set ?s. length (opt_value opt) + 5 \<le> 37" using assms(1) by (auto simp: short_options_def list_all_iff)
  have "sum_list (map (\<lambda>opt. length (opt_value opt) + 5) ?s) \<le> length ?s * 37"
    using sum_list_mono [of ?s "\<lambda>opt. length (opt_value opt) + 5" "\<lambda>_. 37"] all by (simp add: sum_list_triv)
  also have "\<dots> \<le> n * 37" using assms(1) by (simp add: short_options_def sort_canonical_def)
  finally have "length (option_stream False ?s) \<le> n * 37" using length_option_stream_le [of False ?s] by linarith
  then have len: "length (canonical_body ?s) \<le> 4 + n * 37" by (simp add: canonical_body_def Let_def)
  have valid: "valid_options (b_options b)"
    using assms(1) by (auto simp: short_options_def valid_options_def frag_count_def list_all_iff)
  have "length (canonical_body (written_options (b_options b))) = length (canonical_body ?s)"
    using valid by (simp add: written_options_def Let_def valid_options_def length_canonical_body_patched)
  moreover have "2 \<le> length (canonical_body ?s)" by (simp add: canonical_body_def Let_def)
  ultimately show ?thesis
    using valid len assms(2) by (auto simp: builder_finish_Ok_iff u16_max_def)
qed

lemma short_options_new: "short_options 0 builder_new"
  by (simp add: short_options_def builder_new_def)

lemma push_if_short:
  assumes "short_options n b" and "c \<Longrightarrow> from \<le> to \<and> to \<le> length data \<and> to - from \<le> 32"
    and "\<And>v. length v = to - from \<Longrightarrow> c \<Longrightarrow> valid_option \<lparr>opt_kind = k, opt_value = v\<rparr>" and "to_byte k \<noteq> kind_FRAG"
  shows "\<exists>b'. push_if c b k data from to = Ok b' \<and> short_options (Suc n) b'"
  using assms by (auto simp: push_if_def short_options_def builder_push_def)

lemma Other_10_valid: "length v \<le> 32 \<Longrightarrow> valid_option \<lparr>opt_kind = Other 10, opt_value = v\<rparr>"
  by (simp add: valid_option_def Let_def is_out_of_scope_assigned_safe_kind_def fixed_value_lens_def EXTENDED_VALUE_LEN_MAX_def
      u16_max_def kind_defs)

lemmas fixed_option_valid = valid_option_def Let_def is_out_of_scope_assigned_safe_kind_def fixed_value_lens_def
  EXTENDED_VALUE_LEN_MAX_def u16_max_def kind_defs length_defs

text \<open>One conditional push in a chain of them: the rest of the chain runs on a short builder.\<close>

lemma push_if_chain:
  assumes "short_options n b" and "c \<Longrightarrow> from \<le> to \<and> to \<le> length data \<and> to - from \<le> 32"
    and "\<And>v. length v = to - from \<Longrightarrow> c \<Longrightarrow> valid_option \<lparr>opt_kind = k, opt_value = v\<rparr>" and "to_byte k \<noteq> kind_FRAG"
    and "\<And>b'. short_options (Suc n) b' \<Longrightarrow> \<exists>body. f b' = Ok body \<and> P body"
  shows "\<exists>body. and_then (push_if c b k data from to) f = Ok body \<and> P body"
  using push_if_short [OF assms(1-4), of c] assms(5) by auto

lemma options_body_from_fuzz_bytes_total:
  "\<exists>body. options_body_from_fuzz_bytes data = Ok body \<and> length body \<le> 200"
proof (cases "data = [] \<or> hd data mod 4 = 0")
  case True
  then show ?thesis by (cases data) (auto simp: options_body_from_fuzz_bytes_def)
next
  case False
  have fin: "\<exists>body. expect_ok (builder_finish b) = Ok body \<and> length body \<le> 200" if "short_options 5 b" for b
    using short_options_finish [OF that] by (auto)
  have "\<exists>body. (let n = length data in
      and_then (push_if (n \<ge> 4) builder_new Req data 0 4) (\<lambda>b.
      and_then (push_if (n \<ge> 8) b Res data 4 8) (\<lambda>b.
      and_then (push_if (n \<ge> 10) b Mds data 8 10) (\<lambda>b.
      and_then (push_if (n \<ge> 13) b Mrds data 10 13) (\<lambda>b.
      and_then (push_if (n > 13) b (Other 10) data 13 (min n 45)) (\<lambda>b.
      expect_ok (builder_finish b))))))) = Ok body \<and> length body \<le> 200"
    unfolding Let_def
    by (rule push_if_chain [OF short_options_new] push_if_chain | assumption
        | (rule fin, simp add: numeral_eq_Suc; fail) | (simp add: fixed_option_valid; fail))+
  then show ?thesis using False by (cases data) (auto simp: options_body_from_fuzz_bytes_def Let_def)
qed

end
