(* ===== verification/Oracle_Assemble.thy ===== *)
theory Oracle_Assemble
  imports Oracle_Frag Raw_Socket
begin

text \<open>
  The assertions the fuzz target and the tests of the datagram assembler share
  (\<open>tests/common_assemble/mod.rs\<close>): the options body derived from fuzz bytes, and the check that an
  assembled datagram parses back field by field. The check never fails on a datagram that fits.
\<close>

unbundle bit_operations_syntax

section \<open>Option bodies from fuzz bytes\<close>

definition body_with :: "bytes \<Rightarrow> bytes" where
  "body_with options = [0, 0] @ options"

definition byte_or_index :: "bytes \<Rightarrow> usize \<Rightarrow> byte" where
  "byte_or_index data index = (if index < length data then data ! index else word_of_nat index)"

definition valid_frag_bytes :: "bytes \<Rightarrow> bytes" where
  "valid_frag_bytes data = [kind_FRAG, 12, 0, 20] @ map (byte_or_index data) [1, 2, 3, 4, 5, 6, 7, 8]"

definition malformed_frag_bytes :: "bytes \<Rightarrow> bytes" where
  "malformed_frag_bytes data = [kind_FRAG, 11, 0, 20] @ map (byte_or_index data) [1, 2, 3, 4, 5, 6, 7]"

definition default_options_body :: "bytes \<Rightarrow> (bytes, unit) res" where
  "default_options_body data =
     (let n = length data in
      and_then (push_if (n \<ge> 4) builder_new Req data 0 4) (\<lambda>b.
      and_then (push_if (n \<ge> 8) b Res data 4 8) (\<lambda>b.
      and_then (push_if (n \<ge> 10) b Mds data 8 10) (\<lambda>b.
      and_then (push_if (n \<ge> 13) b Mrds data 10 13) (\<lambda>b.
      and_then (push_if (n \<ge> 17) b Apc data 13 17) (\<lambda>b.
      and_then (push_if (n > 17) b (Other 10) data 17 (min n 49)) (\<lambda>b.
      expect_ok (builder_finish b))))))))"

definition assemble_options_body :: "bytes \<Rightarrow> (bytes, unit) res" where
  "assemble_options_body data =
     (let byte = byte_or_index data in
      case map_option (\<lambda>b. b mod 8) (if data = [] then None else Some (data ! 0)) of
        None \<Rightarrow> default_options_body data
      | Some selector \<Rightarrow>
          if selector = 1 then Ok (body_with [10, 2, kind_REQ, 6, byte 1, byte 2, byte 3, byte 4])
          else if selector = 2 then Ok (body_with [192, 2, kind_REQ, 6, byte 1, byte 2, byte 3, byte 4])
          else if selector = 3 then Ok (body_with (valid_frag_bytes data))
          else if selector = 4 then Ok (body_with (malformed_frag_bytes data))
          else if selector = 5 then
            Ok (body_with [kind_REQ, 6, byte 1, byte 2, byte 3, byte 4, kind_REQ, 6, byte 5, byte 6, byte 7, byte 8])
          else if selector = 6 then
            and_then (slice data 1 (length data)) (\<lambda>tail.
            Ok (body_with (valid_frag_bytes data @ valid_frag_bytes tail)))
          else if selector = 7 then Ok (body_with [192, 2, kind_APC, 6])
          else default_options_body data)"

section \<open>The assembly check\<close>

definition check_ip_fields :: "bytes \<Rightarrow> ipv4_addr \<Rightarrow> ipv4_addr \<Rightarrow> ip_repr \<Rightarrow> usize \<Rightarrow> check_result" where
  "check_ip_fields datagram src dst ip udp_at =
     assert_that (ip_src ip = src \<and> ip_dst ip = dst \<and> udp_at = header_len ip \<and> unat (total_len ip) = length datagram
       \<and> header_len ip + transport_payload_len ip = length datagram)"

definition check_udp_fields :: "ip_repr \<Rightarrow> u16 \<Rightarrow> u16 \<Rightarrow> bytes \<Rightarrow> udp_header \<Rightarrow> check_result" where
  "check_udp_fields ip sport dport user_data udp =
     assert_that (src_port udp = sport \<and> dst_port udp = dport \<and> unat (udp_length udp) = HEADER_LEN + length user_data
       \<and> unat (udp_length udp) < transport_payload_len ip)"

definition check_surplus_fields :: "bytes \<Rightarrow> usize \<Rightarrow> udp_header \<Rightarrow> bytes \<Rightarrow> surplus_layout \<Rightarrow> check_result" where
  "check_surplus_fields datagram natural_start udp options_body layout =
     and_then (assert_that (starts_at layout = natural_start \<and> needs_pad layout = (natural_start mod 2 = 1)
       \<and> surplus_range layout = (natural_start, length datagram))) (\<lambda>_.
     and_then (if needs_pad layout then and_then (idx datagram (starts_at layout)) (\<lambda>b. assert_that (b = 0)) else Ok ()) (\<lambda>_.
     and_then (slice datagram (ocs_at layout) (length datagram)) (\<lambda>body.
     and_then (assert_that (length body = length options_body)) (\<lambda>_.
     and_then (ocs_compute options_body (word_of_nat (surplus_len layout))) (\<lambda>expected_body.
     and_then (assert_that (body = expected_body)) (\<lambda>_.
     and_then (ocs_validate body (word_of_nat (surplus_len layout)) (udp_checksum udp)) (\<lambda>verdict.
     and_then (assert_that (verdict = Valid)) (\<lambda>_.
     if surplus_len layout < u16_max then
       and_then (ocs_validate body (word_of_nat (surplus_len layout + 1)) (udp_checksum udp)) (\<lambda>verdict.
       assert_that (verdict = OcsError OcsMismatch))
     else Ok ()))))))))"

definition check_datagram_matches ::
  "bytes \<Rightarrow> ipv4_addr \<Rightarrow> ipv4_addr \<Rightarrow> u16 \<Rightarrow> u16 \<Rightarrow> bytes \<Rightarrow> bytes \<Rightarrow> check_result" where
  "check_datagram_matches datagram src dst sport dport user_data options_body =
     and_then (expect_ok (ip_parse datagram)) (\<lambda>(ip, udp_at).
     and_then (check_ip_fields datagram src dst ip udp_at) (\<lambda>_.
     and_then (slice datagram udp_at (length datagram)) (\<lambda>rest.
     and_then (expect_ok (udp_parse rest)) (\<lambda>udp.
     and_then (check_udp_fields ip sport dport user_data udp) (\<lambda>_.
     let user_at = udp_at + HEADER_LEN;
         natural_start = udp_at + unat (udp_length udp) in
     and_then (slice datagram user_at natural_start) (\<lambda>found.
     and_then (assert_that (found = user_data)) (\<lambda>_.
     and_then (slice datagram udp_at natural_start) (\<lambda>segment.
     and_then (assert_that (checksum_finish (add_slice (pseudo_header_sum ip (udp_length udp)) segment) = 0)) (\<lambda>_.
     and_then (compute_checksum (udp\<lparr>udp_checksum := 0\<rparr>) ip user_data) (\<lambda>cs.
     and_then (assert_that (udp_checksum udp = cs)) (\<lambda>_.
     and_then (expect_some (locate_surplus ip udp)) (\<lambda>layout.
     check_surplus_fields datagram natural_start udp options_body layout))))))))))))"

definition check_assembly_invariants ::
  "ipv4_addr \<Rightarrow> ipv4_addr \<Rightarrow> u16 \<Rightarrow> u16 \<Rightarrow> bytes \<Rightarrow> bytes \<Rightarrow> check_result" where
  "check_assembly_invariants src dst sport dport user_data options_body =
     and_then (assemble_datagram src dst sport dport user_data options_body) (\<lambda>datagram.
     check_datagram_matches datagram src dst sport dport user_data options_body)"

definition force_odd_user_data :: "bytes \<Rightarrow> bytes" where
  "force_odd_user_data user_data = (if length user_data mod 2 = 0 then user_data @ [0xa5] else user_data)"

section \<open>The derived bodies exist and are short\<close>

lemma default_options_body_total:
  "\<exists>body. default_options_body data = Ok body \<and> 2 \<le> length body \<and> length body \<le> 230"
proof -
  have fin: "\<exists>body. expect_ok (builder_finish b) = Ok body \<and> 2 \<le> length body \<and> length body \<le> 230" if "short_options 6 b" for b
    using short_options_finish [OF that] by auto
  show ?thesis
    unfolding default_options_body_def Let_def
    by (rule push_if_chain [OF short_options_new] push_if_chain | assumption
        | (rule fin, simp add: numeral_eq_Suc; fail) | (simp add: fixed_option_valid; fail))+
qed

lemma assemble_options_body_total:
  "\<exists>body. assemble_options_body data = Ok body \<and> 2 \<le> length body \<and> length body \<le> 230"
  using default_options_body_total [of data]
  by (cases data) (simp_all add: assemble_options_body_def Let_def body_with_def valid_frag_bytes_def malformed_frag_bytes_def)

section \<open>The assembly check never fails\<close>

text \<open>The length enters the sum like one more word of the options.\<close>

lemma ocs_value_length_word: "ocs_value opts n = ocs_value (u16_to_be_bytes n @ opts) 0"
proof -
  have "checksum_sum (add_u16 (add_slice checksum_new (0 # 0 # opts)) n) =
      checksum_sum (add_u16 (add_slice checksum_new (0 # 0 # u16_to_be_bytes n @ opts)) 0)"
    by (rule word_unat_eq_iff [THEN iffD2])
      (simp add: cs.total_val cs.val_laws cs.inv_laws words_total_append ones_fold_adds unat_u16_from_be_bytes ac_simps)
  then show ?thesis by (simp add: ocs_value_def checksum_finish_def del: add_slice.simps)
qed

lemma ocs_value_length_change:
  fixes n m :: u16
  assumes "n \<noteq> m" and "{n, m} \<noteq> {0, 0xffff}"
  shows "ocs_value opts n \<noteq> ocs_value opts m"
  using ocs_value_word_change [of "[]" n m opts 0] assms by (simp add: ocs_value_length_word [of opts n] ocs_value_length_word [of opts m])

lemma validate_longer:
  assumes "n < u16_max" and "0 < n"
  shows "ocs_validate (u16_to_be_bytes (ocs_value opts (word_of_nat n)) @ opts) (word_of_nat (n + 1)) u = Ok (OcsError OcsMismatch)"
proof -
  define w w' :: u16 where "w = word_of_nat n" and "w' = word_of_nat (n + 1)"
  have u: "unat w = n" "unat w' = n + 1"
    using assms(1) unfolding w_def w'_def by (simp_all only: unat_of_nat_u16)
  then have "unat w \<noteq> unat w'" "unat w \<noteq> 0" "unat w' \<noteq> 0" using assms(2) by simp_all
  then have "w \<noteq> w'" "w \<noteq> 0" "w' \<noteq> 0" by auto
  then have "ocs_value opts w \<noteq> ocs_value opts w'" by (intro ocs_value_length_change) auto
  then show ?thesis
    unfolding w_def [symmetric] w'_def [symmetric]
    by (simp add: u16_to_be_bytes_def ocs_validate_eq u16_from_be_bytes_inverse)
qed

lemma slice_suffix: "slice (xs @ ys) (length xs) (length (xs @ ys)) = Ok ys"
  by simp

lemma check_surplus_fields_ok:
  assumes "2 \<le> length body" and "length xs = 28 + length user_data"
    and d: "datagram = xs @ surplus_of user_data body" and l: "l = \<lparr>starts_at = 28 + length user_data,
      needs_pad = odd (length user_data), surplus_len = of_bool (odd (length user_data)) + length body\<rparr>"
  shows "check_surplus_fields datagram (28 + length user_data) udp body l = Ok ()"
proof -
  obtain a b opts where body: "body = a # b # opts" using assms(1) by (cases body; cases "tl body") auto
  let ?p = "of_bool (odd (length user_data)) :: nat"
  define n where "n = ?p + length body"
  let ?body = "u16_to_be_bytes (ocs_value opts (word_of_nat n)) @ opts"
  have opts: "drop 2 body = opts" "body \<noteq> []" "length ?body = length body" by (simp_all add: body)
  have d: "datagram = (xs @ replicate ?p 0) @ ?body"
    unfolding d surplus_of_def surplus_bytes_def n_def [symmetric] opts(1) by (simp only: opts(2) if_False append_assoc)
  have len: "length datagram = 28 + length user_data + n" using assms(2) opts(3) by (simp add: d n_def)
  have l: "starts_at l = 28 + length user_data" "needs_pad l = odd (length user_data)" "surplus_len l = n"
    "ocs_at l = length (xs @ replicate ?p 0)"
    using assms(2) by (simp_all add: l n_def ocs_at_def)
  have "slice datagram (ocs_at l) (length datagram) = (Ok ?body :: (_, unit) res)"
    unfolding l(4) d by (rule slice_suffix)
  moreover have "ocs_compute body (word_of_nat (surplus_len l)) = (Ok ?body :: (_, unit) res)"
    unfolding l(3) unfolding body by (rule ocs_compute_Ok)
  moreover have "ocs_validate ?body (word_of_nat (surplus_len l)) u = (Ok Valid :: (_, unit) res)" for u
    unfolding l(3) by (rule ocs_validate_computed)
  moreover have "ocs_validate ?body (word_of_nat (surplus_len l + 1)) u = (Ok (OcsError OcsMismatch) :: (_, unit) res)"
    if "surplus_len l < u16_max" for u
    using that assms(1) unfolding l(3) by (intro validate_longer) (auto simp: n_def)
  moreover have "(if needs_pad l then and_then (idx datagram (starts_at l)) (\<lambda>b. assert_that (b = 0)) else Ok ()) = (Ok () :: (_, unit) res)"
    using assms(2) unfolding l(1,2) d by (simp add: nth_append)
  moreover have "starts_at l = 28 + length user_data \<and> needs_pad l = ((28 + length user_data) mod 2 = 1)
      \<and> surplus_range l = (28 + length user_data, length datagram)"
    unfolding surplus_range_def len l by (simp add: mod_2_odd)
  ultimately show ?thesis
    unfolding check_surplus_fields_def
    by (simp only: and_then.simps assert_that_simps opts(3) simp_thms) simp
qed

lemma verify_sum_joined:
  "checksum_sum (add_slice (pseudo_header_sum ip n) (udp_header_bytes udp @ data)) =
   checksum_sum (add_slice (add_slice (pseudo_header_sum ip n) (udp_header_bytes udp)) data)"
  by (rule word_unat_eq_iff [THEN iffD2])
    (simp add: cs.total_val cs.val_laws cs.inv_laws words_total_append ones_fold_adds ac_simps)

lemma check_datagram_written_ok:
  assumes ok: "wire_ok ip udp user_data (surplus_of user_data body)" and b: "2 \<le> length body"
    and c: "udp_checksum udp \<noteq> 0"
  shows "check_datagram_matches (wire_datagram ip udp user_data (surplus_of user_data body))
    (ip_src ip) (ip_dst ip) (src_port udp) (dst_port udp) user_data body = Ok ()"
proof -
  let ?s = "surplus_of user_data body" and ?n = "of_bool (odd (length user_data)) + length body"
  let ?xs = "ip_header_bytes ip @ udp_header_bytes udp @ user_data"
  define d where "d = wire_datagram ip udp user_data ?s"
  define l where "l = \<lparr>starts_at = 28 + length user_data, needs_pad = odd (length user_data), surplus_len = ?n\<rparr>"
  have d: "d = ?xs @ ?s" by (simp add: d_def wire_datagram_def)
  have s: "length ?s = ?n" using b by (subst length_surplus_of) auto
  have w: "unat (total_len ip) = 28 + length user_data + ?n" "unat (udp_length udp) = 8 + length user_data"
    "header_len ip = 20" "ihl ip = 5"
    using ok header_len_20 [of ip] unfolding wire_ok_def s by blast+
  have len: "length d = 28 + length user_data + ?n" using s by (simp add: d)
  have tpl: "transport_payload_len ip = 8 + length user_data + ?n" using w by (simp add: transport_payload_len_def)
  have ip: "ip_parse d = Ok (ip, 20)"
    unfolding d append_assoc by (rule ip_parse_written) (simp_all add: w s)
  have udp: "udp_parse (udp_header_bytes udp @ user_data @ ?s) = Ok udp" by (rule udp_parse_written) (use w(2) in linarith)
  have cs: "compute_checksum udp ip user_data = (Ok (udp_checksum udp) :: (_, unit) res)"
    using ok c by (auto simp: wire_ok_def compute_checksum_eq split: if_splits)
  have "checksum_sum (udp_verify_sum udp ip user_data) = 0xffff" using stored_checksum_verifies [OF cs] by simp
  then have fin: "checksum_finish (add_slice (pseudo_header_sum ip (udp_length udp)) (udp_header_bytes udp @ user_data)) = 0"
    by (simp only: udp_verify_sum_def checksum_finish_def verify_sum_joined) simp
  have loc: "locate_surplus ip udp = Some l"
    using b unfolding locate_surplus_written [OF ok] s l_def by simp
  have slices: "slice d 20 (length d) = (Ok (udp_header_bytes udp @ user_data @ ?s) :: (_, unit) res)"
    "slice d (20 + HEADER_LEN) (28 + length user_data) = (Ok user_data :: (_, unit) res)"
    "slice d 20 (28 + length user_data) = (Ok (udp_header_bytes udp @ user_data) :: (_, unit) res)"
    unfolding d by simp_all
  have checks: "check_ip_fields d (ip_src ip) (ip_dst ip) ip 20 = Ok ()"
    "check_udp_fields ip (src_port udp) (dst_port udp) user_data udp = Ok ()"
    "check_surplus_fields d (28 + length user_data) udp body l = Ok ()"
    using w tpl len b check_surplus_fields_ok [OF b _ d l_def]
    by (auto simp: check_ip_fields_def check_udp_fields_def)
  have at: "20 + unat (udp_length udp) = 28 + length user_data" using w by simp
  show ?thesis
    unfolding d_def [symmetric] check_datagram_matches_def Let_def
    by (simp only: ip expect_ok.simps and_then.simps prod.case checks slices udp at fin cs loc expect_some_simps
        compute_checksum_ignores_stored assert_that_simps refl)
qed

lemma check_assembly_invariants_ok:
  assumes "2 \<le> length body" and "assembled_len user_data body \<le> u16_max"
  shows "check_assembly_invariants src dst sport dport user_data body = Ok ()"
proof -
  let ?ip = "assembled_ip src dst user_data body"
  have b: "body = [] \<or> 2 \<le> length body" using assms(1) by simp
  have n: "8 + length user_data \<le> u16_max" using assms by (auto simp: assembled_len_def)
  have "wire_ok ?ip (assembled_udp ?ip sport dport user_data) user_data (surplus_of user_data body)"
    using assembled_wire_ok [OF b assms(2)] by (simp add: Let_def)
  from check_datagram_written_ok [OF this assms(1) assembled_udp_checksum(2) [OF n]]
  show ?thesis
    by (simp add: check_assembly_invariants_def assemble_datagram_eq [OF b assms(2)] assembled_def Let_def)
qed

end
