(* ===== verification/Oracle_Pipeline.thy ===== *)
theory Oracle_Pipeline
  imports Oracle_Wire Pipeline
begin

text \<open>
  The assertions the fuzz target and the tests of the receive pipeline share
  (\<open>tests/common_pipeline/mod.rs\<close>): a second, simpler classification of a datagram from its bytes, and
  the check that the pipeline's verdict on an empty cache is the one it predicts. The two agree on every input.
  The oracle's own copies of \<open>option_end_offset\<close> and \<open>minimum_known_tlv_len\<close> are the functions of the pipeline.
\<close>

section \<open>The predicted disposition\<close>

datatype expected_disposition =
  DeliverWithoutOptions | ZeroPayload | ExpectBuffered | ExpectDropped | ReassembledComplete | GoOn

datatype oracle_option_limit = FullLimit | EndLimit usize | MalformedLimit

definition is_sub_minimum_known_option :: "option_ref \<Rightarrow> bool" where
  "is_sub_minimum_known_option opt =
     (case minimum_known_tlv_len (ref_kind opt) of
        None \<Rightarrow> False
      | Some min_len \<Rightarrow> length (ref_value opt) + PIPELINE_TLV_HEADER_LEN < min_len)"

definition limit_step :: "bytes \<Rightarrow> usize \<Rightarrow> option_ref \<Rightarrow> (oracle_option_limit option, unit) res" where
  "limit_step options_bytes offset opt =
     (case ref_kind opt of
        Frag \<Rightarrow>
          let_ok (frag_decode (ref_value opt)) (Ok (Some FullLimit)) (\<lambda>f.
          case checked_sub (unat (frag_start f)) offset of
            None \<Rightarrow> Ok (Some MalformedLimit)
          | Some e \<Rightarrow>
              and_then (option_end_offset opt) (\<lambda>opt_end.
              Ok (Some (if e > length options_bytes \<or> e < opt_end then MalformedLimit else EndLimit e))))
      | Other b \<Rightarrow> Ok (if is_unsafe (ref_kind opt) then Some FullLimit else None)
      | Eol \<Rightarrow> Ok (Some FullLimit)
      | _ \<Rightarrow> Ok None)"

function oracle_limit_loop :: "bytes \<Rightarrow> usize \<Rightarrow> options_iter \<Rightarrow> (oracle_option_limit, unit) res" where
  "oracle_limit_loop options_bytes offset it =
     and_then (options_next it) (\<lambda>(x, it').
       case x of
         None \<Rightarrow> Ok FullLimit
       | Some (Inl e) \<Rightarrow> Ok FullLimit
       | Some (Inr opt) \<Rightarrow>
           and_then (limit_step options_bytes offset opt) (\<lambda>r.
           case r of Some l \<Rightarrow> Ok l | None \<Rightarrow> oracle_limit_loop options_bytes offset it'))"
  by pat_completeness auto
termination
  by (relation "measure (\<lambda>(_, _, it). length (iter_rest it))") (auto simp: options_next_decreases)

declare oracle_limit_loop.simps [simp del]

definition oracle_fragment_option_limit :: "bytes \<Rightarrow> bool \<Rightarrow> usize \<Rightarrow> (oracle_option_limit, unit) res" where
  "oracle_fragment_option_limit options_bytes user_data_empty offset =
     (if \<not> user_data_empty then Ok FullLimit
      else oracle_limit_loop options_bytes offset (options_iter_new options_bytes))"

text \<open>One option of the classification: an early return, or the seen kinds and the FRAG so far.\<close>

definition rejected :: "frag option \<Rightarrow> bool \<Rightarrow> expected_disposition" where
  "rejected valid_frag_seen user_data_empty =
     (if valid_frag_seen \<noteq> None \<and> user_data_empty then ExpectDropped else DeliverWithoutOptions)"

definition classify_option ::
  "bool \<Rightarrow> bool \<Rightarrow> (byte \<Rightarrow> bool) \<Rightarrow> frag option \<Rightarrow> option_ref
     \<Rightarrow> (expected_disposition + (byte \<Rightarrow> bool) \<times> frag option, unit) res" where
  "classify_option ctx user_data_empty seen vf opt =
     (let raw_kind = to_byte (ref_kind opt) in
      case ref_kind opt of
        Eol \<Rightarrow> Ok (Inr (seen, vf))
      | Nop \<Rightarrow> Ok (Inr (seen, vf))
      | Frag \<Rightarrow>
          if is_sub_minimum_known_option opt then Ok (Inl (rejected vf user_data_empty))
          else if seen raw_kind then Ok (Inl (rejected vf user_data_empty))
          else
            let seen = seen(raw_kind := True) in
            let_ok (frag_decode (ref_value opt)) (Ok (Inl ZeroPayload)) (\<lambda>f. Ok (Inr (seen, Some f)))
      | Other b \<Rightarrow>
          if is_safe (ref_kind opt) then
            Ok (if is_sub_minimum_known_option opt then Inl (rejected vf user_data_empty) else Inr (seen, vf))
          else
            Ok (Inl (if vf \<noteq> None then (if user_data_empty then ExpectDropped else DeliverWithoutOptions)
                     else ZeroPayload))
      | _ \<Rightarrow>
          if ref_kind opt = Apc \<and> ctx then Ok (Inr (seen, vf))
          else if is_sub_minimum_known_option opt then Ok (Inl (rejected vf user_data_empty))
          else Ok (Inr (seen(raw_kind := True), vf)))"

function classify_loop ::
  "bool \<Rightarrow> bool \<Rightarrow> options_iter \<Rightarrow> (byte \<Rightarrow> bool) \<Rightarrow> frag option
     \<Rightarrow> (expected_disposition + frag option, unit) res" where
  "classify_loop ctx user_data_empty it seen vf =
     and_then (options_next it) (\<lambda>(x, it').
       case x of
         None \<Rightarrow> Ok (Inr vf)
       | Some (Inl e) \<Rightarrow> Ok (Inl (rejected vf user_data_empty))
       | Some (Inr opt) \<Rightarrow>
           and_then (classify_option ctx user_data_empty seen vf opt) (\<lambda>r.
           case r of
             Inl d \<Rightarrow> Ok (Inl d)
           | Inr (seen, vf) \<Rightarrow> classify_loop ctx user_data_empty it' seen vf))"
  by pat_completeness auto
termination
  by (relation "measure (\<lambda>(_, _, it, _, _). length (iter_rest it))") (auto simp: options_next_decreases)

declare classify_loop.simps [simp del]

definition classify_reassembly_fragment ::
  "ip_repr \<Rightarrow> udp_header \<Rightarrow> frag \<Rightarrow> bytes \<Rightarrow> instant \<Rightarrow> (expected_disposition, unit) res" where
  "classify_reassembly_fragment ip udp f fragment_data now =
     and_then (cache_insert cache_new (frag_key_of ip udp f) f fragment_data now) (\<lambda>(outcome, _).
     Ok (case outcome of
           Incomplete \<Rightarrow> ExpectBuffered
         | Abort _ \<Rightarrow> ExpectDropped
         | Complete _ \<Rightarrow> ReassembledComplete))"

definition classify_trusted_options ::
  "ip_repr \<Rightarrow> udp_header \<Rightarrow> bytes \<Rightarrow> bool \<Rightarrow> usize \<Rightarrow> instant \<Rightarrow> (expected_disposition, unit) res" where
  "classify_trusted_options ip udp options_bytes user_data_empty offset now =
     and_then (oracle_fragment_option_limit options_bytes user_data_empty offset) (\<lambda>limit.
     let go = (\<lambda>ctx opts fragment_data.
       and_then (classify_loop ctx user_data_empty (options_iter_new opts) (\<lambda>_. False) None) (\<lambda>r.
       case r of
         Inl d \<Rightarrow> Ok d
       | Inr None \<Rightarrow> Ok GoOn
       | Inr (Some f) \<Rightarrow>
           if user_data_empty then classify_reassembly_fragment ip udp f fragment_data now
           else Ok DeliverWithoutOptions)) in
     case limit of
       FullLimit \<Rightarrow> go False options_bytes []
     | EndLimit e \<Rightarrow>
         and_then (slice options_bytes 0 e) (\<lambda>opts.
         and_then (slice options_bytes e (length options_bytes)) (\<lambda>fragment_data.
         go True opts fragment_data))
     | MalformedLimit \<Rightarrow> Ok ExpectDropped)"

definition expected_options_disposition ::
  "bytes \<Rightarrow> ip_repr \<Rightarrow> udp_header \<Rightarrow> bytes \<Rightarrow> instant \<Rightarrow> (expected_disposition option, unit) res" where
  "expected_options_disposition datagram ip udp user_data now =
     (case locate_surplus ip udp of
        None \<Rightarrow> Ok None
      | Some layout \<Rightarrow>
          and_then (idx datagram (starts_at layout)) (\<lambda>pad.
          let_ok (check_pad pad (needs_pad layout)) (Ok (Some DeliverWithoutOptions)) (\<lambda>_.
          let ip_end = header_len ip + transport_payload_len ip in
          and_then (slice datagram (ocs_at layout) ip_end) (\<lambda>body.
          and_then (ocs_validate body (word_of_nat (surplus_len layout)) (udp_checksum udp)) (\<lambda>check.
          if check = Valid \<or> check = Unused then
            and_then (slice body (unat length_OCS) (length body)) (\<lambda>opts.
            and_then (expect_some (checked_sub (ocs_at layout + unat length_OCS) (header_len ip))) (\<lambda>offset.
            and_then (classify_trusted_options ip udp opts (user_data = []) offset now) (\<lambda>d. Ok (Some d))))
          else Ok (Some DeliverWithoutOptions))))))"

section \<open>The check\<close>

definition check_delivered_option :: "(bytes \<Rightarrow> u32) \<Rightarrow> bytes \<Rightarrow> raw_option \<Rightarrow> check_result" where
  "check_delivered_option crc user_data opt =
     (case opt_kind opt of
        Apc \<Rightarrow> and_then (expect_ok (apc_decode (opt_value opt))) (\<lambda>apc. assert_that (apc = apc_compute crc user_data))
      | Mds \<Rightarrow> and_then (expect_ok (mds_decode (opt_value opt))) (\<lambda>_. Ok ())
      | Mrds \<Rightarrow> and_then (expect_ok (mrds_decode (opt_value opt))) (\<lambda>_. Ok ())
      | Req \<Rightarrow> and_then (expect_ok (req_decode (opt_value opt))) (\<lambda>_. Ok ())
      | Res \<Rightarrow> and_then (expect_ok (res_decode (opt_value opt))) (\<lambda>_. Ok ())
      | _ \<Rightarrow> Panic)"

fun check_delivered_options :: "(bytes \<Rightarrow> u32) \<Rightarrow> bytes \<Rightarrow> raw_option list \<Rightarrow> check_result" where
  "check_delivered_options crc user_data [] = Ok ()"
| "check_delivered_options crc user_data (opt # opts) =
     and_then (check_delivered_option crc user_data opt) (\<lambda>_. check_delivered_options crc user_data opts)"

definition check_payload :: "(bytes \<Rightarrow> u32) \<Rightarrow> bytes \<Rightarrow> delivery \<Rightarrow> check_result" where
  "check_payload crc user_data delivery =
     (case delivery of
        Payload p \<Rightarrow>
          and_then (assert_that (pl_data p = user_data
            \<and> list_all (\<lambda>r. rep_kind r \<noteq> Frag \<and> rep_kind r \<noteq> Nop \<and> rep_kind r \<noteq> Eol) (pl_reports p)
            \<and> length (pl_ocs_reports p) = 1)) (\<lambda>_.
          check_delivered_options crc user_data (pl_options p))
      | Buffered \<Rightarrow> Ok ()
      | Dropped \<Rightarrow> Panic)"

definition check_disposition ::
  "(bytes \<Rightarrow> u32) \<Rightarrow> bytes \<Rightarrow> delivery \<Rightarrow> expected_disposition option \<Rightarrow> check_result" where
  "check_disposition crc user_data delivery expected =
     (case expected of
        Some DeliverWithoutOptions \<Rightarrow>
          (case delivery of
             Payload p \<Rightarrow>
               assert_that (pl_data p = user_data \<and> pl_options p = [] \<and> pl_option_bearing p \<and> pl_reports p = []
                 \<and> length (pl_ocs_reports p) = 1)
           | _ \<Rightarrow> Panic)
      | Some ZeroPayload \<Rightarrow>
          (case delivery of
             Payload p \<Rightarrow> assert_that (pl_data p = [] \<and> pl_options p = [] \<and> pl_option_bearing p)
           | _ \<Rightarrow> Panic)
      | Some ExpectBuffered \<Rightarrow> assert_that (delivery = Buffered)
      | Some ExpectDropped \<Rightarrow> assert_that (delivery = Dropped)
      | Some ReassembledComplete \<Rightarrow> assert_that (delivery \<noteq> Buffered)
      | _ \<Rightarrow> check_payload crc user_data delivery)"

definition is_err :: "('a, 'e) res \<Rightarrow> bool" where
  "is_err r = (case r of Err _ \<Rightarrow> True | _ \<Rightarrow> False)"

definition check_pipeline_invariants :: "(bytes \<Rightarrow> u32) \<Rightarrow> instant \<Rightarrow> bytes \<Rightarrow> check_result" where
  "check_pipeline_invariants crc now buf =
     (let result = fst (process_datagram crc buf cache_new now) in
      if result = Panic then Panic else
      let_ok (ip_parse buf) (assert_that (is_err result)) (\<lambda>(ip, udp_at).
      let ip_end = header_len ip + transport_payload_len ip in
      and_then (slice buf 0 ip_end) (\<lambda>datagram.
      and_then (slice datagram udp_at (length datagram)) (\<lambda>rest.
      let_ok (udp_parse rest) (assert_that (is_err result)) (\<lambda>udp.
      if unat (udp_length udp) > transport_payload_len ip then assert_that (is_err result)
      else
        and_then (slice datagram (udp_at + HEADER_LEN) (udp_at + unat (udp_length udp))) (\<lambda>user_data.
        and_then
          (if udp_checksum udp \<noteq> 0 then
             and_then (compute_checksum (udp\<lparr>udp_checksum := 0\<rparr>) ip user_data) (\<lambda>expected.
             Ok (expected \<noteq> udp_checksum udp))
           else Ok False) (\<lambda>mismatch.
        if mismatch then assert_that (is_err result)
        else
          and_then (expect_ok result) (\<lambda>delivery.
          and_then (expected_options_disposition datagram ip udp user_data now) (\<lambda>expected.
          check_disposition crc user_data delivery expected)))))))))"

section \<open>The loops over the reference items\<close>

fun oracle_limit_items :: "bytes \<Rightarrow> usize \<Rightarrow> item list \<Rightarrow> (oracle_option_limit, unit) res" where
  "oracle_limit_items bs offset [] = Ok FullLimit"
| "oracle_limit_items bs offset (Inl e # xs) = Ok FullLimit"
| "oracle_limit_items bs offset (Inr opt # xs) =
     and_then (limit_step bs offset opt) (\<lambda>r. case r of Some l \<Rightarrow> Ok l | None \<Rightarrow> oracle_limit_items bs offset xs)"

fun classify_items ::
  "bool \<Rightarrow> bool \<Rightarrow> (byte \<Rightarrow> bool) \<Rightarrow> frag option \<Rightarrow> item list \<Rightarrow> (expected_disposition + frag option, unit) res" where
  "classify_items ctx ue seen vf [] = Ok (Inr vf)"
| "classify_items ctx ue seen vf (Inl e # xs) = Ok (Inl (rejected vf ue))"
| "classify_items ctx ue seen vf (Inr opt # xs) =
     and_then (classify_option ctx ue seen vf opt) (\<lambda>r.
       case r of Inl d \<Rightarrow> Ok (Inl d) | Inr (seen, vf) \<Rightarrow> classify_items ctx ue seen vf xs)"

lemma options_next_induct:
  assumes "\<And>it. iter_rest it = [] \<Longrightarrow> P it"
    and "\<And>it x it'. (options_next it :: (_, 'e) res) = Ok (Some x, it') \<Longrightarrow>
      parse_spec (it_pos it) (iter_rest it) = x # parse_spec (it_pos it') (iter_rest it') \<Longrightarrow> P it' \<Longrightarrow> P it"
  shows "P it"
proof (induction "length (iter_rest it)" arbitrary: it rule: less_induct)
  case less
  show ?case
  proof (cases "iter_rest it = []")
    case False
    obtain x n cont where f: "first_option (it_pos it) (iter_rest it) = (x, n, cont)" by (metis prod_cases3)
    let ?it = "iter_after it x n cont"
    have step: "(options_next it :: (_, 'e) res) = Ok (Some x, ?it)" using False f by (simp add: options_next_step)
    show ?thesis
      using assms(2) [OF step options_next_items(2) [OF f False]] less options_next_decreases [OF step] by simp
  qed (rule assms(1))
qed

lemma oracle_limit_loop_items:
  "oracle_limit_loop bs offset it = oracle_limit_items bs offset (parse_spec (it_pos it) (iter_rest it))"
proof (induction it rule: options_next_induct [where 'e = unit])
  case (1 it)
  then show ?case by (simp add: oracle_limit_loop.simps [of _ _ it] options_next_end)
next
  case (2 it x it')
  then show ?case by (cases x) (simp_all add: oracle_limit_loop.simps [of _ _ it] cong: option.case_cong)
qed

lemma classify_loop_items:
  "classify_loop ctx ue it seen vf = classify_items ctx ue seen vf (parse_spec (it_pos it) (iter_rest it))"
proof (induction it arbitrary: seen vf rule: options_next_induct [where 'e = unit])
  case (1 it)
  then show ?case by (simp add: classify_loop.simps [of _ _ it] options_next_end)
next
  case (2 it x it')
  show ?case
  proof (cases x)
    case (Inr opt)
    then show ?thesis
      using 2 by (cases "classify_option ctx ue seen vf opt") (auto simp: classify_loop.simps [of _ _ it] split: sum.split)
  qed (use 2 in \<open>simp add: classify_loop.simps [of _ _ it]\<close>)
qed

section \<open>The limit of per-fragment options\<close>

fun limit_agrees :: "(option_limit, parse_error) res \<Rightarrow> (oracle_option_limit, unit) res \<Rightarrow> bool" where
  "limit_agrees (Ok Full) (Ok FullLimit) = True"
| "limit_agrees (Ok (EndAt e)) (Ok (EndLimit e')) = (e = e')"
| "limit_agrees (Ok (MalformedFrag f)) (Ok MalformedLimit) = True"
| "limit_agrees Panic Panic = True"
| "limit_agrees _ _ = False"

lemma limit_items_agree: "limit_agrees (limit_items bs offset xs) (oracle_limit_items bs offset xs)"
proof (induction bs offset xs rule: limit_items.induct)
  case (3 bs offset opt xs)
  show ?case
  proof (cases "ref_kind opt = Frag")
    case True
    then show ?thesis
      by (cases "frag_decode (ref_value opt)"; cases "ref_at opt")
        (auto simp: limit_step_def checked_sub_def option_end_offset_def Let_def)
  next
    case False
    then show ?thesis using 3 by (cases "ref_kind opt") (auto simp: limit_step_def)
  qed
qed simp_all

section \<open>The classification predicts the parsed options\<close>

definition sound_option :: "(bytes \<Rightarrow> u32) \<Rightarrow> bytes \<Rightarrow> raw_option \<Rightarrow> bool" where
  "sound_option crc user_data opt \<longleftrightarrow> check_delivered_option crc user_data opt = Ok ()"

definition sound_state :: "(bytes \<Rightarrow> u32) \<Rightarrow> bytes \<Rightarrow> parse_state \<Rightarrow> bool" where
  "sound_state crc user_data st \<longleftrightarrow> \<not> ps_unsafe st
     \<and> list_all (\<lambda>r. rep_kind r \<noteq> Frag \<and> rep_kind r \<noteq> Nop \<and> rep_kind r \<noteq> Eol) (ps_reports st)
     \<and> list_all (sound_option crc user_data) (ps_options st)
     \<and> (ps_frag st \<noteq> None \<longrightarrow> ps_seen st kind_FRAG)"

text \<open>What a prediction says of the pipeline's parse.\<close>

fun predicts ::
  "(bytes \<Rightarrow> u32) \<Rightarrow> bytes \<Rightarrow> expected_disposition + frag option \<Rightarrow> (parsed_options, parse_error) res \<Rightarrow> bool" where
  "predicts crc user_data (Inl DeliverWithoutOptions) r \<longleftrightarrow>
     (\<exists>e. r = Err e) \<or> (\<exists>po. r = Ok po \<and> user_data \<noteq> [] \<and> po_frag po \<noteq> None)"
| "predicts crc user_data (Inl ExpectDropped) r \<longleftrightarrow>
     user_data = [] \<and> (\<exists>po. r = Ok po \<and> po_frag po \<noteq> None \<and> (po_fragment_failed po \<or> po_unsupported_unsafe_seen po))"
| "predicts crc user_data (Inl ZeroPayload) r \<longleftrightarrow>
     (\<exists>po. r = Ok po \<and> po_frag po = None \<and> \<not> po_fragment_failed po \<and> po_unsupported_unsafe_seen po)"
| "predicts crc user_data (Inl _) r \<longleftrightarrow> False"
| "predicts crc user_data (Inr vf) r \<longleftrightarrow>
     (\<exists>st. r = Ok (parse_end st) \<and> sound_state crc user_data st \<and> ps_frag st = vf)"

lemma sub_minimum_reject:
  "is_sub_minimum_known_option opt \<longleftrightarrow> (\<exists>e. reject_sub_minimum opt = Err e)"
  "\<not> is_sub_minimum_known_option opt \<longleftrightarrow> reject_sub_minimum opt = Ok ()"
  by (auto simp: is_sub_minimum_known_option_def reject_sub_minimum_def Let_def split: option.split)

lemma named_kinds_minimum: "minimum_known_tlv_len Eol = None" "minimum_known_tlv_len Nop = None"
  "is_unsafe (Other b) \<Longrightarrow> minimum_known_tlv_len (Other b) = None"
  by (auto simp: minimum_known_tlv_len_def fixed_tlv_lengths_def is_unsafe_iff kind_defs fixed_length_tables Let_def)

definition step_agrees ::
  "(bytes \<Rightarrow> u32) \<Rightarrow> bytes \<Rightarrow> (expected_disposition + (byte \<Rightarrow> bool) \<times> frag option) \<Rightarrow> step \<Rightarrow> bool" where
  "step_agrees crc user_data c s \<longleftrightarrow>
     (case c of
        Inl d \<Rightarrow> predicts crc user_data (Inl d) (case s of Break st \<Rightarrow> Ok (parse_end st) | Return r \<Rightarrow> r | Continue st \<Rightarrow> Panic)
      | Inr (seen, vf) \<Rightarrow>
          (\<exists>st. s = Continue st \<and> sound_state crc user_data st \<and> ps_frag st = vf \<and> ps_seen st kind_FRAG = seen kind_FRAG))"

lemma checked_option_agrees:
  assumes "sound_state crc user_data st" and "ps_seen st kind_FRAG = seen kind_FRAG" 
    and "ref_kind opt \<in> {Mds, Mrds, Req, Res}" and "decoded \<noteq> Panic"
    and "\<And>t. decoded = Ok t \<Longrightarrow> sound_option crc user_data (raw_from_ref opt)"
  shows "step_agrees crc user_data (Inr (seen(to_byte (ref_kind opt) := True), ps_frag st)) (checked_option st opt decoded)"
  using assms
  by (cases decoded) (auto simp: step_agrees_def checked_option_def mark_seen_once_def sound_state_def report_def kind_defs)

lemma apc_option_agrees:
  assumes "sound_state crc user_data st" and "ps_seen st kind_FRAG = seen kind_FRAG" and "ref_kind opt = Apc"
  shows "step_agrees crc user_data (Inr (if ctx then seen else seen(to_byte (ref_kind opt) := True), ps_frag st))
    (apc_option crc ctx user_data st opt)"
proof -
  have "sound_option crc user_data (raw_from_ref opt)" if "accepts_apc crc opt user_data = Ok Success"
    using that assms(3)
    by (auto simp: accepts_apc_def sound_option_def check_delivered_option_def raw_from_ref_def split: res.splits if_splits)
  then show ?thesis
    using assms accepts_apc_total [of crc opt user_data]
    by (auto simp: step_agrees_def apc_option_def mark_seen_once_def sound_state_def report_def kind_defs
        split: option_status.split)
qed

lemma frag_option_agrees:
  assumes "sound_state crc user_data st" and "ps_seen st kind_FRAG = seen kind_FRAG" and "ref_kind opt = Frag"
    and "\<not> is_sub_minimum_known_option opt"
  shows "\<exists>c. classify_option ctx (user_data = []) seen (ps_frag st) opt = Ok c
    \<and> step_agrees crc user_data c (frag_option user_data st opt)"
  using assms frag_opt.decode_no_panic [of "ref_value opt"]
  by (cases "frag_decode (ref_value opt)")
    (auto simp: step_agrees_def frag_option_def sound_state_def classify_option_def rejected_def fragment_failure_def
      parse_end_def Let_def)

lemma classify_sub_minimum:
  assumes "is_sub_minimum_known_option opt" and "\<not> (ctx \<and> ref_kind opt = Apc)"
  shows "classify_option ctx ue seen vf opt = Ok (Inl (rejected vf ue))"
proof -
  have "ref_kind opt \<noteq> Eol" "ref_kind opt \<noteq> Nop" "is_safe (ref_kind opt) \<or> (\<forall>b. ref_kind opt \<noteq> Other b)"
    using assms(1) named_kinds_minimum by (auto simp: is_sub_minimum_known_option_def is_unsafe_def)
  then show ?thesis using assms by (cases "ref_kind opt") (auto simp: classify_option_def Let_def)
qed

lemma decoded_sound:
  "ref_kind opt = Mds \<Longrightarrow> mds_decode (ref_value opt) = Ok a \<Longrightarrow> sound_option crc user_data (raw_from_ref opt)"
  "ref_kind opt = Mrds \<Longrightarrow> mrds_decode (ref_value opt) = Ok b \<Longrightarrow> sound_option crc user_data (raw_from_ref opt)"
  "ref_kind opt = Req \<Longrightarrow> req_decode (ref_value opt) = Ok c \<Longrightarrow> sound_option crc user_data (raw_from_ref opt)"
  "ref_kind opt = Res \<Longrightarrow> res_decode (ref_value opt) = Ok d \<Longrightarrow> sound_option crc user_data (raw_from_ref opt)"
  by (simp_all add: sound_option_def check_delivered_option_def raw_from_ref_def)

lemma classify_checked_agrees:
  assumes "sound_state crc user_data st" and "ps_seen st kind_FRAG = seen kind_FRAG"
    and "ref_kind opt \<in> {Mds, Mrds, Req, Res}" and "decoded \<noteq> Panic" and "\<not> is_sub_minimum_known_option opt"
    and "\<And>t. decoded = Ok t \<Longrightarrow> sound_option crc user_data (raw_from_ref opt)"
    and step: "parse_step crc ctx user_data st (Inr opt) = checked_option st opt decoded"
  shows "\<exists>c. classify_option ctx (user_data = []) seen (ps_frag st) opt = Ok c
    \<and> step_agrees crc user_data c (parse_step crc ctx user_data st (Inr opt))"
proof -
  have "step_agrees crc user_data (Inr (seen(to_byte (ref_kind opt) := True), ps_frag st)) (checked_option st opt decoded)"
    using assms by (intro checked_option_agrees)
  moreover have "classify_option ctx (user_data = []) seen (ps_frag st) opt = Ok (Inr (seen(to_byte (ref_kind opt) := True), ps_frag st))"
    using assms(3,5) by (auto simp: classify_option_def Let_def)
  ultimately show ?thesis using step by simp
qed

lemma classify_option_agrees:
  assumes "sound_state crc user_data st" and "ps_seen st kind_FRAG = seen kind_FRAG"
  shows "\<exists>c. classify_option ctx (user_data = []) seen (ps_frag st) opt = Ok c
    \<and> step_agrees crc user_data c (parse_step crc ctx user_data st (Inr opt))"
proof (cases "is_sub_minimum_known_option opt \<and> \<not> (ctx \<and> ref_kind opt = Apc)")
  case True
  then obtain e where "reject_sub_minimum opt = Err e" using sub_minimum_reject(1) by blast
  then show ?thesis
    using True classify_sub_minimum
    by (auto simp: parse_step_def step_agrees_def rejected_def fragment_failure_def)
next
  case False
  then have ok: "(if ctx \<and> ref_kind opt = Apc then Ok () else reject_sub_minimum opt) = Ok ()"
    using sub_minimum_reject(2) by auto
  show ?thesis
  proof (cases "ref_kind opt")
    case Frag
    then show ?thesis using frag_option_agrees [where seen = seen, OF assms Frag] False ok by (simp add: parse_step_def)
  next
    case Apc
    then show ?thesis
      using apc_option_agrees [where seen = seen and ctx = ctx, OF assms Apc] False ok by (auto simp: parse_step_def classify_option_def Let_def)
  next
    case (Other b)
    then show ?thesis
      using assms False ok
      by (auto simp: parse_step_def classify_option_def step_agrees_def sound_state_def report_def parse_end_def Let_def)
  next
    case Mds
    then show ?thesis
      using False ok mds_opt.decode_no_panic decoded_sound(1) [OF Mds]
      by (intro classify_checked_agrees [where seen = seen, OF assms, of _ "mds_decode (ref_value opt)"]) (auto simp: parse_step_def)
  next
    case Mrds
    then show ?thesis
      using False ok mrds_opt.decode_no_panic decoded_sound(2) [OF Mrds]
      by (intro classify_checked_agrees [where seen = seen, OF assms, of _ "mrds_decode (ref_value opt)"]) (auto simp: parse_step_def)
  next
    case Req
    then show ?thesis
      using False ok req_opt.decode_no_panic decoded_sound(3) [OF Req]
      by (intro classify_checked_agrees [where seen = seen, OF assms, of _ "req_decode (ref_value opt)"]) (auto simp: parse_step_def)
  next
    case Res
    then show ?thesis
      using False ok res_opt.decode_no_panic decoded_sound(4) [OF Res]
      by (intro classify_checked_agrees [where seen = seen, OF assms, of _ "res_decode (ref_value opt)"]) (auto simp: parse_step_def)
  qed (use assms ok in \<open>auto simp: parse_step_def classify_option_def step_agrees_def Let_def\<close>)
qed

lemma classify_items_agree:
  "sound_state crc user_data st \<Longrightarrow> ps_seen st kind_FRAG = seen kind_FRAG \<Longrightarrow>
     \<exists>c. classify_items ctx (user_data = []) seen (ps_frag st) xs = Ok c \<and> predicts crc user_data c (parse_items crc ctx user_data st xs)"
proof (induction xs arbitrary: st seen)
  case (Cons x xs)
  show ?case
  proof (cases x)
    case (Inl e)
    then show ?thesis
      using Cons.prems by (auto simp: parse_step_def item_error_def sound_state_def rejected_def fragment_failure_def)
  next
    case (Inr opt)
    obtain c where c: "classify_option ctx (user_data = []) seen (ps_frag st) opt = Ok c"
      "step_agrees crc user_data c (parse_step crc ctx user_data st (Inr opt))"
      using classify_option_agrees [where seen = seen, OF Cons.prems] by blast
    show ?thesis
    proof (cases c)
      case c': (Inl d)
      then show ?thesis
        using c Inr by (cases "parse_step crc ctx user_data st (Inr opt)") (auto simp: step_agrees_def; cases d; simp)+
    next
      case c': (Inr s)
      then obtain st' where "parse_step crc ctx user_data st (Inr opt) = Continue st'" "sound_state crc user_data st'"
        "ps_frag st' = snd s" "ps_seen st' kind_FRAG = fst s kind_FRAG"
        using c(2) by (cases s) (auto simp: step_agrees_def)
      then show ?thesis
        using c(1) c' Inr Cons.IH [of st' "fst s"] by (simp add: case_prod_beta')
    qed
  qed
qed auto

section \<open>The FRAG that sets the limit\<close>

text \<open>The items before the first FRAG are no FRAG, and it decodes to \<open>f\<close>.\<close>

fun first_frag :: "frag \<Rightarrow> item list \<Rightarrow> bool" where
  "first_frag f (Inr opt # xs) \<longleftrightarrow> (if ref_kind opt = Frag then frag_decode (ref_value opt) = Ok f else first_frag f xs)"
| "first_frag f _ \<longleftrightarrow> False"

lemma classify_option_frag:
  assumes "classify_option ctx ue seen vf opt = Ok (Inr (seen', vf'))"
  shows "ref_kind opt \<noteq> Frag \<Longrightarrow> vf' = vf \<and> seen' kind_FRAG = seen kind_FRAG"
    and "ref_kind opt = Frag \<Longrightarrow> (\<exists>f. frag_decode (ref_value opt) = Ok f \<and> vf' = Some f) \<and> seen' kind_FRAG"
  using assms
  by (cases "ref_kind opt"; cases "frag_decode (ref_value opt)"; auto simp: classify_option_def Let_def kind_defs split: if_splits)+

lemma classify_items_ConsE:
  assumes "classify_items ctx ue seen vf (x # xs) = Ok (Inr vf')"
  obtains opt seen1 vf1 where "x = Inr opt" "classify_option ctx ue seen vf opt = Ok (Inr (seen1, vf1))"
    "classify_items ctx ue seen1 vf1 xs = Ok (Inr vf')"
proof (cases x)
  case (Inr opt)
  then show thesis
    using assms that by (cases "classify_option ctx ue seen vf opt") (auto split: sum.splits)
qed (use assms in simp)

lemma classify_items_keeps:
  "classify_items ctx ue seen vf xs = Ok (Inr vf') \<Longrightarrow> seen kind_FRAG \<Longrightarrow> vf' = vf"
proof (induction xs arbitrary: seen vf)
  case (Cons x xs)
  from Cons.prems(1) obtain opt seen1 vf1 where x: "x = Inr opt" "classify_option ctx ue seen vf opt = Ok (Inr (seen1, vf1))"
    and rest: "classify_items ctx ue seen1 vf1 xs = Ok (Inr vf')" by (rule classify_items_ConsE)
  have "ref_kind opt \<noteq> Frag" using x(2) Cons.prems(2) by (auto simp: classify_option_def Let_def split: if_splits)
  then show ?case using classify_option_frag(1) [OF x(2)] Cons.IH [OF rest] Cons.prems(2) by simp
qed simp

lemma classify_items_first_frag:
  "classify_items ctx ue seen vf xs = Ok (Inr vf') \<Longrightarrow> first_frag f xs \<Longrightarrow> vf' = Some f"
proof (induction xs arbitrary: seen vf)
  case (Cons x xs)
  from Cons.prems(1) obtain opt seen1 vf1 where x: "x = Inr opt" "classify_option ctx ue seen vf opt = Ok (Inr (seen1, vf1))"
    and rest: "classify_items ctx ue seen1 vf1 xs = Ok (Inr vf')" by (rule classify_items_ConsE)
  show ?case
  proof (cases "ref_kind opt = Frag")
    case True
    then show ?thesis using classify_option_frag(2) [OF x(2)] classify_items_keeps [OF rest] Cons.prems(2) x(1) by auto
  next
    case False
    then show ?thesis using Cons.IH [OF rest] Cons.prems(2) x(1) by simp
  qed
qed simp

lemma classify_items_full:
  "limit_items bs offset xs = Ok Full \<Longrightarrow> \<forall>x \<in> set (butlast xs). \<not> is_final_item x \<Longrightarrow>
     classify_items ctx ue seen None xs = Ok (Inr vf) \<Longrightarrow> vf = None"
proof (induction xs arbitrary: seen)
  case (Cons x xs)
  from Cons.prems(3) obtain opt seen1 vf1 where x: "x = Inr opt" "classify_option ctx ue seen None opt = Ok (Inr (seen1, vf1))"
    and rest: "classify_items ctx ue seen1 vf1 xs = Ok (Inr vf)" by (rule classify_items_ConsE)
  have nf: "ref_kind opt \<noteq> Frag"
    using classify_option_frag(2) [OF x(2)] Cons.prems(1) x(1) by (auto simp: Let_def and_then_eq_Ok split: if_splits)
  then have vf1: "vf1 = None" using classify_option_frag(1) [OF x(2)] by simp
  show ?case
  proof (cases "xs = []")
    case False
    then have "ref_kind opt \<noteq> Eol" "\<forall>x \<in> set (butlast xs). \<not> is_final_item x"
      using Cons.prems(2) x(1) by (auto simp: is_final_item_def)
    moreover have "\<not> is_unsafe (ref_kind opt)"
      using x(2) by (cases "ref_kind opt") (auto simp: classify_option_def is_unsafe_def [of "Other _"] split: if_splits)
    ultimately show ?thesis using Cons.IH [of seen1] Cons.prems(1) rest x(1) nf vf1 by simp
  qed (use rest vf1 in simp)
qed simp

section \<open>The prefix in front of the fragment data\<close>

lemma first_option_end:
  "first_option off bs = (Inr r, n, cont) \<Longrightarrow> ref_at r = Some a \<Longrightarrow> a + length (ref_value r) = off + n"
  by (cases bs) (auto simp: Let_def split: if_splits list.splits)

lemma first_option_take:
  assumes "first_option off bs = (Inr r, n, cont)" and "n \<le> m"
  shows "first_option off (take m bs) = (Inr r, n, cont)"
proof -
  obtain k bs1 where bs: "bs = k # bs1" using assms(1) by (cases bs) simp_all
  have "0 < m" using first_option_Inr(1) [OF assms(1)] assms(2) by simp
  then obtain m1 where m: "m = Suc m1" by (cases m) simp_all
  show ?thesis
  proof (cases "k = kind_EOL \<or> k = kind_NOP")
    case True
    then show ?thesis using assms bs m kind_NOP_neq_EOL [symmetric] by (auto simp del: kind_NOP_neq_EOL)
  next
    case False
    then obtain l bs2 where bs1: "bs1 = l # bs2" using assms(1) bs by (cases bs1) simp_all
    show ?thesis
    proof (cases "l = kind_EXTENDED_LENGTH_MARKER")
      case True
      then obtain b2 b3 bs3 where "bs2 = b2 # b3 # bs3" using assms(1) bs bs1 False by (auto split: list.splits)
      then show ?thesis
        using assms bs bs1 False True m
        by (auto simp: Let_def take_Cons' min_def split: if_splits)
    next
      case nm: False
      then show ?thesis using assms bs bs1 False m by (auto simp: Let_def take_Cons' min_def split: if_splits)
    qed
  qed
qed

lemma limit_prefix:
  assumes "limit_items bs0 offset (parse_spec off bs) = Ok (EndAt e)"
  shows "\<exists>f. offset \<le> unat (frag_start f) \<and> e = unat (frag_start f) - offset \<and> e \<le> length bs0 \<and> off \<le> e
    \<and> first_frag f (parse_spec off (take (e - off) bs))"
  using assms
proof (induction off bs rule: parse_spec.induct)
  case (1 off bs)
  obtain x n cont where fo: "first_option off bs = (x, n, cont)" by (metis prod_cases3)
  have ne: "bs \<noteq> []" using "1.prems" by auto
  then have ps: "parse_spec off bs = x # (if cont then parse_spec (off + n) (drop n bs) else [])"
    using fo by (simp add: parse_spec.simps [of off bs])
  obtain opt where x: "x = Inr opt" using "1.prems" ps by (cases x) auto
  note n = first_option_Inr [OF fo [unfolded x]]
  have prefix: "parse_spec off (take (e - off) bs) =
      Inr opt # (if cont then parse_spec (off + n) (take (e - (off + n)) (drop n bs)) else [])" if "off + n \<le> e"
    using first_option_take [OF fo [unfolded x], of "e - off"] that n(1,2) ne
    by (simp add: parse_spec.simps [of off "take (e - off) bs"] drop_take)
  show ?case
  proof (cases "ref_kind opt = Frag")
    case True
    then obtain f where f: "frag_decode (ref_value opt) = Ok f" "offset \<le> unat (frag_start f)" "e = unat (frag_start f) - offset"
      "e \<le> length bs0" and opt_end: "\<exists>a. ref_at opt = Some a \<and> a + length (ref_value opt) \<le> e"
      using "1.prems" ps x
      by (auto simp: Let_def and_then_eq_Ok option_end_offset_def not_less split: res.splits if_splits option.splits)
    then have "off + n \<le> e" using first_option_end [OF fo [unfolded x]] by auto
    then show ?thesis using f True prefix by (intro exI [of _ f]) simp
  next
    case False
    then have "cont" "limit_items bs0 offset (parse_spec (off + n) (drop n bs)) = Ok (EndAt e)"
      using "1.prems" ps x by (auto split: if_splits)
    then show ?thesis using "1.IH" [OF ne fo [symmetric] refl] False prefix by auto
  qed
qed

section \<open>One fragment on an empty cache\<close>

text \<open>Whether a lone fragment is buffered, aborted or complete does not depend on its options.\<close>

fun outcome_kind :: "reassembly_outcome \<Rightarrow> expected_disposition" where
  "outcome_kind Incomplete = ExpectBuffered"
| "outcome_kind (Abort _) = ExpectDropped"
| "outcome_kind (Complete _) = ReassembledComplete"

fun insert_kind :: "insert_result \<Rightarrow> expected_disposition" where
  "insert_kind InsertIncomplete = ExpectBuffered"
| "insert_kind (InsertAbort _) = ExpectDropped"
| "insert_kind (InsertComplete _) = ReassembledComplete"

lemma partial_insert_kind:
  "insert_kind (fst (partial_insert (partial_new now) nf data opts fails ocs lim)) =
   insert_kind (fst (partial_insert (partial_new now) nf data opts' fails' ocs' lim))"
  by (cases "data = []"; cases "nf_udp_length nf")
    (auto simp: partial_insert_def is_exact_duplicate_def partial_new_def overlaps_def observe_terminal_def Let_def
      observe_fragment_ocs_def complete_def split: option.split prod.split)

lemma insert_new_kind:
  "\<exists>res c. insert_with_options_and_failures cache_new key f data proc now = (Ok (res, c) :: (_, 'e) res)
    \<and> outcome_kind res =
        (case normalized_new f (length data) of
           None \<Rightarrow> ExpectDropped
         | Some nf \<Rightarrow>
             if (case nf_udp_length nf of None \<Rightarrow> 0 | Some n \<Rightarrow> unat n) > lim_max_reassembled_size default_limits
               \<or> (case checked_add (unat length_UDP_HEADER) (nf_end nf) of
                     None \<Rightarrow> True | Some len \<Rightarrow> len > lim_max_reassembled_size default_limits)
             then ExpectDropped
             else insert_kind (fst (partial_insert (partial_new now) nf data (fp_options proc) (fp_option_failures proc)
                    (fp_ocs_nonzero proc) default_limits)))"
proof (cases "normalized_new f (length data)")
  case (Some nf)
  let ?p = "partial_insert (partial_new now) nf data (fp_options proc) (fp_option_failures proc) (fp_ocs_nonzero proc) default_limits"
  have empty: "hm_retain P hm_new = hm_new" "\<not> hm_contains_key hm_new key" "hm_len hm_new = 0"
    "hm_get (hm_insert hm_new key p) key = Some p" for P :: "partial \<Rightarrow> bool" and p :: partial
    by (simp_all add: hm_retain_def hm_new_def hm_contains_key_def hm_len_def hm_get_def hm_insert_def)
  have room: "\<not> 0 \<ge> lim_max_pending_partials default_limits"
    by (simp add: default_limits_def REASSEMBLY_MAX_PENDING_PARTIALS_def)
  obtain r p where p: "?p = (r, p)" by fastforce
  show ?thesis
    using Some p room
    by (cases r) (simp_all add: insert_with_options_and_failures_def cache_new_def cache_with_limits_def cache_gc_def
        cache_abort_def empty Let_def cong: if_cong option.case_cong)
qed (simp add: insert_with_options_and_failures_def cache_abort_def Let_def)

lemma lone_fragment_kind:
  "\<exists>o1 c1 o2 c2. insert_with_options_and_failures cache_new key f data proc now = (Ok (o1, c1) :: (_, 'e) res)
     \<and> cache_insert cache_new key f data now = (Ok (o2, c2) :: (_, 'f) res) \<and> outcome_kind o1 = outcome_kind o2"
proof -
  let ?plain = "\<lparr>fp_options = [], fp_option_failures = [], fp_ocs_nonzero = None\<rparr>"
  show ?thesis
    using insert_new_kind [of key f data proc now, where 'e = 'e] insert_new_kind [of key f data ?plain now, where 'e = 'f]
      partial_insert_kind [of now _ data "fp_options proc" "fp_option_failures proc" "fp_ocs_nonzero proc" default_limits "[]" "[]" None]
    by (fastforce simp: cache_insert_def insert_with_options_def split: option.split)
qed

section \<open>The verdict on the parsed options\<close>

definition settled :: "(bytes \<Rightarrow> u32) \<Rightarrow> bytes \<Rightarrow> expected_disposition option \<Rightarrow> verdict \<Rightarrow> bool" where
  "settled crc user_data d v \<longleftrightarrow>
     (case v of Done x \<Rightarrow> check_disposition crc user_data x d = Ok () | Reprocess _ _ \<Rightarrow> d = Some ReassembledComplete)"

lemma without_options_settled:
  "settled crc user_data (Some DeliverWithoutOptions) (Done (deliver_without_options user_data True status))"
  "settled crc user_data None (Done (deliver_without_options user_data bearing status))"
  by (simp_all add: settled_def check_disposition_def check_payload_def deliver_without_options_def datagram_ocs_def)

lemma check_delivered_options_sound:
  "list_all (sound_option crc user_data) opts \<Longrightarrow> check_delivered_options crc user_data opts = Ok ()"
  by (induction opts) (simp_all add: sound_option_def)

lemma early_return_settled:
  assumes "predicts crc (rh_user_data h) (Inl d) (Ok po)" and "process_parsed h po status c now True = (v, c')"
  shows "\<exists>x. v = Ok x \<and> settled crc (rh_user_data h) (Some d) x"
  using assms without_options_settled(1) [of crc "rh_user_data h" status]
  by (cases d) (auto simp: process_parsed_def Let_def settled_def check_disposition_def split: if_splits)

lemma go_on_settled:
  assumes "sound_state crc (rh_user_data h) st" and "ps_frag st = None"
    and "process_parsed h (parse_end st) status c now True = (v, c')"
  shows "\<exists>x. v = Ok x \<and> settled crc (rh_user_data h) (Some GoOn) x"
  using assms check_delivered_options_sound [of crc "rh_user_data h" "ps_options st"]
  by (auto simp: process_parsed_def parse_end_def sound_state_def settled_def check_disposition_def check_payload_def
      datagram_ocs_def)

lemma fragment_settled:
  assumes "sound_state crc (rh_user_data h) st" and "ps_frag st = Some f" and "rh_user_data h = []"
    and "rh_udp_at h + unat (frag_start f) \<le> rh_ip_end h" and "rh_ip_end h = length (rh_datagram h)"
    and data: "fragment_data = drop (rh_udp_at h + unat (frag_start f)) (rh_datagram h)"
  shows "\<exists>x d. fst (process_parsed h (parse_end st) status cache_new now True) = Ok x
    \<and> classify_reassembly_fragment (rh_ip h) (rh_udp h) f fragment_data now = Ok d
    \<and> settled crc (rh_user_data h) (Some d) x"
proof -
  let ?proc = "\<lparr>fp_options = po_options (parse_end st), fp_option_failures = fragment_option_failures (po_reports (parse_end st)),
    fp_ocs_nonzero = Some (status = OcsValid)\<rparr>"
  obtain o1 c1 o2 c2 where ins: "insert_with_options_and_failures cache_new (frag_key_of (rh_ip h) (rh_udp h) f) f fragment_data ?proc now =
      (Ok (o1, c1) :: (_, recv_error) res)"
    "cache_insert cache_new (frag_key_of (rh_ip h) (rh_udp h) f) f fragment_data now = (Ok (o2, c2) :: (_, unit) res)"
    and k: "outcome_kind o1 = outcome_kind o2"
    using lone_fragment_kind [where 'e = recv_error and 'f = unit] by meson
  have d: "classify_reassembly_fragment (rh_ip h) (rh_udp h) f fragment_data now = Ok (outcome_kind o1)"
    unfolding k by (cases o2) (simp_all add: classify_reassembly_fragment_def ins(2))
  have "process_parsed h (parse_end st) status cache_new now True = process_fragment h f (parse_end st) status cache_new now"
    using assms(1-3) by (simp add: process_parsed_def parse_end_def sound_state_def Let_def)
  moreover have "take (rh_ip_end h - (rh_udp_at h + unat (frag_start f))) (drop (rh_udp_at h + unat (frag_start f)) (rh_datagram h)) = fragment_data"
    using assms(5) data by simp
  ultimately show ?thesis
    using assms(4,5) d ins(1)
    by (cases o1) (auto simp: process_fragment_def Let_def reassembled_datagram_eq settled_def check_disposition_def)
qed

text \<open>What the classification does once its loop has ended.\<close>

definition classified ::
  "parsed_headers \<Rightarrow> bytes \<Rightarrow> instant \<Rightarrow> expected_disposition + frag option \<Rightarrow> (expected_disposition, unit) res" where
  "classified h fragment_data now r =
     (case r of
        Inl d \<Rightarrow> Ok d
      | Inr None \<Rightarrow> Ok GoOn
      | Inr (Some f) \<Rightarrow>
          if rh_user_data h = [] then classify_reassembly_fragment (rh_ip h) (rh_udp h) f fragment_data now
          else Ok DeliverWithoutOptions)"

lemma loop_settled:
  assumes "\<And>f. classify_items ctx (rh_user_data h = []) (\<lambda>_. False) None xs = Ok (Inr (Some f)) \<Longrightarrow> rh_user_data h = [] \<Longrightarrow>
      rh_udp_at h + unat (frag_start f) \<le> rh_ip_end h \<and> rh_ip_end h = length (rh_datagram h)
      \<and> fragment_data = drop (rh_udp_at h + unat (frag_start f)) (rh_datagram h)"
  shows "\<exists>d. and_then (classify_items ctx (rh_user_data h = []) (\<lambda>_. False) None xs) (classified h fragment_data now) = Ok d
    \<and> (case parse_items crc ctx (rh_user_data h) parse_state_init xs of
         Panic \<Rightarrow> False
       | Err e \<Rightarrow> settled crc (rh_user_data h) (Some d) (Done (deliver_without_options (rh_user_data h) True status))
       | Ok po \<Rightarrow> \<exists>x. fst (process_parsed h po status cache_new now True) = Ok x \<and> settled crc (rh_user_data h) (Some d) x)"
proof -
  note classified_def [simp]
  have "sound_state crc (rh_user_data h) parse_state_init" "ps_seen parse_state_init kind_FRAG = (\<lambda>_. False) kind_FRAG"
    "ps_frag parse_state_init = None"
    by (simp_all add: sound_state_def parse_state_init_def)
  with classify_items_agree [where seen = "\<lambda>_. False", OF this(1,2), of ctx xs]
  obtain c where c: "classify_items ctx (rh_user_data h = []) (\<lambda>_. False) None xs = Ok c"
    and p: "predicts crc (rh_user_data h) c (parse_items crc ctx (rh_user_data h) parse_state_init xs)" by auto
  show ?thesis
  proof (cases c)
    case (Inl d)
    note no = parse_items_no_panic [of crc ctx "rh_user_data h" parse_state_init xs]
    show ?thesis
    proof (cases "parse_items crc ctx (rh_user_data h) parse_state_init xs")
      case (Ok po)
      obtain v c' where v: "process_parsed h po status cache_new now True = (v, c')" by fastforce
      show ?thesis using early_return_settled [OF _ v] p c Inl Ok v by auto
    next
      case (Err e)
      then show ?thesis using p c Inl without_options_settled(1) by (cases d) auto
    qed (use no in simp)
  next
    case (Inr vf)
    with p obtain st where st: "parse_items crc ctx (rh_user_data h) parse_state_init xs = Ok (parse_end st)"
      "sound_state crc (rh_user_data h) st" "ps_frag st = vf" by auto
    show ?thesis
    proof (cases vf)
      case None
      then show ?thesis
        using go_on_settled [OF st(2), of status cache_new now] st c Inr
        by (cases "process_parsed h (parse_end st) status cache_new now True") auto
    next
      case (Some f)
      show ?thesis
      proof (cases "rh_user_data h = []")
        case True
        with fragment_settled [OF st(2), of f fragment_data status now] assms [of f] c Inr Some st show ?thesis by auto
      next
        case False
        then show ?thesis
          using st c Inr Some without_options_settled(1) by (auto simp: process_parsed_def parse_end_def Let_def)
      qed
    qed
  qed
qed

lemma limit_agrees_iff:
  "limit_agrees (Ok Full) r \<longleftrightarrow> r = Ok FullLimit" "limit_agrees (Ok (EndAt e)) r \<longleftrightarrow> r = Ok (EndLimit e)"
  "limit_agrees (Ok (MalformedFrag f)) r \<longleftrightarrow> r = Ok MalformedLimit" "\<not> limit_agrees (Err x) r"
  by (auto elim: limit_agrees.elims)

lemma trusted_settled:
  assumes d: "rh_datagram h = pre @ opts" "length pre = rh_udp_at h + offset" "rh_ip_end h = length (rh_datagram h)"
  shows "\<exists>d. classify_trusted_options (rh_ip h) (rh_udp h) opts (rh_user_data h = []) offset now = Ok d
    \<and> (case parse_options crc opts (rh_user_data h) offset of
         Panic \<Rightarrow> False
       | Err e \<Rightarrow> settled crc (rh_user_data h) (Some d) (Done (deliver_without_options (rh_user_data h) True status))
       | Ok po \<Rightarrow> \<exists>x. fst (process_parsed h po status cache_new now True) = Ok x \<and> settled crc (rh_user_data h) (Some d) x)"
proof -
  let ?ue = "rh_user_data h = []"
  let ?limit = "if rh_user_data h \<noteq> [] then Ok Full else limit_items opts offset (parse_spec 0 opts)"
  have bounds: "\<forall>x \<in> set (parse_spec 0 opts). item_in_bounds 0 opts x" using parse_spec_bounds by blast
  have agree: "limit_agrees ?limit (oracle_fragment_option_limit opts ?ue offset)"
    using limit_items_agree [of opts offset "parse_spec 0 opts"]
    by (simp add: oracle_fragment_option_limit_def oracle_limit_loop_items)
  have final: "\<forall>x \<in> set (butlast (parse_spec 0 opts)). \<not> is_final_item x" using parse_spec_final by blast
  show ?thesis
  proof (cases ?limit)
    case (Ok l)
    show ?thesis
    proof (cases l)
      case Full
      then have lim: "oracle_fragment_option_limit opts ?ue offset = Ok FullLimit"
        using agree Ok by (simp only: limit_agrees_iff)
      have po: "parse_options crc opts (rh_user_data h) offset = parse_items crc False (rh_user_data h) parse_state_init (parse_spec 0 opts)"
        using Ok Full by (simp only: parse_options_items and_then.simps option_limit.case)
      have none: False if "classify_items False ?ue (\<lambda>_. False) None (parse_spec 0 opts) = Ok (Inr (Some f))" "rh_user_data h = []" for f
        using classify_items_full [OF _ final that(1), of opts offset] Ok Full that(2) by simp
      have cl: "classify_trusted_options (rh_ip h) (rh_udp h) opts ?ue offset now =
          and_then (classify_items False ?ue (\<lambda>_. False) None (parse_spec 0 opts)) (classified h [] now)"
        unfolding classify_trusted_options_def lim by (simp add: classify_loop_items classified_def [abs_def])
      show ?thesis unfolding po cl by (rule loop_settled) (use none in blast)
    next
      case (EndAt e)
      then have ue: "rh_user_data h = []" and lim: "limit_items opts offset (parse_spec 0 opts) = Ok (EndAt e)"
        using Ok by (auto split: if_splits)
      from limit_prefix [OF lim] obtain f where f: "offset \<le> unat (frag_start f)" "e = unat (frag_start f) - offset" "e \<le> length opts"
        "first_frag f (parse_spec 0 (take e opts))" by auto
      have olim: "oracle_fragment_option_limit opts ?ue offset = Ok (EndLimit e)"
        using agree Ok EndAt by (simp only: limit_agrees_iff)
      have po: "parse_options crc opts (rh_user_data h) offset = parse_items crc True (rh_user_data h) parse_state_init (parse_spec 0 (take e opts))"
        using Ok EndAt f(3) unfolding parse_options_items by (simp add: slice_def)
      have data: "drop (rh_udp_at h + unat (frag_start f)) (rh_datagram h) = drop e opts"
        using d f by simp
      have same: "f' = f" if "classify_items True ?ue (\<lambda>_. False) None (parse_spec 0 (take e opts)) = Ok (Inr (Some f'))" for f'
        using classify_items_first_frag [OF that f(4)] by simp
      have le: "rh_udp_at h + unat (frag_start f) \<le> rh_ip_end h" using d f by simp
      have cl: "classify_trusted_options (rh_ip h) (rh_udp h) opts ?ue offset now =
          and_then (classify_items True ?ue (\<lambda>_. False) None (parse_spec 0 (take e opts))) (classified h (drop e opts) now)"
        unfolding classify_trusted_options_def olim using f(3)
        by (simp add: classify_loop_items classified_def [abs_def])
      show ?thesis
        unfolding po cl by (rule loop_settled) (drule same, simp only: le [unfolded d(3)] d(3) data simp_thms)
    next
      case (MalformedFrag f)
      then have "rh_user_data h = []" "oracle_fragment_option_limit opts ?ue offset = Ok MalformedLimit"
        using agree Ok by (auto simp only: limit_agrees_iff split: if_splits)
      then show ?thesis
        using Ok MalformedFrag early_return_settled
        by (auto simp: classify_trusted_options_def parse_options_items process_parsed_def settled_def check_disposition_def)
    qed
  next
    case (Err x)
    then show ?thesis using agree by (simp only: limit_agrees_iff)
  next
    case Panic
    then show ?thesis using limit_items_bounds(1) [OF bounds, of offset] by (simp split: if_splits)
  qed
qed

section \<open>The surplus area\<close>

lemma headers_ok_facts:
  assumes "headers_ok buf h"
  shows "length (rh_datagram h) = rh_ip_end h" "rh_udp_at h = header_len (rh_ip h)" "header_len (rh_ip h) \<le> rh_ip_end h"
    "rh_ip_end h = unat (total_len (rh_ip h))" "header_len (rh_ip h) + transport_payload_len (rh_ip h) = rh_ip_end h"
  using assms by (auto simp: headers_ok_def Let_def transport_payload_len_def header_len_def)

lemma surplus_reads:
  assumes "headers_ok buf h" and "locate_surplus (rh_ip h) (rh_udp h) = Some l"
  shows "\<exists>a b opts pre. (idx (rh_datagram h) (starts_at l) = (Ok (rh_datagram h ! starts_at l) :: (_, 'e) res))
    \<and> (slice (rh_datagram h) (ocs_at l) (rh_ip_end h) = (Ok (a # b # opts) :: (_, 'e) res))
    \<and> a = rh_datagram h ! ocs_at l \<and> b = rh_datagram h ! (ocs_at l + 1) \<and> opts = drop (ocs_at l + 2) (rh_datagram h)
    \<and> header_len (rh_ip h) \<le> ocs_at l \<and> ocs_at l + 2 \<le> length (rh_datagram h)"
proof -
  note h = headers_ok_facts [OF assms(1)]
  have "surplus_ok (rh_ip h) (rh_udp h) l" using assms(2) by (simp add: locate_surplus_Some_iff)
  then have b: "starts_at l < length (rh_datagram h)" "ocs_at l + 2 \<le> length (rh_datagram h)" "header_len (rh_ip h) \<le> ocs_at l"
    using h by (auto simp: surplus_ok_def ocs_at_def)
  then have "drop (ocs_at l) (rh_datagram h) =
      rh_datagram h ! ocs_at l # rh_datagram h ! (ocs_at l + 1) # drop (ocs_at l + 2) (rh_datagram h)"
    by (simp add: Cons_nth_drop_Suc)
  with b show ?thesis by (simp add: idx_def slice_def flip: h(1))
qed

lemma disposition_of_surplus:
  assumes "headers_ok buf h"
  shows "expected_options_disposition (rh_datagram h) (rh_ip h) (rh_udp h) (rh_user_data h) now =
    (case recv_surplus h of
       Ok (NoOptions bearing _) \<Rightarrow> Ok (if bearing then Some DeliverWithoutOptions else None)
     | Ok (OptionsAt _ opts offset) \<Rightarrow>
         and_then (classify_trusted_options (rh_ip h) (rh_udp h) opts (rh_user_data h = []) offset now) (\<lambda>d. Ok (Some d))
     | _ \<Rightarrow> Panic)"
proof (cases "locate_surplus (rh_ip h) (rh_udp h)")
  case None
  then show ?thesis by (simp add: expected_options_disposition_def recv_surplus_def)
next
  case (Some l)
  note h = headers_ok_facts [OF assms]
  from surplus_reads [OF assms Some, where 'e = unit] surplus_reads [OF assms Some, where 'e = recv_error]
  show ?thesis
    unfolding expected_options_disposition_def recv_surplus_def Some h(5)
    by (auto simp: ocs_validate_eq check_pad_def checked_sub_def h(2) Let_def)
qed

lemma options_at_suffix:
  assumes "headers_ok buf h" and "recv_surplus h = Ok (OptionsAt status opts offset)"
  shows "\<exists>pre. rh_datagram h = pre @ opts \<and> length pre = rh_udp_at h + offset \<and> rh_ip_end h = length (rh_datagram h)"
proof (cases "locate_surplus (rh_ip h) (rh_udp h)")
  case None
  then show ?thesis using assms(2) by (simp add: recv_surplus_def)
next
  case (Some l)
  note h = headers_ok_facts [OF assms(1)]
  from surplus_reads [OF assms(1) Some, where 'e = recv_error]
  have "opts = drop (ocs_at l + 2) (rh_datagram h)" "offset = ocs_at l + 2 - header_len (rh_ip h)"
    "header_len (rh_ip h) \<le> ocs_at l" "ocs_at l + 2 \<le> length (rh_datagram h)"
    using assms(2) unfolding recv_surplus_def Some
    by (auto simp: ocs_validate_eq check_pad_def checked_sub_def h(2) Let_def split: if_splits)
  then show ?thesis by (intro exI [of _ "take (ocs_at l + 2) (rh_datagram h)"]) (simp add: h)
qed

section \<open>The pipeline check never fails\<close>

lemma second_pass_not_buffered: "process_once crc d c now False \<noteq> (Ok (Done Buffered), c')"
  by (auto simp: process_once_def process_parsed_def deliver_without_options_def Let_def
      split: res.splits surplus_verdict.splits option.splits if_splits)

lemma once_settled:
  assumes "recv_headers buf = Ok h"
  shows "\<exists>v c d. process_once crc buf cache_new now True = (Ok v, c)
    \<and> expected_options_disposition (rh_datagram h) (rh_ip h) (rh_udp h) (rh_user_data h) now = Ok d
    \<and> settled crc (rh_user_data h) d v"
proof -
  note ok = recv_headers_Ok(1) [OF assms]
  obtain s where s: "recv_surplus h = Ok s"
    using recv_surplus_no_panic [OF ok] recv_surplus_not_Err [of h] by (cases "recv_surplus h") auto
  show ?thesis
  proof (cases s)
    case (NoOptions bearing status)
    then show ?thesis
      using s without_options_settled
      by (cases bearing) (simp_all add: process_once_def assms disposition_of_surplus [OF ok])
  next
    case (OptionsAt status opts offset)
    obtain pre where pre: "rh_datagram h = pre @ opts" "length pre = rh_udp_at h + offset" "rh_ip_end h = length (rh_datagram h)"
      using options_at_suffix [OF ok] s OptionsAt by blast
    have disp: "expected_options_disposition (rh_datagram h) (rh_ip h) (rh_udp h) (rh_user_data h) now =
        and_then (classify_trusted_options (rh_ip h) (rh_udp h) opts (rh_user_data h = []) offset now) (\<lambda>d. Ok (Some d))"
      using s OptionsAt by (simp add: disposition_of_surplus [OF ok])
    show ?thesis
    proof (cases "parse_options crc opts (rh_user_data h) offset")
      case (Ok po)
      obtain r c where r: "process_parsed h po status cache_new now True = (r, c)" by fastforce
      then show ?thesis
        using trusted_settled [OF pre, where now = now and crc = crc and status = status] s OptionsAt Ok disp
        by (auto simp: process_once_def assms)
    next
      case (Err e)
      then show ?thesis
        using trusted_settled [OF pre, where now = now and crc = crc and status = status] s OptionsAt disp
        by (auto simp: process_once_def assms)
    qed (simp add: parse_options_no_panic)
  qed
qed

lemma delivery_checked:
  assumes "recv_headers buf = Ok h"
  shows "\<exists>x d. fst (process_datagram crc buf cache_new now) = Ok x
    \<and> expected_options_disposition (rh_datagram h) (rh_ip h) (rh_udp h) (rh_user_data h) now = Ok d
    \<and> check_disposition crc (rh_user_data h) x d = Ok ()"
proof -
  obtain v c d where once: "process_once crc buf cache_new now True = (Ok v, c)"
    and d: "expected_options_disposition (rh_datagram h) (rh_ip h) (rh_udp h) (rh_user_data h) now = Ok d"
    and s: "settled crc (rh_user_data h) d v"
    using once_settled [OF assms] by blast
  show ?thesis
  proof (cases v)
    case (Done x)
    then show ?thesis using once d s by (simp add: process_datagram_unfold settled_def)
  next
    case (Reprocess d' r)
    have "recv_headers buf \<noteq> Err e" for e using assms by simp
    then have "fst (process_datagram crc buf cache_new now) \<noteq> Err e" for e by (simp add: process_datagram_Err_iff)
    moreover have "fst (process_datagram crc buf cache_new now) \<noteq> Panic"
      by (simp add: process_datagram_def process_inner_total)
    ultimately obtain x where x: "fst (process_datagram crc buf cache_new now) = Ok x" by (metis res.exhaust)
    then have "x \<noteq> Buffered"
      using second_pass_not_buffered [of crc d' c now] once Reprocess
      by (auto simp: process_datagram_unfold merge_delivery_def split: prod.splits res.splits verdict.splits delivery.splits)
    then show ?thesis using x d s Reprocess by (simp add: settled_def check_disposition_def)
  qed
qed

lemma check_tail_ok:
  assumes eq: "recv_headers buf = headers_tail ip buf udp" and n8: "8 \<le> unat (udp_length udp)"
    and hl: "header_len ip \<le> unat (total_len ip)" and len: "unat (total_len ip) \<le> length buf"
    and d: "d = take (unat (total_len ip)) buf" and r: "r = fst (process_datagram crc buf cache_new now)"
  shows "(if unat (udp_length udp) > transport_payload_len ip then assert_that (is_err r)
     else and_then (slice d (header_len ip + 8) (header_len ip + unat (udp_length udp))) (\<lambda>user_data.
       and_then
         (if udp_checksum udp \<noteq> 0 then
            and_then (compute_checksum (udp\<lparr>udp_checksum := 0\<rparr>) ip user_data) (\<lambda>expected.
            Ok (expected \<noteq> udp_checksum udp))
          else Ok False) (\<lambda>mismatch.
       if mismatch then assert_that (is_err r)
       else
         and_then (expect_ok r) (\<lambda>delivery.
         and_then (expected_options_disposition d ip udp user_data now) (\<lambda>expected.
         check_disposition crc user_data delivery expected))))) = Ok ()"
proof -
  have total: "header_len ip + transport_payload_len ip = unat (total_len ip)"
    using hl by (simp add: transport_payload_len_def header_len_def)
  let ?user = "take (unat (udp_length udp) - 8) (drop (header_len ip + 8) buf)"
  have err: "is_err r" if "recv_headers buf = Err e" for e
    using that process_datagram_Err_iff [of crc buf cache_new now e] by (simp add: is_err_def r)
  show ?thesis
  proof (cases "unat (udp_length udp) > transport_payload_len ip")
    case True
    then have "is_err r" using eq by (intro err) (simp add: headers_tail_def)
    then show ?thesis using True by simp
  next
    case False
    then have le: "header_len ip + unat (udp_length udp) \<le> unat (total_len ip)" using total by linarith
    then have user: "slice d (header_len ip + 8) (header_len ip + unat (udp_length udp)) = (Ok ?user :: (_, unit) res)"
      using n8 len by (simp add: d drop_take min_def)
    have ulen: "unat (udp_length udp) = 8 + length ?user" using n8 le len by simp
    then obtain cs where cs: "compute_checksum (udp\<lparr>udp_checksum := 0\<rparr>) ip ?user = (Ok cs :: (_, unit) res)"
      "compute_checksum (udp\<lparr>udp_checksum := 0\<rparr>) ip ?user = (Ok cs :: (_, recv_error) res)"
      by (simp add: compute_checksum_eq)
    show ?thesis
    proof (cases "udp_checksum udp \<noteq> 0 \<and> cs \<noteq> udp_checksum udp")
      case True
      then have "is_err r" using False eq cs(2) by (intro err) (simp add: headers_tail_def Let_def)
      then show ?thesis using True False user cs(1) by simp
    next
      case ok: False
      define h where "h = \<lparr>rh_ip = ip, rh_udp_at = header_len ip, rh_ip_end = unat (total_len ip), rh_datagram = d,
        rh_udp = udp, rh_user_data = ?user\<rparr>"
      have "headers_tail ip buf udp = Ok h"
        using False ok cs(2) by (cases "udp_checksum udp = 0") (simp_all add: headers_tail_def h_def d)
      then have h: "recv_headers buf = Ok h" "rh_ip h = ip" "rh_udp h = udp" "rh_datagram h = d" "rh_user_data h = ?user"
        by (simp_all add: eq h_def)
      from delivery_checked [OF h(1), of crc now] show ?thesis
        using ok False user cs(1) by (auto simp: h(2-) r)
    qed
  qed
qed

lemma check_pipeline_invariants_ok: "check_pipeline_invariants crc now buf = Ok ()"
proof -
  let ?r = "fst (process_datagram crc buf cache_new now)"
  have np: "?r \<noteq> Panic" by (simp add: process_datagram_def process_inner_total)
  have err: "is_err ?r" if "recv_headers buf = Err e" for e
    using that process_datagram_Err_iff [of crc buf cache_new now e] by (simp add: is_err_def)
  show ?thesis
  proof (cases "ip_parse buf")
    case (Ok p)
    obtain ip udp_at where p: "p = (ip, udp_at)" by fastforce
    note ip = ip_parse_Ok_D [OF Ok [unfolded p]]
    have total: "header_len ip + transport_payload_len ip = unat (total_len ip)"
      using ip(1,3) by (simp add: transport_payload_len_def header_len_def)
    let ?d = "take (unat (total_len ip)) buf"
    have hl: "udp_at = header_len ip" and len: "length ?d = unat (total_len ip)" using ip by simp_all
    note eq = recv_headers_eq [OF Ok [unfolded p]]
    show ?thesis
    proof (cases "udp_parse (drop (header_len ip) ?d)")
      case udp: (Ok udp)
      then have eq: "recv_headers buf = headers_tail ip buf udp" using eq by simp
      have n8: "8 \<le> unat (udp_length udp)" using udp by (simp add: udp_parse_Ok_iff)
      show ?thesis
        using check_tail_ok [OF eq n8 ip(3) [unfolded hl] ip(4) refl refl, of crc now] np Ok p ip total len udp
        by (simp add: check_pipeline_invariants_def hl Let_def cong: if_cong)
    qed (use Ok p eq err np ip total len in \<open>auto simp: check_pipeline_invariants_def hl Let_def udp_parse_no_panic\<close>)
  next
    case (Err e)
    then have "recv_headers buf = Err (RecvHeader e)" by (simp add: recv_headers_def)
    then show ?thesis using err np Err by (simp add: check_pipeline_invariants_def)
  qed (simp add: ip_parse_no_panic)
qed

end
