(* ===== verification/Fuzz_Targets.thy ===== *)
theory Fuzz_Targets
  imports Oracle_Assemble Oracle_Pipeline
begin

text \<open>
  The nine fuzz targets (\<open>fuzz/fuzz_targets/*.rs\<close>) as functions of the fuzzer's bytes: each derives its
  inputs from the bytes and runs one of the shared oracles. No target fails on any input. The clock of the
  reassembly target and the CRC32C of the receive pipeline are parameters.
\<close>

text \<open>\<open>data.get(i).copied().unwrap_or(d)\<close>\<close>

definition get_or :: "bytes \<Rightarrow> usize \<Rightarrow> byte \<Rightarrow> byte" where
  "get_or data i d = (if i < length data then data ! i else d)"

section \<open>Targets that run an oracle on the bytes\<close>

definition wire_datagram_target :: "bytes \<Rightarrow> check_result" where
  "wire_datagram_target data = check_wire_invariants data"

definition options_ocs_target :: "bytes \<Rightarrow> check_result" where
  "options_ocs_target data = check_ocs_invariants data"

definition options_tlv_target :: "bytes \<Rightarrow> check_result" where
  "options_tlv_target data = check_tlv_parser_invariants data"

definition options_typed_target :: "bytes \<Rightarrow> check_result" where
  "options_typed_target data = check_typed_decoder_invariants data"

definition options_serialize_target :: "bytes \<Rightarrow> check_result" where
  "options_serialize_target data =
     and_then (raw_options_from_fuzz_bytes data) (\<lambda>options. check_serializer_invariants options)"

definition process_datagram_target :: "(bytes \<Rightarrow> u32) \<Rightarrow> instant \<Rightarrow> bytes \<Rightarrow> check_result" where
  "process_datagram_target crc now data = check_pipeline_invariants crc now data"

section \<open>Targets that derive a configuration\<close>

definition frag_split_target :: "bytes \<Rightarrow> check_result" where
  "frag_split_target data =
     (let split_at = min (length data) 192 in
      and_then (slice data 0 split_at) (\<lambda>payload.
      and_then (slice data split_at (length data)) (\<lambda>rest.
      and_then (options_body_from_fuzz_bytes rest) (\<lambda>options.
      let max_surplus = 16 + unat (get_or data 0 0);
          max_size = u16_from_be_bytes (get_or data 1 0xff) (get_or data 2 0xff);
          max_segs = get_or data 3 0xff;
          ident = u32_from_be_bytes (get_or data 4 0x12) (get_or data 5 0x34) (get_or data 6 0x56) (get_or data 7 0x78) in
      check_split_invariants payload options
        \<lparr>max_fragment_surplus_len = max_surplus,
         peer = \<lparr>peer_max_reassembled_size = max_size, peer_max_segments = max_segs\<rparr>,
         split_identification = ident\<rparr>))))"

definition frag_reassembly_target :: "(usize \<Rightarrow> instant) \<Rightarrow> bytes \<Rightarrow> check_result" where
  "frag_reassembly_target clock data =
     (let split_at = min (length data) 192 in
      and_then (slice data 0 split_at) (\<lambda>payload.
      and_then (slice data split_at (length data)) (\<lambda>rest.
      and_then (options_body_from_fuzz_bytes rest) (\<lambda>options.
      let max_surplus = 16 + unat (get_or data 0 0);
          ident = u32_from_be_bytes (get_or data 1 0x12) (get_or data 2 0x34) (get_or data 3 0x56) (get_or data 4 0x78) in
      check_reassembly_invariants clock payload options
        \<lparr>max_fragment_surplus_len = max_surplus,
         peer = \<lparr>peer_max_reassembled_size = 0xffff, peer_max_segments = 0xff\<rparr>,
         split_identification = ident\<rparr> data))))"

definition socket_assemble_target :: "bytes \<Rightarrow> check_result" where
  "socket_assemble_target data =
     (let src = Ipv4Addr 192 0 2 (get_or data 0 1);
          dst = Ipv4Addr 198 51 100 (get_or data 1 2);
          sport = u16_from_be_bytes (get_or data 2 0x30) (get_or data 3 0x39);
          dport = u16_from_be_bytes (get_or data 4 0x00) (get_or data 5 0x35);
          split = min (length data) 80 in
      and_then (slice data 0 split) (\<lambda>user.
      and_then (slice data split (length data)) (\<lambda>rest.
      and_then (assemble_options_body rest) (\<lambda>options.
      and_then (check_assembly_invariants src dst sport dport user options) (\<lambda>_.
      let odd_user = force_odd_user_data user in
      check_assembly_invariants src dst sport dport odd_user options)))))"

section \<open>No target fails\<close>

lemma split_fuzz_bytes:
  "slice data 0 (min (length data) n) = Ok (take n data)"
  "slice data (min (length data) n) (length data) = Ok (drop n data)"
  by (simp_all add: slice_def min_def)

text \<open>
  C20: On every input, for any CRC32C and any instant, the receive pipeline run on an empty cache does what the
  independent classification of the datagram's bytes predicts: an error for a bad header or checksum; the payload
  without options, an empty payload, a buffered or a dropped fragment where the options call for it; and otherwise the user
  data with options that all decode, whose APC matches, and exactly one checksum report.
\<close>

theorem pipeline_matches_oracle: "process_datagram_target crc now data = Ok ()"
  by (simp add: process_datagram_target_def check_pipeline_invariants_ok)

lemma fragment_targets:
  assumes "\<forall>i < 255. clock i < clock 0 + REASSEMBLY_TIMEOUT_MAX"
  shows "frag_split_target data = Ok ()" and "frag_reassembly_target clock data = Ok ()"
proof -
  obtain body where "options_body_from_fuzz_bytes (drop 192 data) = Ok body"
    using options_body_from_fuzz_bytes_total by blast
  then show "frag_split_target data = Ok ()" "frag_reassembly_target clock data = Ok ()"
    by (simp_all add: frag_split_target_def frag_reassembly_target_def split_fuzz_bytes check_split_invariants_ok
        check_reassembly_invariants_ok [OF assms] del: slice_Ok)
qed

lemma serialize_target: "options_serialize_target data = Ok ()"
proof -
  obtain opts where "raw_options_from_fuzz_bytes data = Ok opts"
    unfolding raw_options_from_fuzz_bytes_def using raw_options_loop_total by blast
  then show ?thesis by (simp add: options_serialize_target_def check_serializer_invariants_ok)
qed

lemma assemble_target: "socket_assemble_target data = Ok ()"
proof -
  obtain body where body: "assemble_options_body (drop 80 data) = Ok body" "2 \<le> length body" "length body \<le> 230"
    using assemble_options_body_total by blast
  have "assembled_len user body \<le> u16_max" if "length user \<le> 81" for user :: bytes
    using that body(3) by (simp add: assembled_len_def u16_max_def)
  then have ok: "check_assembly_invariants src dst sport dport user body = Ok ()" if "length user \<le> 81" for src dst sport dport user
    using that body(2) by (intro check_assembly_invariants_ok)
  have "length (take 80 data) \<le> 81" "length (force_odd_user_data (take 80 data)) \<le> 81"
    by (auto simp: force_odd_user_data_def)
  then show ?thesis
    by (simp add: socket_assemble_target_def split_fuzz_bytes body(1) ok Let_def del: slice_Ok)
qed

text \<open>
  C32: None of the other eight targets fails on any input. The header chain locates a surplus area that lies in the datagram.
  The option checksum validates after it is computed and no single flipped bit gets past it. The parser yields exactly
  the options of an independent reading of the bytes and then stops; every typed decoder accepts exactly its lengths and
  re-encodes; what the builder serializes parses back in canonical order. An assembled datagram parses back field by field
  with both checksums. Splitting either is refused or gives fragments that carry the tail in order within all
  limits; and, as long as the clock does not reach the reassembly timeout within the 255 arrivals, inserting them in
  any derived order completes exactly at the last one with the tail that was split and leaves the cache empty.
\<close>

theorem fuzz_targets_pass:
  assumes "\<forall>i < 255. clock i < clock 0 + REASSEMBLY_TIMEOUT_MAX"
  shows "wire_datagram_target data = Ok () \<and> options_ocs_target data = Ok () \<and> options_tlv_target data = Ok ()
   \<and> options_typed_target data = Ok () \<and> options_serialize_target data = Ok () \<and> socket_assemble_target data = Ok ()
   \<and> frag_split_target data = Ok () \<and> frag_reassembly_target clock data = Ok ()"
  by (simp add: wire_datagram_target_def options_ocs_target_def options_tlv_target_def options_typed_target_def
      check_wire_invariants_ok check_ocs_invariants_ok check_tlv_parser_invariants_ok check_typed_decoder_invariants_ok
      serialize_target assemble_target fragment_targets [OF assms])

text \<open>The clock of the witness ticks once per arrival.\<close>

theorem fuzz_targets_pass_witness:
  "options_tlv_target [4, 0, 99, 7, 1, 2, 3] = Ok () \<and> frag_split_target [4, 0, 99, 7, 1, 2, 3] = Ok ()
   \<and> frag_reassembly_target (\<lambda>i. 5 + i) [4, 0, 99, 7, 1, 2, 3] = Ok ()"
  using fuzz_targets_pass [of "\<lambda>i. 5 + i" "[4, 0, 99, 7, 1, 2, 3]"] by (simp add: REASSEMBLY_TIMEOUT_MAX_def)

end
