(* ===== verification/Spike_Common.thy ===== *)
theory Spike_Common
  imports Cli_Recv
begin

text \<open>
  The case table that the client and the server of the wire spike share
  (\<open>examples/support/common.rs\<close>): which datagrams are sent, what is written into their headers, and
  how each is scored. The case at index \<open>i\<close> is addressed to its own marker port.
\<close>

definition IP_HDR_LEN :: usize where "IP_HDR_LEN = 20"
definition UDP_HDR_LEN :: usize where "UDP_HDR_LEN = 8"
definition MTU :: usize where "MTU = 1500"
definition MARKER_BASE :: u16 where "MARKER_BASE = 0x9868"

definition spike_pattern :: "usize \<Rightarrow> bytes" where
  "spike_pattern n = map (\<lambda>i. word_of_nat (i mod 256)) [0..<n]"

datatype check = Wire | WireRaw | SendFails

datatype cksum_mode = CksumAuto | CksumZero | CksumBad

record spike_case =
  sc_label :: string
  sc_udp_data_len :: usize
  sc_surplus_len :: usize
  sc_written_ip_total_len :: usize
  sc_udp_len_override :: "u16 option"
  sc_cksum :: cksum_mode
  sc_check :: check

definition UDP_DATA_DIMS :: "usize list" where "UDP_DATA_DIMS = [0, 1, 13, 1392]"
definition SURPLUS_DIMS :: "usize list" where "SURPLUS_DIMS = [0, 1, 8, 39, 40, 1471, 1472, 1473]"

definition combo :: "string \<Rightarrow> usize \<Rightarrow> usize \<Rightarrow> usize \<Rightarrow> spike_case" where
  "combo label udp_data_len slen written =
     (let physical = IP_HDR_LEN + UDP_HDR_LEN + udp_data_len + slen;
          check = (if physical > MTU then SendFails else Wire) in
      \<lparr>sc_label = label, sc_udp_data_len = udp_data_len, sc_surplus_len = slen, sc_written_ip_total_len = written,
       sc_udp_len_override = None, sc_cksum = CksumAuto, sc_check = check\<rparr>)"

definition case_label :: "usize \<Rightarrow> usize \<Rightarrow> string \<Rightarrow> string" where
  "case_label d s variant = ''d'' @ show_nat d @ ''-s'' @ show_nat s @ ''-'' @ variant"

definition anomaly :: "string \<Rightarrow> u16 option \<Rightarrow> cksum_mode \<Rightarrow> spike_case" where
  "anomaly label len_override cksum =
     \<lparr>sc_label = label, sc_udp_data_len = 0, sc_surplus_len = 40,
      sc_written_ip_total_len = IP_HDR_LEN + UDP_HDR_LEN + 40,
      sc_udp_len_override = len_override, sc_cksum = cksum, sc_check = WireRaw\<rparr>"

definition combos :: "usize \<Rightarrow> usize \<Rightarrow> spike_case list" where
  "combos d s =
     (let physical = IP_HDR_LEN + UDP_HDR_LEN + d + s in
      [combo (case_label d s ''honest'') d s physical]
      @ (if s > 0 then [combo (case_label d s ''under'') d s (physical - s)] else [])
      @ [combo (case_label d s ''over'') d s (physical + 40)])"

definition case_parts :: "spike_case list" where
  "case_parts =
     concat (map (\<lambda>d. concat (map (combos d) SURPLUS_DIMS)) UDP_DATA_DIMS)
     @ [combo ''over-mtu-3000'' 0 2972 3000]
     @ [anomaly ''cksum-zero'' None CksumZero, anomaly ''cksum-bad'' None CksumBad,
        anomaly ''len-overclaim'' (Some 500) CksumAuto, anomaly ''len-under-8'' (Some 4) CksumAuto]"

definition marker_port :: "usize \<Rightarrow> (u16, 'e) res" where
  "marker_port index = add_u16_checked MARKER_BASE (word_of_nat index)"

datatype spike_error = SpikePermission | SpikeIo io_error

definition spike_error_from :: "io_error \<Rightarrow> spike_error" where
  "spike_error_from e =
     (if raw_os_error e = Some 1 \<or> raw_os_error e = Some 13 then SpikePermission else SpikeIo e)"

section \<open>The table\<close>

text \<open>What the programs rely on: the sizes of a case fit the fields they are written to, and its score
  follows from its physical size.\<close>

definition physical_len :: "spike_case \<Rightarrow> usize" where
  "physical_len c = IP_HDR_LEN + (UDP_HDR_LEN + sc_udp_data_len c) + sc_surplus_len c"

definition case_ok :: "spike_case \<Rightarrow> bool" where
  "case_ok c \<longleftrightarrow>
     sc_written_ip_total_len c \<le> 3000 \<and> physical_len c \<le> 3000
     \<and> (sc_check c = SendFails \<longleftrightarrow> physical_len c > MTU)
     \<and> (sc_check c = Wire \<longrightarrow> sc_udp_len_override c = None)
     \<and> (\<forall>n. sc_udp_len_override c = Some n \<longrightarrow> unat n < 8 \<or> physical_len c < 20 + unat n)"

lemmas spike_defs = IP_HDR_LEN_def UDP_HDR_LEN_def MTU_def

lemma combo_ok: "written \<le> 3000 \<Longrightarrow> 28 + d + s \<le> 3000 \<Longrightarrow> case_ok (combo label d s written)"
  by (simp add: case_ok_def combo_def physical_len_def spike_defs Let_def)

lemma combos_ok: "28 + d + s \<le> 2960 \<Longrightarrow> list_all case_ok (combos d s)"
  by (simp add: combos_def Let_def spike_defs combo_ok)

lemma case_parts_ok: "list_all case_ok case_parts"
proof -
  have "case_ok (anomaly label None cksum)" "case_ok (anomaly label (Some 500) cksum)" "case_ok (anomaly label (Some 4) cksum)"
    for label cksum
    by (simp_all add: anomaly_def case_ok_def physical_len_def spike_defs)
  moreover have "list_all case_ok (combo ''over-mtu-3000'' 0 2972 3000 # [])" by (simp add: combo_ok)
  moreover have "list_all case_ok (concat (map (\<lambda>d. concat (map (combos d) SURPLUS_DIMS)) UDP_DATA_DIMS))"
    by (simp add: UDP_DATA_DIMS_def SURPLUS_DIMS_def combos_ok)
  ultimately show ?thesis by (simp add: case_parts_def)
qed

lemma length_case_parts: "length case_parts = 97"
  by (simp add: case_parts_def combos_def UDP_DATA_DIMS_def SURPLUS_DIMS_def Let_def)

lemma case_parts_checks:
  "length (filter (\<lambda>c. sc_check c = SendFails) case_parts) = 28"
  "length (filter (\<lambda>c. sc_check c \<noteq> SendFails) case_parts) = 69"
  by (simp_all add: case_parts_def combos_def combo_def anomaly_def UDP_DATA_DIMS_def SURPLUS_DIMS_def spike_defs Let_def)

lemma length_spike_pattern [simp]: "length (spike_pattern n) = n"
  by (simp add: spike_pattern_def)

lemma marker_port_Ok:
  assumes "i < 97"
  shows "marker_port i = Ok (0x9868 + word_of_nat i)" and "unat (0x9868 + word_of_nat i :: u16) = 0x9868 + i"
proof -
  have i: "unat (word_of_nat i :: u16) = i" using assms by (intro unat_of_nat_u16) (simp add: u16_max_def)
  then show "marker_port i = Ok (0x9868 + word_of_nat i)"
    using assms by (simp add: marker_port_def add_u16_checked_def MARKER_BASE_def u16_max_def)
  show "unat (0x9868 + word_of_nat i :: u16) = 0x9868 + i"
    using assms i by (simp add: unat_word_ariths)
qed

end
