(* ===== verification/Spike_Client.thy ===== *)
theory Spike_Client
  imports Spike_Common
begin

text \<open>
  The client of the wire spike (\<open>examples/spike_client.rs\<close>): it builds the datagram of every case with
  its own header writer and checksum, sends it on a raw socket and scores the send. The kernel is a
  parameter: the errors of opening the socket, what \<open>send_to\<close> returns for the bytes of a call, and which
  lines standard output takes.
\<close>

unbundle bit_operations_syntax

definition CLIENT_IP :: ipv4_addr where "CLIENT_IP = Ipv4Addr 10 0 0 1"
definition SERVER_IP :: ipv4_addr where "SERVER_IP = Ipv4Addr 10 0 0 2"
definition SPIKE_SRC_PORT :: u16 where "SPIKE_SRC_PORT = 40000"
definition EMSGSIZE :: int where "EMSGSIZE = 90"

definition case_udp_len :: "spike_case \<Rightarrow> usize" where
  "case_udp_len c = UDP_HDR_LEN + sc_udp_data_len c"

section \<open>The checksum\<close>

definition add_u32_checked :: "u32 \<Rightarrow> u32 \<Rightarrow> (u32, 'e) res" where
  "add_u32_checked a b = (if unat a + unat b < 2 ^ 32 then Ok (a + b) else Panic)"

fun chunk_sum :: "u32 \<Rightarrow> bytes \<Rightarrow> (u32, 'e) res" where
  "chunk_sum s (a # b # rest) =
     and_then (add_u32_checked s (ucast (u16_from_be_bytes a b))) (\<lambda>s. chunk_sum s rest)"
| "chunk_sum s [last_byte] = add_u32_checked s (ucast (push_bit 8 (ucast last_byte :: u16)))"
| "chunk_sum s [] = Ok s"

function spike_fold :: "u32 \<Rightarrow> u32" where
  "spike_fold s = (if drop_bit 16 s \<noteq> 0 then spike_fold ((s AND 0xffff) + drop_bit 16 s) else s)"
  by pat_completeness auto
termination
  by (relation "measure unat") (auto simp: fold_step_decreases)

declare spike_fold.simps [simp del]

definition ones_complement_checksum :: "bytes \<Rightarrow> (u16, 'e) res" where
  "ones_complement_checksum bs = and_then (chunk_sum 0 bs) (\<lambda>s. Ok (NOT (ucast (spike_fold s))))"

definition spike_udp_checksum :: "ipv4_addr \<Rightarrow> ipv4_addr \<Rightarrow> bytes \<Rightarrow> (u16, 'e) res" where
  "spike_udp_checksum src dst udp =
     (let pseudo = octets src @ octets dst @ [0, 17] @ u16_to_be_bytes (word_of_nat (length udp)) @ udp in
      and_then (ones_complement_checksum pseudo) (\<lambda>s.
      Ok (if s = 0 then 0xffff else s)))"

section \<open>The datagram of a case\<close>

definition resize :: "bytes \<Rightarrow> usize \<Rightarrow> byte \<Rightarrow> bytes" where
  "resize xs n v = take n xs @ replicate (n - length xs) v"

definition spike_build_datagram :: "spike_case \<Rightarrow> u16 \<Rightarrow> (bytes, 'e) res" where
  "spike_build_datagram c dport =
     (let udp_len = case_udp_len c;
          pkt = [0x45, 0x00] @ u16_to_be_bytes (word_of_nat (sc_written_ip_total_len c)) @ u16_to_be_bytes dport
                @ u16_to_be_bytes 0 @ [64, 17] @ u16_to_be_bytes 0 @ octets CLIENT_IP @ octets SERVER_IP in
      and_then (slice pkt 0 IP_HDR_LEN) (\<lambda>hdr.
      and_then (ones_complement_checksum hdr) (\<lambda>ip_checksum.
      and_then (put_slice pkt 10 (u16_to_be_bytes ip_checksum)) (\<lambda>pkt.
      let written_udp_len = (case sc_udp_len_override c of Some n \<Rightarrow> n | None \<Rightarrow> word_of_nat udp_len);
          pkt = pkt @ u16_to_be_bytes SPIKE_SRC_PORT @ u16_to_be_bytes dport @ u16_to_be_bytes written_udp_len
                @ u16_to_be_bytes 0;
          pkt = resize pkt (IP_HDR_LEN + UDP_HDR_LEN + sc_udp_data_len c) 0xaa in
      and_then (slice pkt IP_HDR_LEN (IP_HDR_LEN + udp_len)) (\<lambda>udp.
      and_then (spike_udp_checksum CLIENT_IP SERVER_IP udp) (\<lambda>computed.
      let cs = (case sc_cksum c of
                  CksumAuto \<Rightarrow> computed
                | CksumZero \<Rightarrow> 0
                | CksumBad \<Rightarrow> (let bad = computed + 1 in if bad = 0 then 1 else bad)) in
      and_then (put_slice pkt (IP_HDR_LEN + 6) (u16_to_be_bytes cs)) (\<lambda>pkt.
      Ok (pkt @ spike_pattern (sc_surplus_len c)))))))))"

section \<open>The program\<close>

definition spike_set_hdrincl :: "int \<Rightarrow> io_error \<Rightarrow> (unit, io_error) res" where
  "spike_set_hdrincl ret last_os_error = (if ret \<noteq> 0 then Err last_os_error else Ok ())"

definition open_send_socket :: "io_error option \<Rightarrow> int \<Rightarrow> io_error \<Rightarrow> (unit, spike_error) res" where
  "open_send_socket new_error setsockopt_ret last_os_error =
     (case new_error of
        Some e \<Rightarrow> Err (spike_error_from e)
      | None \<Rightarrow> map_err spike_error_from (spike_set_hdrincl setsockopt_ret last_os_error))"

definition pad_right :: "nat \<Rightarrow> string \<Rightarrow> string" where
  "pad_right n s = s @ replicate (n - length s) CHR '' ''"

record client_state =
  cl_sent :: usize
  cl_emsgsize :: usize
  cl_failed :: usize
  cl_lines :: "string list"

definition client_fail :: "stdout \<Rightarrow> client_state \<Rightarrow> spike_case \<Rightarrow> u16 \<Rightarrow> string \<Rightarrow> (client_state, unit) res" where
  "client_fail out st c port what =
     and_then (println out (cl_lines st) (''  '' @ pad_right 18 (sc_label c) @ '' port '' @ show_nat (unat port)
          @ '' physical='' @ show_nat (physical_len c) @ '' -> FAIL '' @ what)) (\<lambda>lines.
     Ok (st\<lparr>cl_failed := cl_failed st + 1, cl_lines := lines\<rparr>))"

definition client_score ::
  "(io_error \<Rightarrow> string) \<Rightarrow> stdout \<Rightarrow> client_state \<Rightarrow> spike_case \<Rightarrow> u16 \<Rightarrow> io_error + usize \<Rightarrow> (client_state, unit) res" where
  "client_score show_io out st c port result =
     (if sc_check c = SendFails then
        (case result of
           Inl e \<Rightarrow>
             if raw_os_error e = Some EMSGSIZE then Ok (st\<lparr>cl_emsgsize := cl_emsgsize st + 1\<rparr>)
             else client_fail out st c port (''expected EMSGSIZE, got: '' @ show_io e)
         | Inr n \<Rightarrow> client_fail out st c port (''expected EMSGSIZE but sent '' @ show_nat n @ ''B''))
      else
        (case result of
           Inr n \<Rightarrow> Ok (st\<lparr>cl_sent := cl_sent st + 1\<rparr>)
         | Inl e \<Rightarrow> client_fail out st c port (''unexpected send error: '' @ show_io e)))"

fun client_loop ::
  "(io_error \<Rightarrow> string) \<Rightarrow> stdout \<Rightarrow> (usize \<Rightarrow> bytes \<Rightarrow> io_error + usize) \<Rightarrow> usize \<Rightarrow> spike_case list \<Rightarrow> client_state
     \<Rightarrow> (client_state, unit) res" where
  "client_loop show_io out send_to i [] st = Ok st"
| "client_loop show_io out send_to i (c # cs) st =
     and_then (marker_port i) (\<lambda>port.
     and_then (spike_build_datagram c port) (\<lambda>pkt.
     and_then (client_score show_io out st c port (send_to i pkt)) (client_loop show_io out send_to (i + 1) cs)))"

definition client_banner :: "usize \<Rightarrow> string" where
  "client_banner n =
     ''spike_client: '' @ show_addr CLIENT_IP @ '' -> '' @ show_addr SERVER_IP @ '' (src port ''
     @ show_nat (unat SPIKE_SRC_PORT) @ ''), '' @ show_nat n @ '' cases''"

definition client_summary :: "usize \<Rightarrow> usize \<Rightarrow> usize \<Rightarrow> string" where
  "client_summary sent emsgsize failed =
     ''spike_client: '' @ (if failed = 0 then ''PASS (send-side)'' else ''FAIL (send-side)'') @ '' (''
     @ show_nat sent @ '' sent, '' @ show_nat emsgsize @ '' EMSGSIZE as expected (Finding B), '' @ show_nat failed @ '' failed)''"

definition client_main ::
  "(io_error \<Rightarrow> string) \<Rightarrow> stdout \<Rightarrow> (unit, spike_error) res \<Rightarrow> (usize \<Rightarrow> bytes \<Rightarrow> io_error + usize)
     \<Rightarrow> (int \<times> client_state option, unit) res" where
  "client_main show_io out opened send_to =
     (case opened of
        Panic \<Rightarrow> Panic
      | Err SpikePermission \<Rightarrow> Ok (2, None)
      | Err (SpikeIo e) \<Rightarrow> Ok (1, None)
      | Ok _ \<Rightarrow>
          and_then (println out [] (client_banner (length case_parts))) (\<lambda>lines.
          and_then (client_loop show_io out send_to 0 case_parts
            \<lparr>cl_sent = 0, cl_emsgsize = 0, cl_failed = 0, cl_lines = lines\<rparr>) (\<lambda>st.
          and_then (println out (cl_lines st) (client_summary (cl_sent st) (cl_emsgsize st) (cl_failed st))) (\<lambda>lines.
          Ok (if cl_failed st = 0 then 0 else 1, Some (st\<lparr>cl_lines := lines\<rparr>))))))"

section \<open>The checksum agrees with the library's\<close>

lemma spike_fold_eq: "spike_fold s = fold_sum s"
  by (induction s rule: spike_fold.induct) (simp add: spike_fold.simps fold_sum.simps)

lemma add_u32_checked_Ok: "unat a + unat b < 2 ^ 32 \<Longrightarrow> add_u32_checked a b = Ok (a + b) \<and> unat (a + b) = unat a + unat b"
  by (simp add: add_u32_checked_def unat_word_ariths)

lemma last_byte_word: "push_bit 8 (ucast b :: u16) = u16_from_be_bytes b 0"
proof -
  have "take_bit 16 (unat b) = unat b" by (rule take_bit_nat_eq_self, rule less_trans [OF unat_byte_less]) simp
  moreover have "unat b * 256 < 65536" using unat_byte_less [of b] by linarith
  ultimately show ?thesis
    by (simp add: word_unat_eq_iff unat_u16_from_be_bytes push_bit_eq_mult unat_word_ariths unsigned_ucast_eq mult.commute)
qed

lemma unat_ucast_u16_u32: "unat (ucast (w :: u16) :: u32) = unat w"
proof -
  have "take_bit 32 (unat w) = unat w" by (rule take_bit_nat_eq_self, rule less_trans [OF unat_u16_less]) simp
  then show ?thesis by (simp add: unsigned_ucast_eq)
qed

lemma chunk_sum_Ok:
  "unat s + 65535 * length bs < 2 ^ 32 \<Longrightarrow> \<exists>t. (chunk_sum s bs :: (u32, 'e) res) = Ok t \<and> unat t = unat s + words_total bs"
proof (induction bs arbitrary: s rule: induct_list012)
  case (2 b)
  have "unat (u16_from_be_bytes b 0) \<le> 65535" using unat_u16_less [of "u16_from_be_bytes b 0"] by linarith
  then show ?case
    using add_u32_checked_Ok [of s "ucast (u16_from_be_bytes b 0)", where 'a = 'e] 2
    by (simp add: last_byte_word unat_ucast_u16_u32)
next
  case (3 a b rest)
  let ?w = "ucast (u16_from_be_bytes a b) :: u32"
  have w: "unat ?w = unat (u16_from_be_bytes a b)" by (rule unat_ucast_u16_u32)
  have "unat (u16_from_be_bytes a b) \<le> 65535" using unat_u16_less [of "u16_from_be_bytes a b"] by linarith
  then have s: "(add_u32_checked s ?w :: (u32, 'e) res) = Ok (s + ?w)" "unat (s + ?w) = unat s + unat (u16_from_be_bytes a b)"
    "unat (s + ?w) + 65535 * length rest < 2 ^ 32"
    using add_u32_checked_Ok [of s ?w, where 'a = 'e] "3.prems" w by auto
  then show ?case using "3.IH"(1) [of "s + ?w"] by auto
qed simp

lemma ones_complement_checksum_eq:
  assumes "length bs \<le> 65536"
  shows "(ones_complement_checksum bs :: (u16, 'e) res) = Ok (internet_checksum bs)"
proof -
  obtain s where s: "(chunk_sum 0 bs :: (u32, 'e) res) = Ok s" "unat s = words_total bs"
    using chunk_sum_Ok [of 0 bs] assms by auto
  note f = fold_sum_value [of s]
  have "unat (ucast (fold_sum s) :: u16) = ones_fold (words_total bs)"
    using f s(2) by (simp add: unsigned_ucast_eq take_bit_nat_eq_self_iff)
  then have "unat (NOT (ucast (fold_sum s)) :: u16) = unat (internet_checksum bs)"
    by (simp add: unat_not_u16 unat_internet_checksum)
  then have "NOT (ucast (fold_sum s)) = internet_checksum bs" by (simp add: word_unat_eq_iff)
  then show ?thesis by (simp add: ones_complement_checksum_def s(1) spike_fold_eq)
qed

text \<open>The client's UDP checksum is the library's, for a datagram whose Length field may lie.\<close>

lemma protocol_word: "u16_from_be_bytes 0 17 = 17"
  by code_simp

lemma spike_udp_checksum_eq:
  fixes h :: udp_header
  assumes "udp_checksum h = 0" and "8 + length data \<le> 65000" and "ip_src ip = src" and "ip_dst ip = dst"
  shows "(spike_udp_checksum src dst (udp_header_bytes h @ data) :: (u16, 'e) res) =
    Ok (nonzero_or_ones (checksum_finish (add_slice (add_slice
         (pseudo_header_sum ip (word_of_nat (8 + length data))) (udp_header_bytes h)) data)))"
proof -
  let ?n = "word_of_nat (8 + length data) :: u16"
  let ?p = "octets src @ octets dst @ [0, 17] @ u16_to_be_bytes ?n @ udp_header_bytes h @ data"
  have "internet_checksum ?p = checksum_finish (add_slice (add_slice (pseudo_header_sum ip ?n) (udp_header_bytes h)) data)"
    by (simp add: word_unat_eq_iff unat_internet_checksum cs.unat_fin cs.val_laws cs.inv_laws pseudo_header_sum_def assms
        words_total_append ones_fold_adds IPPROTO_UDP_def protocol_word del: of_nat_add) (simp add: ac_simps)
  moreover have "(ones_complement_checksum ?p :: (u16, 'e) res) = Ok (internet_checksum ?p)"
    using assms(2) by (intro ones_complement_checksum_eq) simp
  ultimately show ?thesis
    by (simp add: spike_udp_checksum_def nonzero_or_ones_def del: of_nat_add)
qed

section \<open>The layout of the datagrams\<close>

definition spike_ip_header :: "u16 \<Rightarrow> u16 \<Rightarrow> bytes" where
  "spike_ip_header tlen ident =
     (let p = [0x45, 0] @ u16_to_be_bytes tlen @ u16_to_be_bytes ident @ [0, 0, 64, 17];
          a = octets CLIENT_IP @ octets SERVER_IP in
      p @ u16_to_be_bytes (internet_checksum (p @ [0, 0] @ a)) @ a)"

definition spike_ip :: "u16 \<Rightarrow> ip_repr" where
  "spike_ip tlen = \<lparr>ip_src = CLIENT_IP, ip_dst = SERVER_IP, ihl = 5, total_len = tlen\<rparr>"

definition spike_user_data :: "spike_case \<Rightarrow> bytes" where
  "spike_user_data c = replicate (sc_udp_data_len c) 0xaa"

definition spike_udp_unsummed :: "spike_case \<Rightarrow> u16 \<Rightarrow> udp_header" where
  "spike_udp_unsummed c port =
     \<lparr>src_port = SPIKE_SRC_PORT, dst_port = port,
      udp_length = (case sc_udp_len_override c of Some n \<Rightarrow> n | None \<Rightarrow> word_of_nat (case_udp_len c)), udp_checksum = 0\<rparr>"

definition spike_computed :: "spike_case \<Rightarrow> u16 \<Rightarrow> u16" where
  "spike_computed c port =
     nonzero_or_ones (checksum_finish (add_slice (add_slice
       (pseudo_header_sum (spike_ip 0) (word_of_nat (8 + sc_udp_data_len c))) (udp_header_bytes (spike_udp_unsummed c port)))
       (spike_user_data c)))"

definition spike_udp :: "spike_case \<Rightarrow> u16 \<Rightarrow> udp_header" where
  "spike_udp c port =
     (spike_udp_unsummed c port)\<lparr>udp_checksum :=
        (case sc_cksum c of
           CksumAuto \<Rightarrow> spike_computed c port
         | CksumZero \<Rightarrow> 0
         | CksumBad \<Rightarrow> (if spike_computed c port + 1 = 0 then 1 else spike_computed c port + 1))\<rparr>"

lemma length_spike_ip_header [simp]: "length (spike_ip_header tlen ident) = 20"
  by (simp add: spike_ip_header_def Let_def)

lemma spike_build_eq:
  assumes "case_ok c"
  shows "(spike_build_datagram c port :: (bytes, 'e) res) =
    Ok (spike_ip_header (word_of_nat (sc_written_ip_total_len c)) port @ udp_header_bytes (spike_udp c port)
        @ spike_user_data c @ spike_pattern (sc_surplus_len c))"
proof -
  let ?w = "word_of_nat (sc_written_ip_total_len c) :: u16"
  let ?p = "[0x45, 0] @ u16_to_be_bytes ?w @ u16_to_be_bytes port @ [0, 0, 64, 17]"
  let ?a = "octets CLIENT_IP @ octets SERVER_IP" and ?cs = "\<lambda>bs. u16_to_be_bytes (internet_checksum bs)"
  let ?u = "spike_udp_unsummed c port"
  let ?h = "spike_ip_header ?w port"
  have len: "8 + length (spike_user_data c) \<le> 65000"
    using assms by (simp add: case_ok_def physical_len_def spike_defs spike_user_data_def)
  have hdr: "(ones_complement_checksum (?p @ [0, 0] @ ?a) :: (u16, 'e) res) = Ok (internet_checksum (?p @ [0, 0] @ ?a))"
    by (rule ones_complement_checksum_eq) simp
  have zero: "u16_to_be_bytes 0 = [0, 0]" by (simp add: u16_to_be_bytes_def)
  have ip: "(put_slice (?p @ [0, 0] @ ?a) 10 (?cs (?p @ [0, 0] @ ?a)) :: (bytes, 'e) res) = Ok ?h"
    by (subst put_slice_at) (simp_all add: spike_ip_header_def Let_def)
  have resized: "resize (?h @ udp_header_bytes ?u) (28 + sc_udp_data_len c) 0xaa = ?h @ udp_header_bytes ?u @ spike_user_data c"
    by (simp add: resize_def spike_user_data_def)
  have udp: "(spike_udp_checksum CLIENT_IP SERVER_IP (udp_header_bytes ?u @ spike_user_data c) :: (u16, 'e) res) = Ok (spike_computed c port)"
    using spike_udp_checksum_eq [of ?u "spike_user_data c" "spike_ip 0" CLIENT_IP SERVER_IP, where 'e = 'e] len
    by (simp add: spike_udp_unsummed_def spike_ip_def spike_computed_def spike_user_data_def del: of_nat_add)
  have set_cs: "(put_slice (?h @ udp_header_bytes ?u @ spike_user_data c) 26 (u16_to_be_bytes cs) :: (bytes, 'e) res) =
      Ok (?h @ udp_header_bytes (?u\<lparr>udp_checksum := cs\<rparr>) @ spike_user_data c)" for cs
  proof -
    let ?xs = "?h @ u16_to_be_bytes (src_port ?u) @ u16_to_be_bytes (dst_port ?u) @ u16_to_be_bytes (udp_length ?u)"
    have "(put_slice (?xs @ [0, 0] @ spike_user_data c) 26 (u16_to_be_bytes cs) :: (bytes, 'e) res) =
        Ok (?xs @ u16_to_be_bytes cs @ spike_user_data c)"
      by (rule put_slice_at) simp_all
    then show ?thesis by (simp add: udp_header_bytes_def spike_udp_unsummed_def zero)
  qed
  have hs: "(slice (?p @ [0, 0] @ ?a) 0 20 :: (bytes, 'e) res) = Ok (?p @ [0, 0] @ ?a)"
    "(slice (?h @ udp_header_bytes ?u @ spike_user_data c) 20 (28 + sc_udp_data_len c) :: (bytes, 'e) res) =
      Ok (udp_header_bytes ?u @ spike_user_data c)"
    by (simp_all add: spike_user_data_def)
  have pkt: "[0x45, 0x00] @ u16_to_be_bytes ?w @ u16_to_be_bytes port @ u16_to_be_bytes 0 @ [64, 17] @ u16_to_be_bytes 0
      @ octets CLIENT_IP @ octets SERVER_IP = ?p @ [0, 0] @ ?a"
    by (simp add: zero)
  have hu: "?h @ u16_to_be_bytes SPIKE_SRC_PORT @ u16_to_be_bytes port
      @ u16_to_be_bytes (case sc_udp_len_override c of Some n \<Rightarrow> n | None \<Rightarrow> word_of_nat (case_udp_len c)) @ u16_to_be_bytes 0 =
      ?h @ udp_header_bytes ?u"
    by (simp add: udp_header_bytes_def spike_udp_unsummed_def)
  have nums: "IP_HDR_LEN = 20" "IP_HDR_LEN + UDP_HDR_LEN + sc_udp_data_len c = 28 + sc_udp_data_len c"
    "IP_HDR_LEN + case_udp_len c = 28 + sc_udp_data_len c" "IP_HDR_LEN + 6 = 26"
    by (simp_all add: spike_defs case_udp_len_def)
  show ?thesis
    unfolding spike_build_datagram_def Let_def pkt nums(2-4) unfolding nums(1)
    by (simp only: hs hdr ip and_then.simps hu resized udp set_cs) (simp add: spike_udp_def)
qed

end
