(* ===== verification/Spike_Server.thy ===== *)
theory Spike_Server
  imports Spike_Client
begin

text \<open>
  The server of the wire spike (\<open>examples/spike_server.rs\<close>): it matches received datagrams to the cases
  by marker port, records the first observation of each, and scores them. The kernel is a parameter: the errors of
  opening the socket, for each turn of the loop the clock and what \<open>recv\<close> returned, and which lines
  standard output takes. With links that
  behave as the program's findings say, client and server both pass.
\<close>

unbundle bit_operations_syntax

definition DEADLINE :: duration where "DEADLINE = 30000000000"

record observation =
  obs_total_len :: usize
  obs_udp_len_field :: usize
  obs_surplus :: "bytes option"

record server_case =
  sv_label :: string
  sv_surplus_len :: usize
  sv_written_ip_total_len :: usize
  sv_check :: check
  sv_physical_len :: usize

definition server_cases :: "server_case list" where
  "server_cases =
     map (\<lambda>c. \<lparr>sv_label = sc_label c, sv_surplus_len = sc_surplus_len c,
              sv_written_ip_total_len = sc_written_ip_total_len c, sv_check = sc_check c,
              sv_physical_len = IP_HDR_LEN + UDP_HDR_LEN + sc_udp_data_len c + sc_surplus_len c\<rparr>) case_parts"

section \<open>Matching a datagram\<close>

record marker =
  mk_dst_port :: u16
  mk_total_len :: usize
  mk_udp_len_field :: usize
  mk_surplus :: "bytes option"

definition match_marker :: "bytes \<Rightarrow> usize \<Rightarrow> (marker option, 'e) res" where
  "match_marker data n_cases =
     (if length data < IP_HDR_LEN then Ok None else
      and_then (idx data 0) (\<lambda>b0.
      let hlen = unat (b0 AND 0x0f) * 4 in
      and_then (if hlen < IP_HDR_LEN \<or> length data < hlen then Ok True
                else and_then (idx data 9) (\<lambda>proto. Ok (proto \<noteq> 17))) (\<lambda>reject.
      if reject then Ok None else
      and_then (idx data 2) (\<lambda>b2. and_then (idx data 3) (\<lambda>b3.
      let tlen = unat (u16_from_be_bytes b2 b3) in
      if tlen > length data \<or> tlen < hlen + UDP_HDR_LEN then Ok None else
      and_then (slice data hlen (length data)) (\<lambda>udp.
      and_then (idx udp 2) (\<lambda>u2. and_then (idx udp 3) (\<lambda>u3.
      let dport = u16_from_be_bytes u2 u3 in
      and_then (idx udp 4) (\<lambda>u4. and_then (idx udp 5) (\<lambda>u5.
      let ulen = unat (u16_from_be_bytes u4 u5) in
      and_then (add_u16_checked MARKER_BASE (word_of_nat n_cases)) (\<lambda>upper.
      if \<not> (MARKER_BASE \<le> dport \<and> dport < upper) then Ok None else
      and_then (if ulen \<ge> UDP_HDR_LEN \<and> hlen + ulen \<le> tlen
                then and_then (slice data (hlen + ulen) tlen) (\<lambda>s. Ok (Some s)) else Ok None) (\<lambda>slice_opt.
      Ok (Some \<lparr>mk_dst_port = dport, mk_total_len = tlen, mk_udp_len_field = ulen, mk_surplus = slice_opt\<rparr>)))))))))))))"

section \<open>The receive loop\<close>

definition all_wire_seen :: "server_case list \<Rightarrow> observation option list \<Rightarrow> bool" where
  "all_wire_seen cs seen \<longleftrightarrow> list_all (\<lambda>(i, obs). sv_check (cs ! i) = SendFails \<or> obs \<noteq> None) (enumerate 0 seen)"

definition record_marker :: "observation option list \<Rightarrow> marker \<Rightarrow> (observation option list, 'e) res" where
  "record_marker seen m =
     (if mk_dst_port m < MARKER_BASE then Panic
      else
        let i = unat (mk_dst_port m - MARKER_BASE) in
        if i < length seen \<and> seen ! i = None
        then Ok (seen[i := Some \<lparr>obs_total_len = mk_total_len m, obs_udp_len_field = mk_udp_len_field m,
                                 obs_surplus = mk_surplus m\<rparr>])
        else Ok seen)"

text \<open>\<open>None\<close>: the kernel has not returned from the last \<open>recv\<close> yet.\<close>

fun server_loop ::
  "server_case list \<Rightarrow> instant \<Rightarrow> observation option list \<Rightarrow> (instant \<times> (io_error + bytes)) list
     \<Rightarrow> (observation option list, spike_error) res option" where
  "server_loop cs deadline seen [] = (if all_wire_seen cs seen then Some (Ok seen) else None)"
| "server_loop cs deadline seen ((now, received) # ts) =
     (if all_wire_seen cs seen \<or> \<not> now < deadline then Some (Ok seen)
      else
        case received of
          Inl e \<Rightarrow>
            if io_kind e = WouldBlock \<or> io_kind e = TimedOut then server_loop cs deadline seen ts
            else Some (Err (spike_error_from e))
        | Inr data \<Rightarrow>
            (case match_marker data (length cs) of
               Panic \<Rightarrow> Some Panic
             | Err e \<Rightarrow> Some (Err e)
             | Ok None \<Rightarrow> server_loop cs deadline seen ts
             | Ok (Some m) \<Rightarrow>
                 (case record_marker seen m of
                    Panic \<Rightarrow> Some Panic
                  | Err e \<Rightarrow> Some (Err e)
                  | Ok seen \<Rightarrow> server_loop cs deadline seen ts)))"

section \<open>The report\<close>

definition hex_pair :: "byte \<Rightarrow> string" where
  "hex_pair b = as_text [lower_hex (drop_bit 4 b), lower_hex (b AND 0x0f)]"

definition trim_end :: "string \<Rightarrow> string" where
  "trim_end s = rev (dropWhile (\<lambda>c. c = CHR '' '') (rev s))"

definition spike_hex :: "bytes \<Rightarrow> usize \<Rightarrow> string" where
  "spike_hex bs n =
     trim_end (concat (map (\<lambda>b. hex_pair b @ '' '') (take n bs)) @ (if length bs > n then ''...'' else ''''))"

record report_state =
  rs_pass :: usize
  rs_fail :: usize
  rs_skip :: usize
  rs_rewritten :: usize
  rs_lines :: "string list"

definition report_line :: "server_case \<Rightarrow> u16 \<Rightarrow> string \<Rightarrow> string" where
  "report_line c port what = ''  '' @ pad_right 18 (sv_label c) @ '' port '' @ show_nat (unat port) @ ''  '' @ what"

definition report_case ::
  "stdout \<Rightarrow> report_state \<Rightarrow> server_case \<Rightarrow> u16 \<Rightarrow> observation option \<Rightarrow> (report_state, 'e) res" where
  "report_case out st c port obs =
     (if sv_check c = SendFails then Ok (st\<lparr>rs_skip := rs_skip st + 1\<rparr>)
      else case obs of
        None \<Rightarrow>
          and_then (println out (rs_lines st)
            (report_line c port (''MISS  no datagram within '' @ show_nat (DEADLINE div 1000000000) @ ''s''))) (\<lambda>lines.
          Ok (st\<lparr>rs_lines := lines, rs_fail := rs_fail st + 1\<rparr>))
      | Some obs \<Rightarrow>
          let lied = (sv_written_ip_total_len c \<noteq> obs_total_len obs);
              st = (if lied then st\<lparr>rs_rewritten := rs_rewritten st + 1\<rparr> else st);
              note_text = (if lied then '' (wrote '' @ show_nat (sv_written_ip_total_len c) @ ''; kernel rewrote -- Finding A)'' else '''') in
          if sv_check c = Wire then
            let want = spike_pattern (sv_surplus_len c);
                got = (case obs_surplus obs of Some s \<Rightarrow> s | None \<Rightarrow> []);
                ok = (got = want \<and> obs_total_len obs = sv_physical_len c) in
            and_then (println out (rs_lines st) (report_line c port
                  ((if ok then ''PASS'' else ''FAIL'') @ ''  surplus='' @ show_nat (length got) @ ''B ['' @ spike_hex got 8 @ ''] (expected ''
                   @ show_nat (sv_surplus_len c) @ ''B) total='' @ show_nat (obs_total_len obs) @ note_text))) (\<lambda>lines.
            let st = st\<lparr>rs_lines := lines\<rparr> in
            Ok (if ok then st\<lparr>rs_pass := rs_pass st + 1\<rparr> else st\<lparr>rs_fail := rs_fail st + 1\<rparr>))
          else
            let desc = (case obs_surplus obs of
                          Some s \<Rightarrow> ''surplus='' @ show_nat (length s) @ ''B ['' @ spike_hex s 8 @ '']''
                        | None \<Rightarrow> ''surplus=<no well-defined surplus: UDP Length field inconsistent>'') in
            and_then (println out (rs_lines st) (report_line c port (''PASS  delivered despite anomaly: total=''
                 @ show_nat (obs_total_len obs) @ '' udp-len-field='' @ show_nat (obs_udp_len_field obs) @ '' '' @ desc))) (\<lambda>lines.
            Ok (st\<lparr>rs_lines := lines, rs_pass := rs_pass st + 1\<rparr>)))"

fun report_loop ::
  "stdout \<Rightarrow> observation option list \<Rightarrow> usize \<Rightarrow> server_case list \<Rightarrow> report_state \<Rightarrow> (report_state, 'e) res" where
  "report_loop out seen i [] st = Ok st"
| "report_loop out seen i (c # cs) st =
     and_then (marker_port i) (\<lambda>port.
     and_then (if sv_check c = SendFails then Ok None else idx seen i) (\<lambda>obs.
     and_then (report_case out st c port obs) (report_loop out seen (i + 1) cs)))"

definition report_summary :: "report_state \<Rightarrow> string" where
  "report_summary st =
     ''spike_server: ''
     @ (if rs_fail st = 0 then ''PASS (all deliverable cases)'' else ''FAIL (a deliverable case did not match)'') @ '' (''
     @ show_nat (rs_pass st) @ '' delivered+passed, '' @ show_nat (rs_skip st) @ '' skipped send-limit cases, ''
     @ show_nat (rs_fail st) @ '' failed; Finding A confirmed on '' @ show_nat (rs_rewritten st) @ '' lying-Total-Length cases)''"

definition spike_report ::
  "stdout \<Rightarrow> server_case list \<Rightarrow> observation option list \<Rightarrow> (bool \<times> report_state, 'e) res" where
  "spike_report out cs seen =
     and_then (println out [] ''spike_server: results'') (\<lambda>lines.
     and_then (report_loop out seen 0 cs \<lparr>rs_pass = 0, rs_fail = 0, rs_skip = 0, rs_rewritten = 0, rs_lines = lines\<rparr>) (\<lambda>st.
     and_then (println out (rs_lines st) (report_summary st)) (\<lambda>lines.
     Ok (rs_fail st = 0, st\<lparr>rs_lines := lines\<rparr>))))"

section \<open>The program\<close>

definition server_run ::
  "stdout \<Rightarrow> io_error option \<Rightarrow> io_error option \<Rightarrow> instant \<Rightarrow> (instant \<times> (io_error + bytes)) list
     \<Rightarrow> (bool \<times> report_state, spike_error) res option" where
  "server_run out new_error timeout_error start ts =
     (case new_error of
        Some e \<Rightarrow> Some (Err (spike_error_from e))
      | None \<Rightarrow>
          (case timeout_error of
             Some e \<Rightarrow> Some (Err (spike_error_from e))
           | None \<Rightarrow>
               (case server_loop server_cases (start + DEADLINE) (replicate (length server_cases) None) ts of
                  None \<Rightarrow> None
                | Some r \<Rightarrow> Some (and_then r (spike_report out server_cases)))))"

definition server_main :: "(bool \<times> report_state, spike_error) res \<Rightarrow> (int, unit) res" where
  "server_main outcome =
     (case outcome of
        Panic \<Rightarrow> Panic
      | Ok (passed, _) \<Rightarrow> Ok (if passed then 0 else 1)
      | Err SpikePermission \<Rightarrow> Ok 2
      | Err (SpikeIo e) \<Rightarrow> Ok 1)"

section \<open>The link\<close>

text \<open>
  What the findings say of the kernel. A: the delivered Total Length is the length of the buffer, and the
  kernel writes the header checksum; every other byte arrives as it was sent. B: a datagram longer than the
  MTU is refused with EMSGSIZE. C: nothing of the UDP header is checked.
\<close>

definition delivered_as :: "bytes \<Rightarrow> bytes \<Rightarrow> bool" where
  "delivered_as pkt d \<longleftrightarrow>
     (\<exists>x y. d = take 2 pkt @ u16_to_be_bytes (word_of_nat (length pkt)) @ take 6 (drop 4 pkt) @ [x, y] @ drop 12 pkt)"

text \<open>Standard output that takes every line, as a terminal or an open pipe does.\<close>

definition takes_all :: "stdout \<Rightarrow> bool" where
  "takes_all out \<longleftrightarrow> (\<forall>n line. out n line)"

lemma println_takes: "takes_all out \<Longrightarrow> println out lines line = Ok (lines @ [line])"
  by (simp add: takes_all_def println_def)

definition sends_up_to_mtu :: "(usize \<Rightarrow> bytes \<Rightarrow> io_error + usize) \<Rightarrow> bool" where
  "sends_up_to_mtu send_to \<longleftrightarrow>
     (\<forall>i pkt. if length pkt > MTU then (\<exists>e. send_to i pkt = Inl e \<and> raw_os_error e = Some EMSGSIZE)
              else (\<exists>n. send_to i pkt = Inr n))"

definition deliverable :: "usize \<Rightarrow> bool" where
  "deliverable i \<longleftrightarrow> i < length case_parts \<and> sc_check (case_parts ! i) \<noteq> SendFails"

definition case_arrives :: "usize \<Rightarrow> bytes \<Rightarrow> bool" where
  "case_arrives i d \<longleftrightarrow>
     (\<exists>port pkt. marker_port i = (Ok port :: (_, unit) res)
        \<and> spike_build_datagram (case_parts ! i) port = (Ok pkt :: (_, unit) res) \<and> delivered_as pkt d)"

section \<open>The client\<close>

definition score :: "check \<Rightarrow> client_state \<Rightarrow> client_state" where
  "score k st = (if k = SendFails then st\<lparr>cl_emsgsize := cl_emsgsize st + 1\<rparr> else st\<lparr>cl_sent := cl_sent st + 1\<rparr>)"

lemma client_step:
  assumes "sends_up_to_mtu send_to" and "case_ok c" and "i < 97"
  shows "\<exists>port pkt. marker_port i = (Ok port :: (_, unit) res) \<and> spike_build_datagram c port = (Ok pkt :: (_, unit) res)
    \<and> client_score show_io out st c port (send_to i pkt) = Ok (score (sc_check c) st)"
proof -
  let ?port = "0x9868 + word_of_nat i :: u16"
  let ?pkt = "spike_ip_header (word_of_nat (sc_written_ip_total_len c)) ?port @ udp_header_bytes (spike_udp c ?port)
        @ spike_user_data c @ spike_pattern (sc_surplus_len c)"
  have "length ?pkt = physical_len c" by (simp add: spike_user_data_def physical_len_def spike_defs)
  moreover have "sc_check c = SendFails \<longleftrightarrow> physical_len c > MTU" using assms(2) by (simp add: case_ok_def)
  ultimately have "client_score show_io out st c ?port (send_to i ?pkt) = Ok (score (sc_check c) st)"
    using assms(1) [unfolded sends_up_to_mtu_def, rule_format, of ?pkt i]
    by (auto simp: client_score_def score_def)
  then show ?thesis using marker_port_Ok(1) [OF assms(3)] spike_build_eq [OF assms(2)] by auto
qed

lemma client_loop_scores:
  assumes "sends_up_to_mtu send_to"
  shows "list_all case_ok cs \<Longrightarrow> i + length cs \<le> 97 \<Longrightarrow>
    client_loop show_io out send_to i cs st = Ok (foldl (\<lambda>st c. score (sc_check c) st) st cs)"
proof (induction cs arbitrary: i st)
  case (Cons c cs)
  then obtain port pkt where "marker_port i = (Ok port :: (_, unit) res)" "spike_build_datagram c port = (Ok pkt :: (_, unit) res)"
    "client_score show_io out st c port (send_to i pkt) = Ok (score (sc_check c) st)"
    using client_step [OF assms, of c i show_io out st] by auto
  then show ?case using Cons by simp
qed simp

lemma foldl_score:
  "foldl (\<lambda>st c. score (sc_check c) st) st cs =
     st\<lparr>cl_sent := cl_sent st + length (filter (\<lambda>c. sc_check c \<noteq> SendFails) cs),
        cl_emsgsize := cl_emsgsize st + length (filter (\<lambda>c. sc_check c = SendFails) cs)\<rparr>"
  by (induction cs arbitrary: st) (simp_all add: score_def)

lemma client_passes:
  assumes "sends_up_to_mtu send_to" and "takes_all out"
  shows "client_main show_io out (Ok ()) send_to =
    Ok (0, Some \<lparr>cl_sent = 69, cl_emsgsize = 28, cl_failed = 0, cl_lines = [client_banner 97, client_summary 69 28 0]\<rparr>)"
  using client_loop_scores [OF assms(1) case_parts_ok, of 0]
  by (simp add: client_main_def foldl_score case_parts_checks length_case_parts println_takes [OF assms(2)])

section \<open>What the server observes\<close>

definition observed :: "usize \<Rightarrow> observation" where
  "observed i =
     (let c = case_parts ! i; n = physical_len c;
          ulen = unat (udp_length (spike_udp c (0x9868 + word_of_nat i))) in
      \<lparr>obs_total_len = n, obs_udp_len_field = ulen,
       obs_surplus = (if 8 \<le> ulen \<and> 20 + ulen \<le> n
         then Some (drop (ulen - 8) (spike_user_data c @ spike_pattern (sc_surplus_len c))) else None)\<rparr>)"

lemma match_marker_written:
  assumes hdr: "length hdr = 20" "hdr ! 0 = 0x45" "hdr ! 9 = 17" "unat (u16_from_be_bytes (hdr ! 2) (hdr ! 3)) = 28 + length rest"
    and port: "MARKER_BASE \<le> dst_port u" "unat (dst_port u) < 0x9868 + n" "0x9868 + n \<le> u16_max"
  shows "match_marker (hdr @ udp_header_bytes u @ rest) n =
    Ok (Some \<lparr>mk_dst_port = dst_port u, mk_total_len = 28 + length rest, mk_udp_len_field = unat (udp_length u),
      mk_surplus = (if 8 \<le> unat (udp_length u) \<and> 20 + unat (udp_length u) \<le> 28 + length rest
        then Some (drop (unat (udp_length u) - 8) rest) else None)\<rparr>)"
proof -
  let ?d = "hdr @ udp_header_bytes u @ rest"
  have nth: "?d ! 0 = 0x45" "?d ! 9 = 17" "?d ! 2 = hdr ! 2" "?d ! 3 = hdr ! 3" using hdr by (simp_all add: nth_append)
  have udp: "u16_from_be_bytes ((udp_header_bytes u @ rest) ! 2) ((udp_header_bytes u @ rest) ! 3) = dst_port u"
    "u16_from_be_bytes ((udp_header_bytes u @ rest) ! 4) ((udp_header_bytes u @ rest) ! 5) = udp_length u"
    by (simp_all add: udp_header_bytes_def u16_to_be_bytes_def)
  have n: "unat (word_of_nat n :: u16) = n" using port(3) by (intro unat_of_nat_u16) simp
  then have upper: "(add_u16_checked MARKER_BASE (word_of_nat n) :: (u16, 'z) res) = Ok (MARKER_BASE + word_of_nat n)"
    "unat (MARKER_BASE + word_of_nat n) = 0x9868 + n"
    using port(3) by (simp_all add: add_u16_checked_def MARKER_BASE_def unat_word_ariths u16_max_def)
  then have range: "MARKER_BASE \<le> dst_port u \<and> dst_port u < MARKER_BASE + word_of_nat n"
    using port by (simp add: word_less_nat_alt)
  have hl: "unat ((0x45 :: byte) AND 0x0f) * 4 = 20" by simp
  have drp: "drop 20 ?d = udp_header_bytes u @ rest" using hdr(1) by simp
  show ?thesis
    using hdr(1,4) by (simp add: match_marker_def spike_defs Let_def idx_def slice_def nth udp upper range drp hl)
qed

lemma delivered_spike:
  assumes "case_ok c" and "spike_build_datagram c port = (Ok pkt :: (_, 'e) res)" and "delivered_as pkt d"
  shows "\<exists>x y. d = ([0x45, 0] @ u16_to_be_bytes (word_of_nat (physical_len c)) @ u16_to_be_bytes port @ [0, 0, 64, 17, x, y]
      @ octets CLIENT_IP @ octets SERVER_IP) @ udp_header_bytes (spike_udp c port) @ spike_user_data c @ spike_pattern (sc_surplus_len c)"
proof -
  have pkt: "pkt = spike_ip_header (word_of_nat (sc_written_ip_total_len c)) port @ udp_header_bytes (spike_udp c port)
      @ spike_user_data c @ spike_pattern (sc_surplus_len c)"
    using assms(2) spike_build_eq [OF assms(1), of port, where 'e = 'e] by simp
  then have "length pkt = physical_len c" by (simp add: spike_user_data_def physical_len_def spike_defs)
  then show ?thesis
    using assms(3) pkt by (auto simp: delivered_as_def spike_ip_header_def Let_def u16_to_be_bytes_def)
qed

lemma arrived_match:
  assumes "deliverable i" and "case_arrives i d"
  shows "match_marker d 97 = Ok (Some \<lparr>mk_dst_port = 0x9868 + word_of_nat i, mk_total_len = obs_total_len (observed i),
    mk_udp_len_field = obs_udp_len_field (observed i), mk_surplus = obs_surplus (observed i)\<rparr>)"
proof -
  let ?c = "case_parts ! i" and ?port = "0x9868 + word_of_nat i :: u16"
  have i: "i < 97" using assms(1) by (simp add: deliverable_def length_case_parts)
  have ok: "case_ok ?c" using case_parts_ok i by (simp add: list_all_length length_case_parts)
  obtain pkt where "spike_build_datagram ?c ?port = (Ok pkt :: (_, unit) res)" "delivered_as pkt d"
    using assms(2) marker_port_Ok(1) [OF i, where 'a = unit] by (auto simp: case_arrives_def)
  from delivered_spike [OF ok this] obtain x y where d: "d = ([0x45, 0] @ u16_to_be_bytes (word_of_nat (physical_len ?c)) @ u16_to_be_bytes ?port
      @ [0, 0, 64, 17, x, y] @ octets CLIENT_IP @ octets SERVER_IP) @ udp_header_bytes (spike_udp ?c ?port) @ spike_user_data ?c
      @ spike_pattern (sc_surplus_len ?c)" (is "_ = ?hdr @ _ @ ?rest") by auto
  have n: "28 + length ?rest = physical_len ?c" by (simp add: spike_user_data_def physical_len_def spike_defs)
  have "unat (word_of_nat (physical_len ?c) :: u16) = physical_len ?c"
    using ok by (intro unat_of_nat_u16) (simp add: case_ok_def u16_max_def)
  then have "length ?hdr = 20" "?hdr ! 0 = 0x45" "?hdr ! 9 = 17" "unat (u16_from_be_bytes (?hdr ! 2) (?hdr ! 3)) = 28 + length ?rest"
    unfolding n by (simp_all add: u16_to_be_bytes_def)
  moreover have "dst_port (spike_udp ?c ?port) = ?port" by (simp add: spike_udp_def spike_udp_unsummed_def)
  ultimately show ?thesis
    using match_marker_written [of ?hdr ?rest "spike_udp ?c ?port" 97] marker_port_Ok(2) [OF i] i
    unfolding d n by (simp add: observed_def Let_def MARKER_BASE_def word_le_nat_alt u16_max_def del: append_assoc)
qed

section \<open>The server loop\<close>

definition partly_seen :: "observation option list \<Rightarrow> bool" where
  "partly_seen seen \<longleftrightarrow> length seen = 97 \<and> (\<forall>i < 97. seen ! i = None \<or> seen ! i = Some (observed i))"

definition good_turn :: "instant \<times> (io_error + bytes) \<Rightarrow> bool" where
  "good_turn t \<longleftrightarrow>
     (case snd t of
        Inl e \<Rightarrow> io_kind e = WouldBlock \<or> io_kind e = TimedOut
      | Inr d \<Rightarrow> match_marker d 97 = (Ok None :: (_, spike_error) res) \<or> (\<exists>i. deliverable i \<and> case_arrives i d))"

lemma length_server_cases [simp]: "length server_cases = 97"
  by (simp add: server_cases_def length_case_parts)

lemma all_wire_seen_iff:
  assumes "length seen = 97"
  shows "all_wire_seen server_cases seen \<longleftrightarrow> (\<forall>i. deliverable i \<longrightarrow> seen ! i \<noteq> None)"
  using assms
  by (auto simp: all_wire_seen_def list_all_length nth_enumerate_eq deliverable_def server_cases_def length_case_parts)

lemma record_observed:
  assumes "partly_seen seen" and "deliverable i"
  shows "record_marker seen \<lparr>mk_dst_port = 0x9868 + word_of_nat i, mk_total_len = obs_total_len (observed i),
      mk_udp_len_field = obs_udp_len_field (observed i), mk_surplus = obs_surplus (observed i)\<rparr> =
    Ok (seen[i := Some (observed i)])"
    and "partly_seen (seen[i := Some (observed i)])"
proof -
  have i: "i < 97" using assms(2) by (simp add: deliverable_def length_case_parts)
  have port: "\<not> (0x9868 + word_of_nat i :: u16) < MARKER_BASE" "unat (0x9868 + word_of_nat i - MARKER_BASE :: u16) = i"
    using marker_port_Ok(2) [OF i] i unat_of_nat_u16 [of i] by (simp_all add: MARKER_BASE_def word_less_nat_alt u16_max_def)
  have len: "length seen = 97" "seen ! i = None \<or> seen ! i = Some (observed i)" using assms(1) i by (simp_all add: partly_seen_def)
  then have "seen ! i \<noteq> None \<Longrightarrow> seen[i := Some (observed i)] = seen" by (metis list_update_id)
  moreover have eq: "\<lparr>obs_total_len = obs_total_len (observed i), obs_udp_len_field = obs_udp_len_field (observed i),
      obs_surplus = obs_surplus (observed i)\<rparr> = observed i" by simp
  ultimately show "record_marker seen \<lparr>mk_dst_port = 0x9868 + word_of_nat i, mk_total_len = obs_total_len (observed i),
      mk_udp_len_field = obs_udp_len_field (observed i), mk_surplus = obs_surplus (observed i)\<rparr> =
    Ok (seen[i := Some (observed i)])"
    using port len i by (cases "seen ! i = None") (simp_all add: record_marker_def eq)
  have "seen[i := Some (observed i)] ! k = None \<or> seen[i := Some (observed i)] ! k = Some (observed k)" if "k < 97" for k
    using assms(1) that by (cases "k = i") (simp_all add: partly_seen_def)
  then show "partly_seen (seen[i := Some (observed i)])" using len by (simp add: partly_seen_def)
qed

lemma case_arrivals_differ:
  assumes "deliverable i" "case_arrives i d" "deliverable j" "case_arrives j d"
  shows "i = j"
proof -
  have i: "i < 97" "j < 97" using assms by (simp_all add: deliverable_def length_case_parts)
  define p q :: u16 where "p = 0x9868 + word_of_nat i" and "q = 0x9868 + word_of_nat j"
  have "p = q"
    using arrived_match [OF assms(1,2), where 'a = unit] arrived_match [OF assms(3,4), where 'a = unit]
    unfolding p_def [symmetric] q_def [symmetric] by simp
  then show ?thesis
    using marker_port_Ok(2) [OF i(1)] marker_port_Ok(2) [OF i(2)] unfolding p_def [symmetric] q_def [symmetric] by simp
qed

lemma server_loop_completes:
  "partly_seen seen \<Longrightarrow> \<forall>t \<in> set ts. good_turn t \<and> fst t < deadline \<Longrightarrow>
   \<forall>i. deliverable i \<longrightarrow> seen ! i \<noteq> None \<or> (\<exists>(now, r) \<in> set ts. \<exists>d. r = Inr d \<and> case_arrives i d) \<Longrightarrow>
     \<exists>seen'. server_loop server_cases deadline seen ts = Some (Ok seen') \<and> partly_seen seen' \<and> (\<forall>i. deliverable i \<longrightarrow> seen' ! i \<noteq> None)"
proof (induction ts arbitrary: seen)
  case Nil
  then show ?case using all_wire_seen_iff [of seen] by (auto simp: partly_seen_def)
next
  case (Cons t ts)
  obtain now r where t: "t = (now, r)" by fastforce
  have len: "length seen = 97" using Cons.prems(1) by (simp add: partly_seen_def)
  show ?case
  proof (cases "all_wire_seen server_cases seen")
    case True
    then show ?thesis using Cons.prems(1) all_wire_seen_iff [OF len] by (auto simp: t)
  next
    case False
    have now: "now < deadline" and good: "good_turn (now, r)" using Cons.prems(2) t by auto
    have rest: "\<forall>t \<in> set ts. good_turn t \<and> fst t < deadline" using Cons.prems(2) by simp
    show ?thesis
    proof (cases r)
      case (Inl e)
      then have "server_loop server_cases deadline seen (t # ts) = server_loop server_cases deadline seen ts"
        using False now good by (auto simp: t good_turn_def)
      moreover have "\<forall>i. deliverable i \<longrightarrow> seen ! i \<noteq> None \<or> (\<exists>(now, r) \<in> set ts. \<exists>d. r = Inr d \<and> case_arrives i d)"
        using Cons.prems(3) by (auto simp: t Inl)
      ultimately show ?thesis using Cons.IH [OF Cons.prems(1) rest] by simp
    next
      case (Inr d)
      show ?thesis
      proof (cases "\<exists>j. deliverable j \<and> case_arrives j d")
        case True
        then obtain j where j: "deliverable j" "case_arrives j d" by blast
        let ?seen = "seen[j := Some (observed j)]"
        have "server_loop server_cases deadline seen (t # ts) = server_loop server_cases deadline ?seen ts"
          using False now by (simp add: t Inr arrived_match [OF j] record_observed(1) [OF Cons.prems(1) j(1)])
        moreover have "?seen ! i \<noteq> None \<or> (\<exists>(now, r) \<in> set ts. \<exists>d. r = Inr d \<and> case_arrives i d)" if i: "deliverable i" for i
        proof (cases "i = j")
          case True
          then show ?thesis using i len by (simp add: deliverable_def length_case_parts)
        next
          case False
          then have "\<not> case_arrives i d" using case_arrivals_differ [OF i _ j] by blast
          then show ?thesis using Cons.prems(3) i False by (auto simp: t Inr)
        qed
        ultimately show ?thesis
          using Cons.IH [OF record_observed(2) [OF Cons.prems(1) j(1)] rest] by simp
      next
        case none: False
        then have "match_marker d 97 = (Ok None :: (_, spike_error) res)" using good by (auto simp: good_turn_def Inr)
        then have "server_loop server_cases deadline seen (t # ts) = server_loop server_cases deadline seen ts"
          using False now by (simp add: t Inr)
        moreover have "seen ! i \<noteq> None \<or> (\<exists>(now, r) \<in> set ts. \<exists>d. r = Inr d \<and> case_arrives i d)" if "deliverable i" for i
          using Cons.prems(3) that none by (auto simp: t Inr)
        ultimately show ?thesis using Cons.IH [OF Cons.prems(1) rest] by simp
      qed
    qed
  qed
qed

section \<open>The report\<close>

lemma observed_surplus:
  assumes "deliverable i" and "sc_check (case_parts ! i) = Wire"
  shows "obs_surplus (observed i) = Some (spike_pattern (sc_surplus_len (case_parts ! i)))"
    and "obs_total_len (observed i) = physical_len (case_parts ! i)"
proof -
  let ?c = "case_parts ! i"
  have ok: "case_ok ?c" using case_parts_ok assms(1) by (simp add: list_all_length deliverable_def)
  then have "sc_udp_len_override ?c = None" using assms(2) by (simp add: case_ok_def)
  moreover have "unat (word_of_nat (8 + sc_udp_data_len ?c) :: u16) = 8 + sc_udp_data_len ?c"
    using ok by (intro unat_of_nat_u16) (simp add: case_ok_def physical_len_def spike_defs u16_max_def)
  ultimately have "unat (udp_length (spike_udp ?c port)) = 8 + sc_udp_data_len ?c" for port
    by (simp add: spike_udp_def spike_udp_unsummed_def case_udp_len_def spike_defs del: of_nat_add)
  then show "obs_surplus (observed i) = Some (spike_pattern (sc_surplus_len ?c))" "obs_total_len (observed i) = physical_len ?c"
    by (simp_all add: observed_def Let_def physical_len_def spike_defs spike_user_data_def)
qed

text \<open>A case that was refused or observed as expected does not fail.\<close>

lemma report_case_passes:
  assumes "takes_all out" and "i < 97" and "deliverable i \<Longrightarrow> obs = Some (observed i)"
  shows "\<exists>st'. report_case out st (server_cases ! i) port obs = (Ok st' :: (_, 'e) res) \<and> rs_fail st' = rs_fail st
    \<and> rs_pass st' = rs_pass st + of_bool (deliverable i) \<and> rs_skip st' = rs_skip st + of_bool (\<not> deliverable i)"
proof (cases "deliverable i")
  case True
  then have "sv_check (server_cases ! i) \<noteq> SendFails" using assms(2) by (simp add: deliverable_def server_cases_def length_case_parts)
  moreover have "sv_check (server_cases ! i) = Wire \<Longrightarrow>
      obs_surplus (observed i) = Some (spike_pattern (sv_surplus_len (server_cases ! i)))
      \<and> obs_total_len (observed i) = sv_physical_len (server_cases ! i)"
    using observed_surplus [OF True] assms(2) by (simp add: server_cases_def length_case_parts physical_len_def spike_defs)
  ultimately show ?thesis
    using assms(3) [OF True] True by (auto simp: report_case_def Let_def println_takes [OF assms(1)])
next
  case False
  then show ?thesis using assms(2) by (simp add: report_case_def deliverable_def server_cases_def length_case_parts)
qed

lemma report_loop_passes:
  assumes "length seen = 97" and "\<forall>i. deliverable i \<longrightarrow> seen ! i = Some (observed i)" and "takes_all out"
  shows "n \<le> 97 \<Longrightarrow> i = 97 - n \<Longrightarrow> \<exists>st'. report_loop out seen i (drop i server_cases) st = (Ok st' :: (_, 'e) res)
    \<and> rs_fail st' = rs_fail st
    \<and> rs_pass st' = rs_pass st + length (filter deliverable [i..<97])
    \<and> rs_skip st' = rs_skip st + length (filter (\<lambda>i. \<not> deliverable i) [i..<97])"
proof (induction n arbitrary: i st)
  case (Suc n)
  then have i: "i < 97" "Suc i = 97 - n" by auto
  let ?c = "server_cases ! i"
  have d: "drop i server_cases = ?c # drop (Suc i) server_cases" using i(1) by (simp add: Cons_nth_drop_Suc)
  obtain port where port: "marker_port i = (Ok port :: (_, 'e) res)" using marker_port_Ok(1) [OF i(1)] by blast
  define obs where "obs = (if sv_check ?c = SendFails then None else seen ! i)"
  have obs: "(if sv_check ?c = SendFails then Ok None else idx seen i) = (Ok obs :: (_, 'e) res)"
    using assms(1) i(1) by (simp add: obs_def idx_def)
  have "deliverable i \<Longrightarrow> obs = Some (observed i)"
    using assms(2) i(1) by (auto simp: obs_def deliverable_def server_cases_def length_case_parts)
  from report_case_passes [OF assms(3) i(1) this, of st port, where 'e = 'e]
  obtain st2 where step: "report_case out st ?c port obs = (Ok st2 :: (_, 'e) res)" "rs_fail st2 = rs_fail st"
    "rs_pass st2 = rs_pass st + of_bool (deliverable i)" "rs_skip st2 = rs_skip st + of_bool (\<not> deliverable i)" by blast
  have upt: "[i..<97] = i # [Suc i..<97]" using i(1) by (rule upt_conv_Cons)
  show ?case
    using Suc.IH [of "Suc i" st2] Suc.prems(1) i(2) step
    by (cases "deliverable i") (simp_all add: d port obs upt)
qed simp

lemma length_filter_nth: "length (filter (\<lambda>i. P (xs ! i)) [0..<length xs]) = length (filter P xs)"
proof -
  have "filter P xs = filter P (map ((!) xs) [0..<length xs])" by (simp only: map_nth)
  then show ?thesis by (simp add: filter_map comp_def)
qed

lemma deliverable_count:
  "length (filter deliverable [0..<97]) = 69" "length (filter (\<lambda>i. \<not> deliverable i) [0..<97]) = 28"
proof -
  have f: "filter deliverable [0..<length case_parts] = filter (\<lambda>i. sc_check (case_parts ! i) \<noteq> SendFails) [0..<length case_parts]"
    "filter (\<lambda>i. \<not> deliverable i) [0..<length case_parts] = filter (\<lambda>i. sc_check (case_parts ! i) = SendFails) [0..<length case_parts]"
    by (auto simp: deliverable_def intro: filter_cong)
  show "length (filter deliverable [0..<97]) = 69" "length (filter (\<lambda>i. \<not> deliverable i) [0..<97]) = 28"
    unfolding length_case_parts [symmetric] f
    by (simp_all only: length_filter_nth [where P = "\<lambda>c. sc_check c \<noteq> SendFails"]
        length_filter_nth [where P = "\<lambda>c. sc_check c = SendFails"] case_parts_checks)
qed

lemma server_passes:
  assumes "\<forall>t \<in> set ts. good_turn t \<and> fst t < start + DEADLINE"
    and "\<forall>i. deliverable i \<longrightarrow> (\<exists>(now, r) \<in> set ts. \<exists>d. r = Inr d \<and> case_arrives i d)" and "takes_all out"
  shows "\<exists>st. server_run out None None start ts = Some (Ok (True, st)) \<and> rs_pass st = 69 \<and> rs_skip st = 28 \<and> rs_fail st = 0"
proof -
  note upt_rec_numeral [simp del]
  let ?none = "replicate 97 None :: observation option list"
  have "partly_seen ?none" by (simp add: partly_seen_def)
  from server_loop_completes [OF this assms(1)] assms(2)
  obtain seen where loop: "server_loop server_cases (start + DEADLINE) ?none ts = Some (Ok seen)"
    and seen: "partly_seen seen" "\<forall>i. deliverable i \<longrightarrow> seen ! i \<noteq> None" by blast
  have "seen ! i = Some (observed i)" if "deliverable i" for i
  proof -
    have "i < 97" using that by (simp add: deliverable_def length_case_parts)
    then show ?thesis using seen that unfolding partly_seen_def by metis
  qed
  then have "length seen = 97" "\<forall>i. deliverable i \<longrightarrow> seen ! i = Some (observed i)"
    using seen by (simp_all add: partly_seen_def)
  from report_loop_passes [OF this assms(3), of 97 0
      "\<lparr>rs_pass = 0, rs_fail = 0, rs_skip = 0, rs_rewritten = 0, rs_lines = [''spike_server: results'']\<rparr>", where 'e = spike_error]
  show ?thesis
    using loop by (auto simp: server_run_def spike_report_def deliverable_count println_takes [OF assms(3)])
qed

text \<open>
  C33: On a link that behaves as the findings say, and with standard output taking every line, the spike passes on both
  sides. The client sends the 69 cases that
  fit the MTU, sees the other 28 refused, prints nothing but its two status lines, and exits with 0. If every sent case arrives at the server in time, in any
  order, any number of times and among other traffic and timeouts, the server observes every appended surplus intact
  and every anomalous header as delivered, counts 69 passes and no failure, and exits with 0.
\<close>

theorem spike_passes:
  assumes "sends_up_to_mtu send_to" and "takes_all out"
    and "\<forall>t \<in> set ts. good_turn t \<and> fst t < start + DEADLINE"
    and "\<forall>i. deliverable i \<longrightarrow> (\<exists>(now, r) \<in> set ts. \<exists>d. r = Inr d \<and> case_arrives i d)"
  shows "client_main show_io out (open_send_socket None 0 e) send_to =
      Ok (0, Some \<lparr>cl_sent = 69, cl_emsgsize = 28, cl_failed = 0, cl_lines = [client_banner 97, client_summary 69 28 0]\<rparr>)
    \<and> (\<exists>st. server_run out None None start ts = Some (Ok (True, st)) \<and> server_main (Ok (True, st)) = Ok 0
         \<and> rs_pass st = 69 \<and> rs_skip st = 28 \<and> rs_fail st = 0)"
proof -
  have "open_send_socket None 0 e = Ok ()" by (simp add: open_send_socket_def spike_set_hdrincl_def)
  then show ?thesis using client_passes [OF assms(1,2)] server_passes [OF assms(3,4,2)] by (auto simp: server_main_def)
qed

text \<open>A link for the witness: every case arrives once, in reverse order, after a timeout.\<close>

definition sample_send :: "usize \<Rightarrow> bytes \<Rightarrow> io_error + usize" where
  "sample_send i pkt = (if length pkt > MTU then Inl \<lparr>raw_os_error = Some 90, io_kind = OtherIo\<rparr> else Inr (length pkt))"

definition sample_arrival :: "usize \<Rightarrow> bytes" where
  "sample_arrival i =
     (case spike_build_datagram (case_parts ! i) (0x9868 + word_of_nat i) :: (_, unit) res of
        Ok pkt \<Rightarrow> take 2 pkt @ u16_to_be_bytes (word_of_nat (length pkt)) @ take 6 (drop 4 pkt) @ [0, 0] @ drop 12 pkt
      | _ \<Rightarrow> [])"

definition sample_turns :: "(instant \<times> (io_error + bytes)) list" where
  "sample_turns = (7, Inl \<lparr>raw_os_error = None, io_kind = TimedOut\<rparr>)
     # map (\<lambda>i. (8, Inr (sample_arrival i))) (rev (filter deliverable [0..<97]))"

lemma sample_arrives:
  assumes "deliverable i"
  shows "case_arrives i (sample_arrival i)"
proof -
  have i: "i < 97" using assms by (simp add: deliverable_def length_case_parts)
  then have "case_ok (case_parts ! i)" using case_parts_ok by (simp add: list_all_length length_case_parts)
  then show ?thesis
    using marker_port_Ok(1) [OF i, where 'a = unit] spike_build_eq [of "case_parts ! i" "0x9868 + word_of_nat i", where 'e = unit]
    by (auto simp: case_arrives_def sample_arrival_def delivered_as_def)
qed

theorem spike_passes_witness:
  "client_main (\<lambda>_. []) (\<lambda>_ _. True) (open_send_socket None 0 \<lparr>raw_os_error = None, io_kind = OtherIo\<rparr>) sample_send =
      Ok (0, Some \<lparr>cl_sent = 69, cl_emsgsize = 28, cl_failed = 0, cl_lines = [client_banner 97, client_summary 69 28 0]\<rparr>)
    \<and> (\<exists>st. server_run (\<lambda>_ _. True) None None 5 sample_turns = Some (Ok (True, st)) \<and> rs_fail st = 0)"
proof -
  note upt_rec_numeral [simp del]
  have "sends_up_to_mtu sample_send" by (simp add: sends_up_to_mtu_def sample_send_def EMSGSIZE_def)
  moreover have "takes_all (\<lambda>_ _. True)" by (simp add: takes_all_def)
  moreover have "\<forall>t \<in> set sample_turns. good_turn t \<and> fst t < 5 + DEADLINE"
    using sample_arrives by (auto simp: sample_turns_def good_turn_def DEADLINE_def)
  moreover have "\<forall>i. deliverable i \<longrightarrow> (\<exists>(now, r) \<in> set sample_turns. \<exists>d. r = Inr d \<and> case_arrives i d)"
    using sample_arrives by (auto simp: sample_turns_def deliverable_def length_case_parts)
  ultimately show ?thesis using spike_passes [of sample_send "\<lambda>_ _. True" sample_turns 5] by blast
qed

section \<open>The library on the spike's datagrams\<close>

lemma ip_parse_spike:
  assumes "hdr = [0x45, 0] @ u16_to_be_bytes tlen @ u16_to_be_bytes ident @ [0, 0, 64, 17, x, y] @ octets CLIENT_IP @ octets SERVER_IP"
    and "internet_checksum hdr = 0" and "20 \<le> unat tlen" and "unat tlen \<le> 20 + length rest"
  shows "ip_parse (hdr @ rest) = Ok (spike_ip tlen, 20)"
proof -
  let ?d = "hdr @ rest"
  have len: "length hdr = 20" by (simp add: assms(1))
  have nth: "?d ! 0 = 0x45" "?d ! 9 = 17" "u16_from_be_bytes (?d ! 2) (?d ! 3) = tlen"
    by (simp_all add: assms(1) u16_to_be_bytes_def)
  have sl: "(slice ?d 0 20 :: (_, header_error) res) = Ok hdr" "(slice ?d 12 16 :: (_, header_error) res) = Ok (octets CLIENT_IP)"
    "(slice ?d 16 20 :: (_, header_error) res) = Ok (octets SERVER_IP)"
    by (simp_all add: assms(1) slice_def CLIENT_IP_def SERVER_IP_def u16_to_be_bytes_def)
  have ix: "(idx ?d i :: (_, header_error) res) = Ok (?d ! i)" if "i < 20" for i using that len by (simp add: idx_def)
  have "ip_parse ?d = parse_v4 ?d" by (simp add: ip_parse_def assms(1))
  also have "\<dots> = Ok (spike_ip tlen, 20)"
    using assms(2-4) len
    by (simp add: parse_v4_def ix nth sl Let_def IPV4_MIN_HEADER_LEN_def IPPROTO_UDP_def addr_from_slice_four
        CLIENT_IP_def SERVER_IP_def spike_ip_def)
  finally show ?thesis .
qed

lemma spike_computed_library:
  assumes "case_ok c" and "sc_udp_len_override c = None"
  shows "compute_checksum ((spike_udp c port)\<lparr>udp_checksum := 0\<rparr>) (spike_ip tlen) (spike_user_data c) =
    (Ok (spike_computed c port) :: (_, 'e) res)"
proof -
  let ?u = "spike_udp_unsummed c port" and ?w = "word_of_nat (8 + sc_udp_data_len c) :: u16"
  have w: "unat ?w = 8 + sc_udp_data_len c"
    using assms(1) by (intro unat_of_nat_u16) (simp add: case_ok_def physical_len_def spike_defs u16_max_def)
  have u: "(spike_udp c port)\<lparr>udp_checksum := 0\<rparr> = ?u" "udp_length ?u = ?w" "udp_checksum ?u = 0"
    using assms(2) by (simp_all add: spike_udp_def spike_udp_unsummed_def case_udp_len_def spike_defs)
  have ip: "pseudo_header_sum (spike_ip 0) ?w = pseudo_header_sum (spike_ip tlen) ?w"
    by (simp add: pseudo_header_sum_def spike_ip_def)
  have "checksum_sum (add_slice (add_slice (pseudo_header_sum (spike_ip 0) ?w) (udp_header_bytes ?u)) (spike_user_data c)) =
      checksum_sum (add_slice (add_u16 (add_u16 (add_u16 (pseudo_header_sum (spike_ip tlen) ?w) (src_port ?u)) (dst_port ?u)) ?w) (spike_user_data c))"
    unfolding ip
    by (rule word_unat_eq_iff [THEN iffD2])
      (simp add: cs.total_val cs.val_laws cs.inv_laws words_total_udp_header_bytes u(2,3) ones_fold_adds ac_simps)
  then show ?thesis
    using w unfolding u(1) compute_checksum_eq u(2) spike_computed_def checksum_finish_def
    by (simp add: spike_user_data_def)
qed

text \<open>The verdict of the library's header checks on a case.\<close>

definition library_verdict :: "spike_case \<Rightarrow> u16 \<Rightarrow> bytes \<Rightarrow> (parsed_headers, recv_error) res" where
  "library_verdict c port d =
     (case sc_udp_len_override c of
        Some n \<Rightarrow>
          Err (if unat n < 8 then RecvHeader (UdpLengthInvalid n) else UdpLengthExceedsIpPayload n (physical_len c - 20))
      | None \<Rightarrow>
          if sc_cksum c = CksumBad
          then Err (UdpChecksumMismatch (spike_computed c port) (udp_checksum (spike_udp c port)))
          else Ok \<lparr>rh_ip = spike_ip (word_of_nat (physical_len c)), rh_udp_at = 20, rh_ip_end = physical_len c, rh_datagram = d,
                   rh_udp = spike_udp c port, rh_user_data = spike_user_data c\<rparr>)"

lemma udp_parse_short_length:
  "unat (udp_length u) < 8 \<Longrightarrow> udp_parse (udp_header_bytes u @ rest) = Err (UdpLengthInvalid (udp_length u))"
  by (simp add: udp_parse_def udp_header_bytes_def u16_to_be_bytes_def idx_def Let_def)

lemma spike_checksum_field:
  "sc_cksum c = CksumAuto \<Longrightarrow> udp_checksum (spike_udp c port) = spike_computed c port"
  "sc_cksum c = CksumZero \<Longrightarrow> udp_checksum (spike_udp c port) = 0"
  "sc_cksum c = CksumBad \<Longrightarrow> udp_checksum (spike_udp c port) \<noteq> 0 \<and> spike_computed c port \<noteq> udp_checksum (spike_udp c port)"
  by (auto simp: spike_udp_def spike_computed_def nonzero_or_ones_def)

lemma drop_whole_prefix: "drop (length xs) (xs @ ys) = ys"
  by simp

lemma library_on_delivered:
  assumes ok: "case_ok c" and hdr: "hdr = [0x45, 0] @ u16_to_be_bytes (word_of_nat (physical_len c)) @ u16_to_be_bytes ident
      @ [0, 0, 64, 17, x, y] @ octets CLIENT_IP @ octets SERVER_IP" and cs: "internet_checksum hdr = 0"
    and d: "d = hdr @ udp_header_bytes (spike_udp c port) @ spike_user_data c @ spike_pattern (sc_surplus_len c)"
  shows "recv_headers d = library_verdict c port d"
proof -
  let ?n = "word_of_nat (physical_len c) :: u16"
  have n: "unat ?n = physical_len c" using ok by (intro unat_of_nat_u16) (simp add: case_ok_def u16_max_def)
  have phys: "physical_len c = 28 + sc_udp_data_len c + sc_surplus_len c" by (simp add: physical_len_def spike_defs)
  have hl: "length hdr = 20" by (simp add: hdr)
  have len: "length d = physical_len c" using hl by (simp add: d phys spike_user_data_def)
  have ip: "ip_parse d = Ok (spike_ip ?n, 20)"
    unfolding d by (rule ip_parse_spike [OF hdr cs]; unfold n; simp add: phys spike_user_data_def)
  have sip: "header_len (spike_ip ?n) = 20" "total_len (spike_ip ?n) = ?n" by (simp_all add: spike_ip_def header_len_def)
  have tpl: "transport_payload_len (spike_ip ?n) = physical_len c - 20" by (simp add: transport_payload_len_def sip(2) n spike_ip_def)
  have rest: "drop 20 (take (physical_len c) d) = udp_header_bytes (spike_udp c port) @ spike_user_data c @ spike_pattern (sc_surplus_len c)"
    using len hl by (simp add: d)
  have eq: "recv_headers d = and_then (map_err RecvHeader (udp_parse (udp_header_bytes (spike_udp c port) @ spike_user_data c
      @ spike_pattern (sc_surplus_len c)))) (headers_tail (spike_ip ?n) d)"
    unfolding recv_headers_eq [OF ip] sip n rest ..
  show ?thesis
  proof (cases "sc_udp_len_override c")
    case None
    have w: "unat (udp_length (spike_udp c port)) = 8 + sc_udp_data_len c"
      using None ok unat_of_nat_u16 [of "8 + sc_udp_data_len c"]
      by (simp add: spike_udp_def spike_udp_unsummed_def case_udp_len_def spike_defs case_ok_def physical_len_def u16_max_def del: of_nat_add)
    have "udp_parse (udp_header_bytes (spike_udp c port) @ spike_user_data c @ spike_pattern (sc_surplus_len c)) = Ok (spike_udp c port)"
      by (rule udp_parse_written) (simp add: w)
    moreover have "take (unat (udp_length (spike_udp c port)) - 8) (drop (header_len (spike_ip ?n) + 8) d) = spike_user_data c"
      using hl by (simp add: w sip d spike_user_data_def)
    moreover have "take (unat (total_len (spike_ip ?n))) d = d" using len by (simp only: sip n take_all_iff)
    moreover have "\<not> unat (udp_length (spike_udp c port)) > transport_payload_len (spike_ip ?n)"
      unfolding w tpl by (simp add: phys)
    moreover note spike_computed_library [OF ok None, of port ?n, where 'e = recv_error] spike_checksum_field [of c port] sip n None eq
    ultimately show ?thesis
      by (cases "sc_cksum c") (simp_all add: headers_tail_def library_verdict_def Let_def)
  next
    case (Some m)
    then have m: "udp_length (spike_udp c port) = m" by (simp add: spike_udp_def spike_udp_unsummed_def)
    show ?thesis
    proof (cases "unat m < 8")
      case True
      then show ?thesis using eq udp_parse_short_length [of "spike_udp c port"] Some m by (simp add: library_verdict_def)
    next
      case False
      then have "udp_parse (udp_header_bytes (spike_udp c port) @ spike_user_data c @ spike_pattern (sc_surplus_len c)) = Ok (spike_udp c port)"
        by (intro udp_parse_written) (simp add: m)
      moreover have "unat m > physical_len c - 20" using ok Some False phys by (auto simp: case_ok_def)
      ultimately show ?thesis using eq Some m False by (simp add: headers_tail_def tpl library_verdict_def)
    qed
  qed
qed

text \<open>
  C34: The library's header checks agree with the spike on what its datagrams are. A delivered case whose header
  checksum the kernel has completed is accepted with the user data that was sent and the appended surplus behind it, also with
  no UDP checksum; it is rejected with the error that names the anomaly exactly if the checksum was corrupted or the
  UDP Length lies.
\<close>

theorem library_on_spike_cases:
  assumes "deliverable i" and "case_arrives i d" and "internet_checksum (take 20 d) = 0"
  defines "c \<equiv> case_parts ! i"
  shows "recv_headers d = library_verdict c (0x9868 + word_of_nat i) d
    \<and> drop (28 + sc_udp_data_len c) d = spike_pattern (sc_surplus_len c)"
proof -
  let ?port = "0x9868 + word_of_nat i :: u16"
  have i: "i < 97" using assms(1) by (simp add: deliverable_def length_case_parts)
  have ok: "case_ok c" using case_parts_ok i by (simp add: c_def list_all_length length_case_parts)
  obtain pkt where "spike_build_datagram c ?port = (Ok pkt :: (_, unit) res)" "delivered_as pkt d"
    using assms(2) marker_port_Ok(1) [OF i, where 'a = unit] by (auto simp: case_arrives_def c_def)
  from delivered_spike [OF ok this] obtain x y where d: "d = ([0x45, 0] @ u16_to_be_bytes (word_of_nat (physical_len c)) @ u16_to_be_bytes ?port
      @ [0, 0, 64, 17, x, y] @ octets CLIENT_IP @ octets SERVER_IP) @ udp_header_bytes (spike_udp c ?port) @ spike_user_data c
      @ spike_pattern (sc_surplus_len c)" (is "_ = ?hdr @ _") by auto
  have hl: "length ?hdr = 20" by simp
  then have "take 20 d = ?hdr" unfolding d by simp
  then have "internet_checksum ?hdr = 0" using assms(3) by (simp only:)
  then have "recv_headers d = library_verdict c ?port d" by (rule library_on_delivered [OF ok refl _ d])
  moreover have "drop (length (?hdr @ udp_header_bytes (spike_udp c ?port) @ spike_user_data c)) d = spike_pattern (sc_surplus_len c)"
    unfolding d by (simp only: append_assoc [symmetric] drop_whole_prefix)
  ultimately show ?thesis using hl by (simp add: spike_user_data_def)
qed

lemma spike_ip_header_sum: "internet_checksum (spike_ip_header tlen ident) = 0"
proof -
  let ?p = "[0x45, 0] @ u16_to_be_bytes tlen @ u16_to_be_bytes ident @ [0, 0, 64, 17]"
  let ?a = "octets CLIENT_IP @ octets SERVER_IP"
  have "words_total (spike_ip_header tlen ident) = words_total (?p @ [0, 0] @ ?a) + unat (internet_checksum (?p @ [0, 0] @ ?a))"
    by (simp add: spike_ip_header_def Let_def words_total_append unat_u16_from_be_bytes)
  then show ?thesis by (simp only: internet_checksum_eq_0_iff ones_fold_with_checksum)
qed

text \<open>The first case is honest and empty: it is delivered as it is built.\<close>

definition sample_packet :: bytes where
  "sample_packet =
     (case spike_build_datagram (case_parts ! 0) 0x9868 :: (_, unit) res of Ok pkt \<Rightarrow> pkt | _ \<Rightarrow> [])"

lemma first_case: "case_parts ! 0 = combo (case_label 0 0 ''honest'') 0 0 28"
  by (simp add: case_parts_def UDP_DATA_DIMS_def SURPLUS_DIMS_def combos_def spike_defs Let_def)

lemma sample_packet_eq:
  "sample_packet = spike_ip_header 28 0x9868 @ udp_header_bytes (spike_udp (case_parts ! 0) 0x9868)"
proof -
  have "case_ok (case_parts ! 0)" unfolding first_case by (simp add: combo_ok)
  from spike_build_eq [OF this, of "0x9868", where 'e = unit] show ?thesis
    by (simp add: sample_packet_def first_case combo_def spike_user_data_def spike_pattern_def)
qed

theorem library_on_spike_cases_witness:
  "recv_headers sample_packet = library_verdict (case_parts ! 0) 0x9868 sample_packet
    \<and> (\<exists>h. recv_headers sample_packet = Ok h \<and> rh_user_data h = [])"
proof -
  have d: "deliverable 0" by (simp add: deliverable_def length_case_parts first_case combo_def spike_defs)
  have p: "spike_build_datagram (case_parts ! 0) 0x9868 = (Ok sample_packet :: (_, unit) res)"
    using spike_build_eq [of "case_parts ! 0" "0x9868", where 'e = unit] combo_ok
    by (simp add: sample_packet_def first_case)
  have "delivered_as sample_packet sample_packet"
    unfolding delivered_as_def sample_packet_eq
    by (rule exI [of _ "spike_ip_header 28 0x9868 ! 10"], rule exI [of _ "spike_ip_header 28 0x9868 ! 11"])
      (simp add: spike_ip_header_def Let_def u16_to_be_bytes_def)
  then have "case_arrives 0 sample_packet"
    using marker_port_Ok(1) [of 0, where 'a = unit] p by (auto simp: case_arrives_def)
  moreover have "internet_checksum (take 20 sample_packet) = 0" by (simp add: sample_packet_eq spike_ip_header_sum)
  ultimately show ?thesis
    using library_on_spike_cases [OF d, of sample_packet]
    by (simp add: library_verdict_def first_case combo_def spike_user_data_def)
qed

end
