(* ===== verification/Spec2Isabelle.thy ===== *)
theory Spec2Isabelle
  imports End_To_End Recv_Reference Cli_Send_Safe Cli_Recv Fuzz_Targets Spike_Server
begin

text \<open>
  A verification library for the crate \<open>udp-transport-options\<close>, a user-space implementation of the transport
  options for UDP (RFC 9868) over raw IPv4 sockets. The sources of the crate are under \<open>src/src/\<close>, and the paths
  below are relative to that directory unless they start with \<open>src/\<close>.

  \<^bold>\<open>The program.\<close> A sender turns user data and options into IPv4 datagrams whose UDP Length is shorter than
  the IP payload. The bytes behind the UDP Length are the surplus area: an alignment pad, the option
  checksum (OCS) and a list of options in TLV form. A send that does not fit one datagram is split into
  fragments, each a datagram without user data whose surplus starts with a FRAG option and ends with a piece
  of the original. A receiver checks the headers, locates and checks the surplus area, handles the options,
  collects fragments in a cache, and runs a completed reassembly through the same pipeline once more. The
  public interface adds validation, a receive policy and a peer that owns sockets, cache and identifications.

  \<^bold>\<open>The theories.\<close> Each models the source file it names, in the order of the file.
  \<^item> \<open>Prelude\<close>: results (\<open>Ok\<close>, \<open>Err\<close>, \<open>Panic\<close>), checked slices and arithmetic, big-endian bytes. \<open>Limits\<close>
    (\<open>model.rs\<close>) and \<open>Errors\<close> (\<open>error.rs\<close>): constants and error types.
  \<^item> \<open>Checksum\<close>, \<open>Ip_Header\<close>, \<open>Udp_Header\<close>, \<open>Surplus\<close> (\<open>wire/\<close>): the Internet checksum, the header codecs and
    the surplus layout.
  \<^item> \<open>Option_Kind\<close>, \<open>Option_Parse\<close>, \<open>Option_Serialize\<close>, \<open>Ocs\<close>, \<open>Typed_Options\<close> (\<open>options/\<close>): Kinds, the TLV
    iterator, the builder, the option checksum and the six typed options.
  \<^item> \<open>Frag_Split\<close> (\<open>frag/split.rs\<close>) and \<open>Reassembly\<close> (\<open>frag/reassembly.rs\<close>) with \<open>Hash_Map\<close> (the laws of a map
    and their association-list model); \<open>Frag_Roundtrip\<close> relates the two.
  \<^item> \<open>Recv_Options\<close> and \<open>Pipeline\<close> (\<open>recv/pipeline.rs\<close>); \<open>Recv_Reference\<close> specifies the option handling
    declaratively, \<open>Option_Delivery\<close> relates it to the serializer.
  \<^item> \<open>Raw_Socket\<close> (\<open>socket/\<close>): datagram assembly, the demultiplexing filter and the receive loop.
  \<^item> \<open>Api\<close> (\<open>api/mod.rs\<close>): building, decoding, policies and peers. \<open>End_To_End\<close> follows a send to its delivery.
  \<^item> \<open>Cli_Send\<close> with \<open>Cli_Send_Safe\<close>, and \<open>Cli_Recv\<close> (\<open>bin/\<close>): the sender and the receiver program.
  \<^item> \<open>Oracle_Wire\<close>, \<open>Oracle_Options\<close>, \<open>Oracle_Frag\<close>, \<open>Oracle_Assemble\<close>, \<open>Oracle_Pipeline\<close> (\<open>src/tests/common*/mod.rs\<close>):
    the invariant checks that the tests and the fuzzers share; \<open>Fuzz_Targets\<close> (\<open>src/fuzz/fuzz_targets/\<close>): the nine
    fuzz targets.
  \<^item> \<open>Spike_Common\<close>, \<open>Spike_Client\<close>, \<open>Spike_Server\<close> (\<open>src/examples/\<close>): the experiment with the kernel's raw sockets,
    with its own datagram builder and checksum.

  \<^bold>\<open>Correspondence.\<close> A struct is a record, an enum a datatype, an operation one function with the name it has in
  the source, prefixed where the name is taken. \<open>u8\<close>, \<open>u16\<close>, \<open>u32\<close> and \<open>u64\<close> are words of their width, so that
  wrap-around is the machine's; \<open>usize\<close> is a natural number with the 64-bit maximum written into the
  checked operations, and every plain \<open>usize\<close> sum of the source is of lengths of buffers in memory. A method
  that mutates returns the new state. Indexing, slicing, \<open>expect\<close> and assertions yield \<open>Panic\<close>, so that the
  absence of panics is a theorem, not an assumption. Instants and durations are nanoseconds.

  \<^bold>\<open>Interfaces.\<close> The locale \<open>ones_accumulator\<close> is what the UDP checksum and the OCS use of the accumulator, the
  locale \<open>typed_option\<close> what the sender and the receiver use of a typed option, interpreted for all six, and
  the locale \<open>hash_map\<close> what the cache uses of its map. The invariants are \<open>checksum_inv\<close> (the running sum stays
  below 17 bits), \<open>partial_inv\<close> (segments ordered, disjoint, counted and within the limits) and \<open>cache_inv\<close>.

  \<^bold>\<open>What is shown.\<close> From send to receive: a send in one datagram and a send in fragments, in whatever order they
  arrive, are delivered with payload, options and reports (\<open>send_receive_single\<close>, \<open>send_receive_fragments\<close>).
  Receiving: no panic on any input, errors exactly from the header checks, user data never lost to malformed
  options, exactly what the policy lets through, memory bounded in every reachable state. Fragmentation: splitting
  partitions the tail, succeeds exactly within the limits, and reassembly inverts it; overlaps discard a
  reassembly, exact repetitions are absorbed and different keys do not interfere. Codecs: parsers and writers
  invert each other, the iterator refines a recursive reference and the receiver's option handling a declarative
  one, and the checksums compute, verify and detect changes. Peers, receive loop and programs: invariants over
  every sequence of operations, one identification for every fragmented send and none for any other, delivery
  before the deadline, the effect of the deliberate faults of the sender program, that it panics only if
  standard output refuses a line and sends only acceptable datagrams, and the exit status of the receiver
  program. Tests: on every input the pipeline does what the independent classification of the test suite
  predicts, and no fuzz target can fail. Experiment: on a link that behaves as its findings say client and server
  pass, and the library accepts exactly those of its datagrams whose headers are sound.

  \<^bold>\<open>Termination and fuel.\<close> There is no fuel. Loops over an iterator decrease the bytes left, the second pass over
  a reassembled datagram decreases the permission to reassemble, and the chunking loop, which nothing in its
  body bounds, is a partial function that is proved to return exactly when its guard admits it. A loop that
  waits for the network consumes a list of what the kernel does; no value means that it still waits.

  \<^bold>\<open>Parameters.\<close> CRC32C (the crate \<open>crc32c\<close>) is an argument \<open>crc\<close>, and every theorem holds for every function.
  The operating system's random bytes, its clock, its sockets, the manifest file, the text of its errors and which
  lines standard output takes are arguments; \<open>println!\<close> panics on a line that is not taken, as in the standard library.

  \<^bold>\<open>Not modelled.\<close> Log output (but the sampling of warnings is) and what is written to standard error, a failure
  to allocate memory other than a size above the maximum of the allocator, opening and configuring the sockets of the
  library, the stubs for other systems than Linux, the command-line parser, pauses between datagrams, the program
  \<open>src/examples/wire_probe.rs\<close>, which sends a fixed list of datagrams for packet captures, the drivers of the tests
  and the scripts.
\<close>

section \<open>Example values\<close>
definition ex_addrs :: datagram_addrs where
  "ex_addrs = \<lparr>addr_src = Ipv4Addr 10 0 0 1, addr_dst = Ipv4Addr 10 0 0 2, addr_src_port = 4000, addr_dst_port = 5000\<rparr>"

definition ex_options :: send_options where
  "ex_options = send_push_raw (with_apc send_options_new) \<lparr>opt_kind = Mds, opt_value = [5, 220]\<rparr>"

definition ex_config :: send_config where
  "ex_config = send_config_default\<lparr>max_datagram_len := 64, send_identification := Some 9\<rparr>"

lemma ex_options_facts:
  "validate_send_options ex_options = Ok ()"
  "sent_options (\<lambda>_. 7) payload ex_options = [\<lparr>opt_kind = Apc, opt_value = [0, 0, 0, 7]\<rparr>, \<lparr>opt_kind = Mds, opt_value = [5, 220]\<rparr>]"
  "valid_options (sent_options (\<lambda>_. 7) payload ex_options)"
  "length (body_of (sent_options (\<lambda>_. 7) payload ex_options)) = 14"
proof -
  show s: "sent_options (\<lambda>_. 7) payload ex_options =
      [\<lparr>opt_kind = Apc, opt_value = [0, 0, 0, 7]\<rparr>, \<lparr>opt_kind = Mds, opt_value = [5, 220]\<rparr>]"
    by (simp add: sent_options_def ex_options_def send_push_raw_def with_apc_def send_options_new_def u32_to_be_bytes_def)
  show "validate_send_options ex_options = Ok ()"
    by (simp add: validate_send_options_def ex_options_def send_push_raw_def with_apc_def send_options_new_def
        raw_options_contain_kind_def raw_options_contain_duplicate_reportable_kind_def Let_def kind_defs)
  show "valid_options (sent_options (\<lambda>_. 7) payload ex_options)"
  proof -
    have "valid_option \<lparr>opt_kind = Apc, opt_value = [0, 0, 0, 7]\<rparr>" "valid_option \<lparr>opt_kind = Mds, opt_value = [5, 220]\<rparr>"
      by (rule supported_kind_valid [of kind_APC] supported_kind_valid [of kind_MDS];
          simp add: fixed_value_lens_simps)+
    then show ?thesis unfolding s by (simp add: valid_options_def frag_count_def kind_defs)
  qed
  show "length (body_of (sent_options (\<lambda>_. 7) payload ex_options)) = 14"
    unfolding s by (simp add: body_of_def canonical_body_def written_options_def sort_canonical_def patched_def
        canonical_rank_def encoded_len_def serialize_limits Let_def kind_defs)
qed

section \<open>From send to receive\<close>

text \<open>
  C1: A valid send that fits one datagram yields exactly one datagram, and a receiver that decodes this datagram
  hands over the payload, the supported options in canonical order with their reports, and a valid option
  checksum, subject to its policy; its cache stays as it is. This holds for every payload, every list of
  valid options and every CRC32c function.
\<close>

theorem send_receive_single:
  assumes "validate_send_config config = Ok ()" and "validate_send_options so = Ok ()"
    and "valid_options (sent_options crc payload so)"
    and "assembled_len payload (body_of (sent_options crc payload so)) \<le> max_datagram_len config"
  shows "\<exists>d. build_outgoing_datagrams crc addrs payload so config = Ok [d]
    \<and> decode_datagram crc d c now rp =
        (Ok (apply_policy rp (delivered_payload crc payload (sent_options crc payload so) OcsValid)), c)"
proof -
  note b = build_outgoing_single [OF assms, of addrs]
  have "assembled_len payload (body_of (sent_options crc payload so)) \<le> u16_max"
    using build_outgoing_sendable(2) [OF b] assms(4) by linarith
  then show ?thesis using b decode_assembled [OF build_outgoing_sendable(1) [OF b]] by auto
qed

theorem send_receive_single_witness:
  "\<exists>d. build_outgoing_datagrams (\<lambda>_. 7) ex_addrs [1, 2, 3] ex_options ex_config = Ok [d]
    \<and> decode_datagram (\<lambda>_. 7) d cache_new 0 receive_policy_new =
        (Ok (Received
           \<lparr>rd_data = [1, 2, 3],
            rd_options = [\<lparr>opt_kind = Apc, opt_value = [0, 0, 0, 7]\<rparr>, \<lparr>opt_kind = Mds, opt_value = [5, 220]\<rparr>],
            rd_reports = [report Apc Success, report Mds Success],
            rd_ocs_reports = datagram_ocs OcsValid\<rparr>), cache_new)"
proof -
  have c: "validate_send_config ex_config = Ok ()" "max_datagram_len ex_config = 64"
    by (simp_all add: validate_send_config_Ok_iff ex_config_def u16_max_def)
  have a: "assembled_len [1, 2, 3] (body_of (sent_options (\<lambda>_. 7) [1, 2, 3] ex_options)) \<le> max_datagram_len ex_config"
    using ex_options_facts(4) [of "[1, 2, 3]"] by (simp add: assembled_len_def c)
  have "apply_policy receive_policy_new (delivered_payload (\<lambda>_. 7) [1, 2, 3] (sent_options (\<lambda>_. 7) [1, 2, 3] ex_options) OcsValid) =
      Received \<lparr>rd_data = [1, 2, 3],
            rd_options = [\<lparr>opt_kind = Apc, opt_value = [0, 0, 0, 7]\<rparr>, \<lparr>opt_kind = Mds, opt_value = [5, 220]\<rparr>],
            rd_reports = [report Apc Success, report Mds Success],
            rd_ocs_reports = datagram_ocs OcsValid\<rparr>"
    unfolding ex_options_facts(2)
    by (simp add: apply_policy_def receive_policy_new_def delivered_payload_def sort_canonical_def canonical_rank_def
        delivered_options_def delivered_reports_def delivered_status_def canonical_def reportable_def from_byte_def
        missing_required_option_def u32_to_be_bytes_def kind_defs)
  then show ?thesis
    using send_receive_single [OF c(1) ex_options_facts(1,3) a, of ex_addrs cache_new 0 receive_policy_new] by simp
qed


text \<open>
  C2: A fragmented send reassembles whatever the order of arrival: if its datagrams reach a receiver in any order
  within the timeout, and the receiver has room for the reassembly, all but the last are buffered and the
  last one delivers the payload and the options of the send; the cache keeps nothing of it. The fragments'
  option checksums are reported as valid, the reassembled datagram's as unused. A reassembled datagram
  that would exceed the IPv4 Total Length is dropped.
\<close>

theorem send_receive_fragments:
  assumes "build_outgoing_datagrams crc addrs payload so config = Ok ds"
    and "max_datagram_len config < assembled_len payload (body_of (sent_options crc payload so))"
    and "send_identification config = Some ident"
    and "mset (map fst xs) = mset ds"
    and "cache_inv c" and "hm_get (partials c) (fragment_key addrs ident) = None"
    and "hm_len (partials c) < lim_max_pending_partials (cache_limits c)"
    and "8 + length (reassembled_tail payload (body_of (sent_options crc payload so))) \<le> lim_max_reassembled_size (cache_limits c)"
    and "length ds \<le> lim_max_segments (cache_limits c)"
    and "\<forall>(d, now) \<in> set xs. now - snd (hd xs) < min (lim_timeout (cache_limits c)) REASSEMBLY_TIMEOUT_MAX"
  shows "\<exists>c'. receive_all crc c xs =
      (replicate (length ds - 1) (Ok Buffered) @ [Ok (fragment_delivery crc payload (sent_options crc payload so))], c')
    \<and> hm_get (partials c') (fragment_key addrs ident) = None"
proof -
  note s = build_outgoing_sendable [OF assms(1)]
  have m: "28 \<le> max_datagram_len config"
    using assms(1) by (auto simp: build_outgoing_datagrams_def and_then_eq_Ok validate_send_config_Ok_iff)
  from assms(1) show ?thesis
  proof (cases rule: build_outgoing_Ok_cases)
    case (single body)
    then show ?thesis using assms(2) by simp
  next
    case (fragments body ident' frs)
    then have "ident' = ident" "length ds = length frs" using assms(3) by auto
    then show ?thesis
      using receive_sent_fragments [OF _ s(1) m s(2) _ assms(5-8)] fragments assms(4,9,10) by simp
  qed
qed

theorem send_receive_fragments_witness:
  "\<exists>d1 d2 c'. build_outgoing_datagrams (\<lambda>_. 7) ex_addrs (replicate 30 1) ex_options ex_config = Ok [d1, d2]
    \<and> receive_all (\<lambda>_. 7) cache_new [(d2, 5), (d1, 6)] =
        ([Ok Buffered, Ok (Payload (fragment_payload (\<lambda>_. 7) (replicate 30 1) (sent_options (\<lambda>_. 7) (replicate 30 1) ex_options)))], c')"
proof -
  let ?p = "replicate 30 1 :: bytes" and ?s = "sent_options (\<lambda>_. 7) (replicate 30 1) ex_options"
  have t: "length (reassembled_tail ?p (body_of ?s)) = 44"
    using ex_options_facts(4) [of ?p] by (simp add: reassembled_tail_def Let_def rdos_needs_options_pad_def length_defs)
  have c: "validate_send_config ex_config = Ok ()" "max_datagram_len ex_config = 64"
    by (simp_all add: validate_send_config_Ok_iff ex_config_def u16_max_def)
  have b: "body_of ?s \<noteq> []" using ex_options_facts(4) [of ?p] by auto
  have a: "max_datagram_len ex_config < assembled_len ?p (body_of ?s)"
    using ex_options_facts(4) [of ?p] b by (simp add: assembled_len_def c)
  have "split_fits ?p (body_of ?s) (split_config_of ex_config 9)"
    using ex_options_facts(4) [of ?p] t
    by (simp add: split_fits_def split_config_of_def ex_config_def send_config_default_def chunks_needed_def
        FRAGMENT_SURPLUS_LEN_MAX_def IPV4_HEADER_LEN_def u16_max_def default_ipv4_def MRDS_DEFAULT_IPV4_def
        MIN_REASSEMBLY_SEGMENTS_def length_defs Let_def)
  then obtain frs where f: "split_datagram ?p (body_of ?s) (split_config_of ex_config 9) = Ok frs"
    using split_datagram_fits by blast
  have "length frs = 2"
    using split_datagram_Ok_fits(2) [OF f] t by (simp add: split_config_of_def ex_config_def chunks_needed_def)
  then obtain f1 f2 where frs: "frs = [f1, f2]" by (auto simp: length_Suc_conv numeral_2_eq_2)
  define d1 d2 where "d1 = addressed ex_addrs [] (fr_surplus_body f1)" and "d2 = addressed ex_addrs [] (fr_surplus_body f2)"
  have bo: "build_outgoing_datagrams (\<lambda>_. 7) ex_addrs ?p ex_options ex_config = Ok [d1, d2]"
    using build_outgoing_fragments [OF c(1) ex_options_facts(1,3) _ a _ _ f, of ex_addrs] ex_options_facts(4) [of ?p]
    by (simp add: frs d1_def d2_def ex_config_def send_config_default_def u16_max_def)
  have "\<exists>c'. receive_all (\<lambda>_. 7) cache_new [(d2, 5), (d1, 6)] =
      (replicate (length [d1, d2] - 1) (Ok Buffered) @ [Ok (fragment_delivery (\<lambda>_. 7) ?p ?s)], c')
    \<and> hm_get (partials c') (fragment_key ex_addrs 9) = None"
    using t by (intro send_receive_fragments [OF bo a])
      (simp_all add: cache_new_def cache_inv_with_limits, simp_all add: ex_config_def cache_with_limits_def default_limits_def hm_new_def hm_get_def hm_len_def
        MRDS_DEFAULT_IPV4_def MIN_REASSEMBLY_SEGMENTS_def REASSEMBLY_TIMEOUT_MAX_def REASSEMBLY_MAX_PENDING_PARTIALS_def)
  then show ?thesis using bo t by (auto simp: fragment_delivery_def u16_max_def)
qed

text \<open>
  C26: The low-level send is decoded to what it was given: a datagram built from user data and options without
  FRAG, no supported Kind twice, is delivered with the same user data, the supported options in canonical
  order, a report for each option and a valid option checksum, and the cache is left as it is.
\<close>

theorem build_datagram_roundtrip:
  assumes "build_datagram addrs payload opts = Ok d" and "\<not> raw_options_contain_kind opts kind_FRAG"
    and "distinct (reportable_bytes opts)"
  shows "process_datagram crc d c now = (Ok (Payload (delivered_payload crc payload opts OcsValid)), c)"
proof -
  note b = build_datagram_Ok [OF assms(1)]
  have "sendable opts" using frag_free_plain [OF b(2) assms(2)] assms(3) by (simp add: sendable_def)
  then show ?thesis using process_assembled b(1,3) by simp
qed

theorem build_datagram_roundtrip_witness:
  "\<exists>d. build_datagram ex_addrs [1] [\<lparr>opt_kind = Mds, opt_value = [5, 220]\<rparr>] = Ok d
    \<and> process_datagram (\<lambda>_. 7) d cache_new 0 =
        (Ok (Payload (delivered_payload (\<lambda>_. 7) [1] [\<lparr>opt_kind = Mds, opt_value = [5, 220]\<rparr>] OcsValid)), cache_new)"
proof -
  let ?o = "[\<lparr>opt_kind = Mds, opt_value = [5, 220]\<rparr>]"
  have v: "valid_options ?o"
    using ex_options_facts(2,3) [of "[]"] by (simp add: valid_options_def frag_count_def kind_defs)
  have f: "\<not> raw_options_contain_kind ?o kind_FRAG" by (simp add: raw_options_contain_kind_def kind_defs)
  have l: "length (body_of ?o) = 8"
    by (simp add: body_of_def canonical_body_def written_options_def sort_canonical_def patched_def encoded_len_def
        serialize_limits Let_def kind_defs)
  have "raw_options_body ?o = Ok (body_of ?o)"
    using v by (simp add: raw_options_body_fits l u16_max_def)
  then have b: "build_datagram ex_addrs [1] ?o = Ok (addressed ex_addrs [1] (body_of ?o))"
    using f l by (simp add: build_datagram_def validate_low_level_options_def assemble_checked_eq assembled_len_def
        IPV4_DATAGRAM_LEN_MAX_def u16_max_def usize_max_def Let_def)
  show ?thesis
    using build_datagram_roundtrip [OF b f] b by (auto simp: reportable_bytes_def)
qed


text \<open>
  C13: Every datagram of a send is within the configured length and is a datagram the receiver's header checks
  accept, with the configured addresses and ports and a non-zero UDP checksum.
\<close>

theorem sent_datagrams_well_formed:
  assumes "build_outgoing_datagrams crc addrs payload so config = Ok ds" and "d \<in> set ds"
  shows "28 \<le> length d \<and> length d \<le> max_datagram_len config
    \<and> (\<exists>h. recv_headers d = Ok h
        \<and> ip_src (rh_ip h) = addr_src addrs \<and> ip_dst (rh_ip h) = addr_dst addrs
        \<and> src_port (rh_udp h) = addr_src_port addrs \<and> dst_port (rh_udp h) = addr_dst_port addrs
        \<and> udp_checksum (rh_udp h) \<noteq> 0)"
proof -
  note len = build_outgoing_lengths [OF assms] and m = build_outgoing_sendable(2) [OF assms(1)]
  from assms(1) obtain p b where d: "d = addressed addrs p b" "body_ok b"
  proof (cases rule: build_outgoing_Ok_cases)
    case (single body)
    then show ?thesis using that assms(2) by simp
  next
    case (fragments body ident frs)
    then show ?thesis using that assms(2) fragment_body_ok(1) [OF fragments(5)] by auto
  qed
  then have "assembled_len p b \<le> u16_max" using len m by (simp add: length_addressed)
  from addressed_headers [OF d(2) this, of addrs] len show ?thesis by (auto simp: d(1))
qed

theorem sent_datagrams_well_formed_witness:
  "\<exists>d. build_outgoing_datagrams (\<lambda>_. 7) ex_addrs [1, 2, 3] ex_options ex_config = Ok [d] \<and> length d \<le> 64
    \<and> (\<exists>h. recv_headers d = Ok h \<and> dst_port (rh_udp h) = 5000)"
proof -
  have c: "validate_send_config ex_config = Ok ()" "max_datagram_len ex_config = 64"
    by (simp_all add: validate_send_config_Ok_iff ex_config_def u16_max_def)
  have a: "assembled_len [1, 2, 3] (body_of (sent_options (\<lambda>_. 7) [1, 2, 3] ex_options)) \<le> max_datagram_len ex_config"
    using ex_options_facts(4) [of "[1, 2, 3]"] by (simp add: assembled_len_def c)
  note b = build_outgoing_single [OF c(1) ex_options_facts(1,3) a, of ex_addrs]
  from sent_datagrams_well_formed [OF b] b show ?thesis by (auto simp: c ex_addrs_def)
qed


section \<open>Receiving\<close>

text \<open>
  C4: Receiving never panics, whatever the bytes, the cache and the policy, and it reports an error exactly when the
  header checks do, the same error: nothing in a surplus area or in a reassembled datagram is an error.
\<close>

theorem decode_datagram_outcome:
  "fst (decode_datagram crc d c now rp) \<noteq> Panic \<and> fst (process_datagram crc d c now) \<noteq> Panic
   \<and> (fst (decode_datagram crc d c now rp) = Err e \<longleftrightarrow> recv_headers d = Err e)
   \<and> (fst (process_datagram crc d c now) = Err e \<longleftrightarrow> recv_headers d = Err e)"
  using decode_datagram_total decode_datagram_Err_iff process_inner_total process_datagram_Err_iff
  by (simp add: process_datagram_def)

text \<open>
  C5: The reassembly memory of a receiver is bounded whatever it receives: in every state reached from an empty
  cache by datagrams and collections, the number of pending reassemblies, and for each of them the number
  of fragments, the bytes held and the end of every segment, stay within the configured limits, the
  segments are ordered and disjoint, and no complete reassembly is kept.
\<close>

theorem receiver_memory_bounded:
  assumes "receives crc (cache_with_limits lim) c"
  shows "hm_len (partials c) \<le> lim_max_pending_partials lim
    \<and> (\<forall>k p. hm_get (partials c) k = Some p \<longrightarrow>
         fragment_count p \<le> lim_max_segments lim \<and> length (segments p) \<le> fragment_count p
         \<and> byte_total p = seg_bytes (segments p) \<and> byte_total p \<le> lim_max_reassembled_size lim
         \<and> (\<forall>s \<in> set (segments p). 8 + seg_end s \<le> lim_max_reassembled_size lim)
         \<and> segs_ok 0 (segments p) \<and> terminal_end p \<noteq> Some (byte_total p))"
proof -
  have i: "cache_inv c" and l: "cache_limits c = lim"
    using receives_inv [OF assms cache_inv_with_limits] by (simp_all add: cache_with_limits_def)
  have "hm_len (partials c) \<le> lim_max_pending_partials lim" using i l by (simp add: cache_inv_def)
  moreover have "partial_inv lim p" "byte_total p \<le> lim_max_reassembled_size lim" "terminal_end p \<noteq> Some (byte_total p)"
    if "hm_get (partials c) k = Some p" for k p
  proof -
    show p: "partial_inv lim p" "terminal_end p \<noteq> Some (byte_total p)" using cache_inv_get [OF i that] l by auto
    then have "\<forall>s \<in> set (segments p). seg_end s \<le> lim_max_reassembled_size lim"
      unfolding partial_inv_def by (meson add_leD2)
    then show "byte_total p \<le> lim_max_reassembled_size lim"
      using p segs_ok_seg_bytes [of 0 "segments p" "lim_max_reassembled_size lim"] by (simp add: partial_inv_def)
  qed
  ultimately show ?thesis unfolding partial_inv_def by blast
qed

text \<open>A datagram that carries the first four bytes of a fragmented send.\<close>

definition ex_fragment :: bytes where
  "ex_fragment = addressed ex_addrs [] (fragment_options_body 9 8 None @ [1, 2, 3, 4])"

lemma ex_fragment_inserted:
  "\<exists>c' p. insert_with_options_and_failures cache_new (fragment_key ex_addrs 9) (fragment_frag 9 8 None) [1, 2, 3, 4] quiet 5 =
     (Ok (Incomplete, c') :: (_, 'e) res) \<and> hm_get (partials c') (fragment_key ex_addrs 9) = Some p \<and> byte_total p = 4"
proof -
  let ?nf = "\<lparr>nf_start = 0, nf_end = 4, nf_udp_length = None\<rparr>"
  have n: "normalized_new (fragment_frag 9 8 None) (Suc (Suc (Suc (Suc 0)))) = Some ?nf"
    by (simp add: normalized_new_def fragment_frag_def length_defs checked_add_def usize_max_def checked_sub_def)
  have g: "cache_gc cache_new 5 = cache_new" by (simp add: cache_gc_def cache_new_def cache_with_limits_def hm_new_def hm_retain_def)
  have c: "hm_get (partials cache_new) k = None" "hm_len (partials cache_new) = 0" "cache_limits cache_new = default_limits" for k
    by (simp_all add: cache_new_def cache_with_limits_def hm_new_def hm_get_def hm_len_def)
  have o: "observe_terminal (partial_new 5) ?nf [1, 2, 3, 4] [] [] = (True, partial_new 5)" by (simp add: observe_terminal_def)
  have a: "cache_admits cache_new ?nf" "\<not> cache_full cache_new (fragment_key ex_addrs 9)"
    "\<not> over_limit (partial_new 5) [1, 2, 3, 4] default_limits"
    by (simp_all add: cache_admits_def cache_full_def over_limit_def c default_limits_def usize_max_def partial_new_def
        MRDS_DEFAULT_IPV4_def MIN_REASSEMBLY_SEGMENTS_def REASSEMBLY_MAX_PENDING_PARTIALS_def)
  have i: "\<not> is_exact_duplicate (partial_new 5) ?nf [1, 2, 3, 4] [] []" "\<not> overlaps (partial_new 5) 0 4"
    by (simp_all add: is_exact_duplicate_def overlaps_def partial_new_def)
  show ?thesis
    by (simp add: insert_with_options_and_failures_eq n g a Let_def partial_of_def c quiet_def partial_insert_eq [OF o] i)
      (simp add: past_terminal_def accepted_def partial_new_def complete_def store_result_def hm_get_insert_same Let_def observe_fragment_ocs_def)
qed

lemma ex_fragment_buffered:
  "\<exists>c' p. process_datagram crc ex_fragment cache_new 5 = (Ok Buffered, c')
    \<and> hm_get (partials c') (fragment_key ex_addrs 9) = Some p \<and> byte_total p = 4"
proof -
  obtain c' p where i: "(insert_with_options_and_failures cache_new (fragment_key ex_addrs 9) (fragment_frag 9 8 None) [1, 2, 3, 4] quiet 5
      :: (_, recv_error) res) = Ok (Incomplete, c')" "hm_get (partials c') (fragment_key ex_addrs 9) = Some p" "byte_total p = 4"
    using ex_fragment_inserted by blast
  have "assembled_len [] (fragment_options_body 9 8 None @ [1, 2, 3, 4]) \<le> u16_max"
    by (simp add: assembled_len_def fragment_options_body_def frag_value_def Let_def u16_max_def)
  from process_once_fragment [OF refl refl this i(1), of crc] i(2,3) show ?thesis
    by (auto simp: process_datagram_unfold ex_fragment_def outcome_verdict_def)
qed

theorem receiver_memory_bounded_witness:
  "\<exists>c' p. process_datagram (\<lambda>_. 7) ex_fragment cache_new 5 = (Ok Buffered, c')
    \<and> hm_get (partials c') (fragment_key ex_addrs 9) = Some p \<and> byte_total p = 4 \<and> hm_len (partials c') \<le> 64
    \<and> fragment_count p \<le> lim_max_segments default_limits \<and> seg_bytes (segments p) = 4 \<and> segs_ok 0 (segments p)"
proof -
  obtain c' p where p: "process_datagram (\<lambda>_. 7) ex_fragment cache_new 5 = (Ok Buffered, c')"
    "hm_get (partials c') (fragment_key ex_addrs 9) = Some p" "byte_total p = 4" using ex_fragment_buffered by blast
  have "receives (\<lambda>_. 7) (cache_with_limits default_limits) c'"
    using receives_datagram [OF receives_none, of "\<lambda>_. 7" "cache_with_limits default_limits" ex_fragment 5] p(1)
    by (simp add: cache_new_def)
  from receiver_memory_bounded [OF this] p show ?thesis
    by (auto simp: default_limits_def REASSEMBLY_MAX_PENDING_PARTIALS_def)
qed

text \<open>
  C3: User data is never lost to its options. A datagram with acceptable headers and non-empty user data is
  delivered at once, with the cache unchanged, whatever its surplus area holds: a bad pad byte, a failed
  option checksum or malformed options cost the options, not the data. The one exception is an option
  area with a good checksum that holds an UNSAFE option or a FRAG of a wrong length, which withholds the
  data.
\<close>

theorem user_data_delivered:
  assumes "recv_headers d = Ok h" and "rh_user_data h \<noteq> []"
  shows "\<exists>p. process_datagram crc d c now = (Ok (Payload p), c)
    \<and> (pl_data p = rh_user_data h
       \<or> pl_data p = [] \<and> pl_options p = []
         \<and> (\<exists>status opts offset. recv_surplus h = Ok (OptionsAt status opts offset)
              \<and> (\<exists>x \<in> set (parse_spec 0 opts). unsafe_item x)))"
proof -
  have "recv_surplus h \<noteq> Panic" using recv_surplus_no_panic recv_headers_Ok(1) [OF assms(1)] by blast
  then consider (none) b s where "recv_surplus h = Ok (NoOptions b s)"
    | (opts) s opts off where "recv_surplus h = Ok (OptionsAt s opts off)"
    by (metis recv_surplus_not_Err res.exhaust surplus_verdict.exhaust)
  then show ?thesis
  proof cases
    case none
    then show ?thesis
      by (simp add: process_datagram_unfold process_once_def assms(1) deliver_without_options_def)
  next
    case (opts s opts off)
    show ?thesis
    proof (cases "parse_options crc opts (rh_user_data h) off")
      case (Ok po)
      note u = parse_options_unsafe [OF assms(2) Ok]
      show ?thesis
        using u by (auto simp: process_datagram_unfold process_once_def assms opts Ok process_parsed_def Let_def
            deliver_without_options_def)
    next
      case Panic
      then show ?thesis using parse_options_no_panic by blast
    qed (simp add: process_datagram_unfold process_once_def assms(1) opts deliver_without_options_def)
  qed
qed

text \<open>A datagram with three bytes of user data whose surplus area starts with a pad byte that is not zero.\<close>

definition ex_bad_pad :: bytes where
  "ex_bad_pad =
     (let ip = assembled_ip (addr_src ex_addrs) (addr_dst ex_addrs) [1, 2, 3] [0, 0] in
      wire_datagram ip (assembled_udp ip (addr_src_port ex_addrs) (addr_dst_port ex_addrs) [1, 2, 3]) [1, 2, 3]
        (faulty_surplus [1, 2, 3] 0xff 0 []))"

theorem user_data_delivered_witness:
  "\<exists>p. process_datagram (\<lambda>_. 7) ex_bad_pad cache_new 0 = (Ok (Payload p), cache_new) \<and> pl_data p = [1, 2, 3]"
proof -
  let ?ip = "assembled_ip (addr_src ex_addrs) (addr_dst ex_addrs) [1, 2, 3] [0, 0]"
  let ?udp = "assembled_udp ?ip (addr_src_port ex_addrs) (addr_dst_port ex_addrs) [1, 2, 3]"
  let ?s = "faulty_surplus [1, 2, 3] 0xff 0 []"
  have "wire_ok ?ip ?udp [1, 2, 3] (surplus_of [1, 2, 3] [0, 0])"
    using assembled_wire_ok [of "[0, 0]" "[1, 2, 3]"] by (simp add: assembled_len_def u16_max_def Let_def)
  then have w: "wire_ok ?ip ?udp [1, 2, 3] ?s"
    using wire_ok_faulty [of ?ip ?udp "[1, 2, 3]" _ ?s "\<lparr>wf_ocs = None, wf_pad = Some 0xff, wf_zero_udp_checksum = False\<rparr>"]
    by (simp add: faulty_udp_def)
  then have "recv_headers ex_bad_pad = Ok (wire_headers ?ip ?udp [1, 2, 3] ?s)"
    using recv_headers_written [OF w] by (simp add: ex_bad_pad_def Let_def)
  from user_data_delivered [OF this, of "\<lambda>_. 7" cache_new 0] recv_surplus_bad_pad [OF w] show ?thesis
    by (auto simp: wire_headers_def)
qed

text \<open>
  C7: The receive policy decides what is handed over, exactly. With option-bearing datagrams rejected, a datagram whose
  IP payload leaves room behind the user data for an aligned option checksum is filtered before it is
  processed, so that nothing of it, not even a fragment, reaches the cache. Any other payload is
  handed over exactly if every required option was processed successfully and did not fail on a fragment, and
  a required option checksum was observed as valid or unused and never as bad; else it is filtered.
\<close>

theorem receive_policy_enforced:
  assumes "recv_headers d = Ok h"
  shows "let udp_end = header_len (rh_ip h) + unat (udp_length (rh_udp h)) in
    if rp_drop_all_option_bearing rp \<and> udp_end + of_bool (odd udp_end) + 2 \<le> unat (total_len (rh_ip h))
    then decode_datagram crc d c now rp = (Ok Filtered, c)
    else case process_datagram crc d c now of
      (Ok (Payload p), c') \<Rightarrow>
        decode_datagram crc d c now rp =
          (Ok (if (\<forall>k \<in> set (rp_required_options rp).
                     (\<exists>r \<in> set (pl_reports p). rep_kind r = k \<and> rep_status r = Success)
                     \<and> \<not> (\<exists>r \<in> set (pl_reports p). rep_kind r = k \<and> rep_status r = Failed \<and> rep_source r = FragmentSet))
                 \<and> (rp_ocs_required rp \<longrightarrow>
                     (\<exists>r \<in> set (pl_ocs_reports p). ocs_rep_status r \<in> {OcsValid, OcsUnused})
                     \<and> \<not> (\<exists>r \<in> set (pl_ocs_reports p). ocs_rep_status r \<in> {OcsFailed, OcsInvalidZero, OcsUnobserved}))
               then Received \<lparr>rd_data = pl_data p, rd_options = pl_options p, rd_reports = pl_reports p,
                              rd_ocs_reports = pl_ocs_reports p\<rparr>
               else Filtered), c')
    | (Ok Buffered, c') \<Rightarrow> decode_datagram crc d c now rp = (Ok ApiBuffered, c')
    | (Ok Dropped, c') \<Rightarrow> decode_datagram crc d c now rp = (Ok ApiDropped, c')
    | _ \<Rightarrow> False"
proof -
  let ?e = "header_len (rh_ip h) + unat (udp_length (rh_udp h))"
  have room: "locate_surplus (rh_ip h) (rh_udp h) \<noteq> None \<longleftrightarrow> ?e + of_bool (odd ?e) + 2 \<le> unat (total_len (rh_ip h))"
    unfolding locate_surplus_None_iff by (simp add: not_less add.commute add.left_commute)
  have bearing: "\<not> pl_option_bearing p"
    if "locate_surplus (rh_ip h) (rh_udp h) = None" "process_datagram crc d c now = (Ok (Payload p), c')" for p c'
    using that by (auto simp: process_datagram_unfold process_once_def assms recv_surplus_def deliver_without_options_def)
  have total: "fst (process_datagram crc d c now) \<noteq> Panic" "fst (process_datagram crc d c now) \<noteq> Err e" for e
    using process_inner_total [of crc d c now True] process_datagram_Err_iff [of crc d c now e] assms
    by (simp_all add: process_datagram_def)
  note gate = decode_datagram_eq [of crc d c now rp, unfolded assms res.case room]
  show ?thesis
  proof (cases "rp_drop_all_option_bearing rp \<and> ?e + of_bool (odd ?e) + 2 \<le> unat (total_len (rh_ip h))")
    case True
    then show ?thesis using gate by (simp add: Let_def)
  next
    case False
    have open_gate: "rp_drop_all_option_bearing rp \<Longrightarrow> locate_surplus (rh_ip h) (rh_udp h) = None" using False room by blast
    show ?thesis
    proof (cases "process_datagram crc d c now")
      case (Pair v c')
      with total obtain x where x: "v = Ok x" by (cases v) auto
      have b: "x = Payload p \<Longrightarrow> rp_drop_all_option_bearing rp \<Longrightarrow> \<not> pl_option_bearing p" for p
        using bearing [OF open_gate] Pair x by blast
      show ?thesis
        using gate b
        unfolding Let_def if_not_P [OF False] Pair x
        by (cases x) (auto simp: apply_policy_def missing_required_option_def find_None_iff find_Some_iff ocs_requirement_satisfied_def)
    qed
  qed
qed

definition ex_datagram :: bytes where
  "ex_datagram = addressed ex_addrs [1, 2, 3] (body_of (sent_options (\<lambda>_. 7) [1, 2, 3] ex_options))"

lemma ex_datagram_headers:
  "\<exists>h. recv_headers ex_datagram = Ok h \<and> header_len (rh_ip h) = 20 \<and> unat (udp_length (rh_udp h)) = 11
    \<and> unat (total_len (rh_ip h)) = 46"
proof -
  let ?b = "body_of (sent_options (\<lambda>_. 7) [1, 2, 3] ex_options)"
  let ?ip = "assembled_ip (addr_src ex_addrs) (addr_dst ex_addrs) [1, 2, 3] ?b"
  let ?udp = "assembled_udp ?ip (addr_src_port ex_addrs) (addr_dst_port ex_addrs) [1, 2, 3]"
  have n: "assembled_len [1, 2, 3] ?b = 46" using ex_options_facts(4) [of "[1, 2, 3]"] by (auto simp: assembled_len_def)
  have w: "wire_ok ?ip ?udp [1, 2, 3] (surplus_of [1, 2, 3] ?b)"
    using assembled_wire_ok [of ?b "[1, 2, 3]"] n ex_options_facts(4) [of "[1, 2, 3]"] by (simp add: u16_max_def Let_def)
  have "recv_headers ex_datagram = Ok (wire_headers ?ip ?udp [1, 2, 3] (surplus_of [1, 2, 3] ?b))"
    using recv_headers_written [OF w] by (simp add: ex_datagram_def addressed_def assembled_def Let_def)
  then show ?thesis using n by (simp add: wire_headers_def header_len_20)
qed

lemma ex_datagram_processed:
  "process_datagram (\<lambda>_. 7) ex_datagram c now =
     (Ok (Payload \<lparr>pl_data = [1, 2, 3], pl_options = [\<lparr>opt_kind = Apc, opt_value = [0, 0, 0, 7]\<rparr>, \<lparr>opt_kind = Mds, opt_value = [5, 220]\<rparr>],
        pl_option_bearing = True, pl_reports = [report Apc Success, report Mds Success], pl_ocs_reports = datagram_ocs OcsValid\<rparr>), c)"
proof -
  let ?s = "sent_options (\<lambda>_. 7) [1, 2, 3] ex_options"
  have "sendable ?s"
    using ex_options_facts(1,3) sent_options_sendable options_body_fits ex_options_facts(4) [of "[1, 2, 3]"]
    by (simp add: u16_max_def)
  moreover have "assembled_len [1, 2, 3] (body_of ?s) \<le> u16_max"
    using ex_options_facts(4) [of "[1, 2, 3]"] by (simp add: assembled_len_def u16_max_def)
  ultimately show ?thesis
    unfolding ex_datagram_def by (simp add: process_assembled)
      (simp add: ex_options_facts(2) delivered_payload_def sort_canonical_def canonical_rank_def delivered_options_def
        delivered_reports_def delivered_status_def canonical_def reportable_def from_byte_def u32_to_be_bytes_def kind_defs)
qed

theorem receive_policy_enforced_witness:
  "decode_datagram (\<lambda>_. 7) ex_datagram cache_new 0 (receive_policy_new\<lparr>rp_drop_all_option_bearing := True\<rparr>) = (Ok Filtered, cache_new)
   \<and> decode_datagram (\<lambda>_. 7) ex_datagram cache_new 0 (receive_policy_new\<lparr>rp_required_options := [Req]\<rparr>) = (Ok Filtered, cache_new)
   \<and> (\<exists>rd. decode_datagram (\<lambda>_. 7) ex_datagram cache_new 0
          (receive_policy_new\<lparr>rp_required_options := [Mds], rp_ocs_required := True\<rparr>) = (Ok (Received rd), cache_new)
        \<and> rd_data rd = [1, 2, 3])"
proof -
  obtain h where h: "recv_headers ex_datagram = Ok h" "header_len (rh_ip h) = 20" "unat (udp_length (rh_udp h)) = 11"
    "unat (total_len (rh_ip h)) = 46" using ex_datagram_headers by blast
  note policy = receive_policy_enforced [OF h(1), unfolded h(2-4), of _ "\<lambda>_. 7" cache_new 0, unfolded ex_datagram_processed]
  show ?thesis
    using policy [of "receive_policy_new\<lparr>rp_drop_all_option_bearing := True\<rparr>"]
      policy [of "receive_policy_new\<lparr>rp_required_options := [Req]\<rparr>"]
      policy [of "receive_policy_new\<lparr>rp_required_options := [Mds], rp_ocs_required := True\<rparr>"]
    by (simp add: receive_policy_new_def report_def datagram_ocs_def)
qed


section \<open>Peers\<close>

text \<open>
  C14: A peer keeps its invariant over every sequence of sends, receives and collections: the cache stays well formed
  and within the default limits, addresses, policy and send configuration never change, and the
  identification counter never moves back.
\<close>

theorem peer_invariant:
  assumes "peer_bind sender receiver timeout urandom config = Ok p" and "peer_run crc p q"
  shows "cache_inv (ps_cache q) \<and> cache_limits (ps_cache q) = default_limits
    \<and> ps_addrs q = pc_addrs config \<and> ps_receive q = pc_receive config \<and> ps_send q = (pc_send config)\<lparr>send_identification := None\<rparr>
    \<and> id_bound (ps_identifications p) \<le> id_bound (ps_identifications q)"
proof -
  have p: "ps_cache p = cache_new" "ps_addrs p = pc_addrs config" "ps_receive p = pc_receive config"
    "ps_send p = (pc_send config)\<lparr>send_identification := None\<rparr>"
    using assms(1) by (auto simp: peer_bind_def and_then_eq_Ok take_peer_identification_generator_def)
  then have "cache_inv (ps_cache p)" "cache_limits (ps_cache p) = default_limits"
    using cache_inv_with_limits by (simp_all add: cache_new_def) (simp add: cache_with_limits_def)
  then show ?thesis using peer_run_inv [OF assms(2)] peer_run_ids [OF assms(2)] p by simp
qed

theorem peer_invariant_witness:
  "\<exists>p. peer_bind (Ok ()) (Ok ()) (Ok ()) (Ok (1, 2, 3, 4)) (peer_config_new ex_addrs) = Ok p
    \<and> cache_inv (ps_cache (peer_gc (snd (peer_recv (\<lambda>_. 7) p (Ok (Some [1, 2, 3])) 5)) 9))"
proof -
  obtain p where p: "peer_bind (Ok ()) (Ok ()) (Ok ()) (Ok (1, 2, 3, 4)) (peer_config_new ex_addrs) = Ok p"
    by (simp add: peer_bind_def take_peer_identification_generator_def peer_config_new_def send_config_default_def
        from_os_random_def)
  then show ?thesis
    using peer_invariant [OF p peer_run_gc [OF peer_run_recv [OF peer_run_refl]]] by blast
qed

text \<open>
  C27: A peer spends exactly one identification on every send that has to be fragmented and none on any other, and its
  caller never sees a request for one. A send is fragmented when it is admissible, longer than the
  configured length and fragmentation is enabled; it then carries the next identification and leaves its
  successor to the next such send, the last 32-bit value leaves none, and without one the send fails and
  changes nothing. The build never panics.
\<close>

theorem peer_identification_on_demand:
  "let n = assembled_len payload (body_of (sent_options crc payload so));
       (r, g') = build_peer_outgoing_datagrams crc addrs payload so config g in
   r \<noteq> Panic \<and> r \<noteq> Err FragmentIdentificationRequired
   \<and> (if send_admissible crc payload so config \<and> max_datagram_len config < n \<and> n \<le> usize_max
         \<and> fragmentation config = Auto \<and> send_identification config = None
      then case next_value g of
        None \<Rightarrow> g' = g \<and> r = Err (SendSplit IdentificationExhausted)
      | Some i \<Rightarrow> next_value g' = (if unat i = 2 ^ 32 - 1 then None else Some (i + 1))
          \<and> r = build_outgoing_datagrams crc addrs payload so (config\<lparr>send_identification := Some i\<rparr>)
      else g' = g \<and> r = build_outgoing_datagrams crc addrs payload so config)"
proof -
  obtain r g' where b: "build_peer_outgoing_datagrams crc addrs payload so config g = (r, g')" by force
  let ?needed = "build_outgoing_datagrams crc addrs payload so config = Err FragmentIdentificationRequired"
  have given: "build_outgoing_datagrams crc addrs payload so (config\<lparr>send_identification := Some i\<rparr>) \<noteq>
      Err FragmentIdentificationRequired" for i
    using identification_required(1) [of crc addrs payload so "config\<lparr>send_identification := Some i\<rparr>"] by auto
  have last: "unat i = 4294967295 \<longleftrightarrow> i = - 1" for i :: u32
    by (simp add: word_unat_eq_iff unsigned_minus_1_eq_mask mask_eq_exp_minus_1)
  show ?thesis
    using build_outgoing_no_panic given
    unfolding Let_def b identification_required_iff [unfolded Let_def, symmetric, of crc payload so config addrs]
    using b
    by (auto simp: build_peer_outgoing_datagrams_def next_id_def u32_checked_succ_def last split: option.splits)
qed

end
